(* ===== verification/Prelude.thy ===== *)
theory Prelude
  imports Complex_Main "HOL-Library.Multiset"
begin

text \<open>
  What every component of the development shares: Go errors as values, Go panics as a second
  kind of outcome, addresses for objects that the program shares through pointers, and the
  facts about swapping two cells of a list that the array heap rests on.
\<close>

section \<open>Errors and panics\<close>

text \<open>
  \<open>errors.New\<close> and \<open>fmt.Errorf\<close> build an error from a message, \<open>errors.Wrap\<close> puts a message
  in front of another error. A Go function that returns \<open>(T, error)\<close> returns a \<open>result\<close>.
\<close>

datatype go_error = New string | Wrap go_error string

type_synonym 'a result = "go_error + 'a"

text \<open>
  A run-time panic (a nil dereference, a failed type assertion) is neither a value nor an
  error: the goroutine dies, and with it the process. Code that can panic returns a \<open>go\<close>.
\<close>

datatype 'a go = Ret 'a | Panic string

definition is_panic :: "'a go \<Rightarrow> bool" where
  "is_panic g = (case g of Ret _ \<Rightarrow> False | Panic _ \<Rightarrow> True)"

lemma is_panic_simps [simp]: "\<not> is_panic (Ret x)" "is_panic (Panic s)"
  by (simp_all add: is_panic_def)

text \<open>
  Sequencing of code that may panic and may return an error: both end the function at once.
\<close>

definition bindR :: "'a result go \<Rightarrow> ('a \<Rightarrow> 'b result go) \<Rightarrow> 'b result go" where
  "bindR m f = (case m of Panic s \<Rightarrow> Panic s | Ret (Inl e) \<Rightarrow> Ret (Inl e) | Ret (Inr x) \<Rightarrow> f x)"

lemma bindR_simps [simp]:
  "bindR (Panic s) f = Panic s" "bindR (Ret (Inl e)) f = Ret (Inl e)" "bindR (Ret (Inr x)) f = f x"
  by (simp_all add: bindR_def)

lemma bindR_ok: "bindR m f = Ret (Inr y) \<longleftrightarrow> (\<exists>x. m = Ret (Inr x) \<and> f x = Ret (Inr y))"
  by (auto simp: bindR_def split: go.splits sum.splits)

lemma bindR_panic: "is_panic (bindR m f) \<longleftrightarrow> is_panic m \<or> (\<exists>x. m = Ret (Inr x) \<and> is_panic (f x))"
  by (auto simp: bindR_def split: go.splits sum.splits)

text \<open>The address of an object that is reached through several pointers.\<close>

type_synonym addr = nat

section \<open>Logs that only grow\<close>

text \<open>A log that an operation reads off the state has only got entries of one kind added to it.\<close>

definition grows :: "('e \<Rightarrow> 'r list) \<Rightarrow> ('r \<Rightarrow> bool) \<Rightarrow> 'e \<Rightarrow> 'e \<Rightarrow> bool" where
  "grows lg P e e' = (\<exists>rs. lg e' = lg e @ rs \<and> list_all P rs)"

lemma grows_none: "lg e' = lg e \<Longrightarrow> grows lg P e e'"
  by (simp add: grows_def)

lemma grows_one: "lg e' = lg e @ [r] \<Longrightarrow> P r \<Longrightarrow> grows lg P e e'"
  by (simp add: grows_def)

lemma grows_trans: "grows lg P e e' \<Longrightarrow> grows lg P e' e'' \<Longrightarrow> grows lg P e e''"
  unfolding grows_def by (metis append.assoc list_all_append)

lemma grows_mono: "grows lg P e e' \<Longrightarrow> (\<And>r. P r \<Longrightarrow> Q r) \<Longrightarrow> grows lg Q e e'"
  unfolding grows_def by (metis list.pred_mono_strong)

section \<open>Swapping two cells of a list\<close>

named_theorems heap_simps \<open>how the array operations read and measure\<close>

definition list_swap :: "'a list \<Rightarrow> nat \<Rightarrow> nat \<Rightarrow> 'a list" where
  "list_swap xs i j = xs[i := xs ! j, j := xs ! i]"

lemma length_list_swap [simp]: "length (list_swap xs i j) = length xs"
  by (simp add: list_swap_def)

lemma nth_list_swap [heap_simps]:
  "\<lbrakk>i < length xs; j < length xs; k < length xs\<rbrakk> \<Longrightarrow>
    list_swap xs i j ! k = (if k = i then xs ! j else if k = j then xs ! i else xs ! k)"
  by (auto simp: list_swap_def nth_list_update)

lemma mset_list_swap [simp]:
  "\<lbrakk>i < length xs; j < length xs\<rbrakk> \<Longrightarrow> mset (list_swap xs i j) = mset xs"
  by (simp add: list_swap_def mset_swap)

lemma set_list_swap [simp]:
  "\<lbrakk>i < length xs; j < length xs\<rbrakk> \<Longrightarrow> set (list_swap xs i j) = set xs"
  by (metis mset_list_swap set_mset_mset)

lemma distinct_list_swap [simp]:
  "\<lbrakk>i < length xs; j < length xs\<rbrakk> \<Longrightarrow> distinct (list_swap xs i j) = distinct xs"
  by (simp add: list_swap_def distinct_swap)

lemma list_swap_last:
  assumes "xs \<noteq> []" "i < length xs"
  shows "last (list_swap xs i (length xs - 1)) = xs ! i"
proof -
  have "last (list_swap xs i (length xs - 1)) = list_swap xs i (length xs - 1) ! (length xs - 1)"
    using assms by (metis last_conv_nth length_0_conv length_list_swap)
  also have "\<dots> = xs ! i"
    using assms by (auto simp: nth_list_swap)
  finally show ?thesis .
qed

end
