(* ===== verification/GoHeap.thy ===== *)
theory GoHeap
  imports Prelude
begin

text \<open>
  The standard library's \<open>container/heap\<close>, which \<open>pkg/queue\<close> drives through the methods of
  \<open>heap.Interface\<close>. The functions take the methods they call as arguments; the locale
  \<open>heap_interface\<close> says what those methods must do, and proves once that \<open>Push\<close>, \<open>Pop\<close> and
  \<open>Remove\<close> keep the heap order and lose nothing.
\<close>

section \<open>The functions of container/heap\<close>

function (sequential) heap_up ::
  "('h \<Rightarrow> nat \<Rightarrow> nat \<Rightarrow> bool) \<Rightarrow> (nat \<Rightarrow> nat \<Rightarrow> 'h \<Rightarrow> 'h) \<Rightarrow> 'h \<Rightarrow> nat \<Rightarrow> 'h" where
  "heap_up lessf swapf h j =
     (let i = (j - 1) div 2 in
      if i = j \<or> \<not> lessf h j i then h else heap_up lessf swapf (swapf i j h) i)"
  by pat_completeness auto
termination
  by (relation "measure (\<lambda>(lessf, swapf, h, j). j)") auto

function (sequential) heap_down_loop ::
  "('h \<Rightarrow> nat \<Rightarrow> nat \<Rightarrow> bool) \<Rightarrow> (nat \<Rightarrow> nat \<Rightarrow> 'h \<Rightarrow> 'h) \<Rightarrow> 'h \<Rightarrow> nat \<Rightarrow> nat \<Rightarrow> 'h \<times> nat" where
  "heap_down_loop lessf swapf h i n =
     (let j1 = 2 * i + 1 in
      if n \<le> j1 then (h, i)
      else let j = (if j1 + 1 < n \<and> lessf h (j1 + 1) j1 then j1 + 1 else j1) in
           if \<not> lessf h j i then (h, i) else heap_down_loop lessf swapf (swapf i j h) j n)"
  by pat_completeness auto
termination
  by (relation "measure (\<lambda>(lessf, swapf, h, i, n). n - i)") auto

declare heap_up.simps [simp del] heap_down_loop.simps [simp del]

definition heap_down ::
  "('h \<Rightarrow> nat \<Rightarrow> nat \<Rightarrow> bool) \<Rightarrow> (nat \<Rightarrow> nat \<Rightarrow> 'h \<Rightarrow> 'h) \<Rightarrow> 'h \<Rightarrow> nat \<Rightarrow> nat \<Rightarrow> 'h \<times> bool" where
  "heap_down lessf swapf h i0 n =
     (let (h', i) = heap_down_loop lessf swapf h i0 n in (h', i0 < i))"

definition heap_Push ::
  "('h \<Rightarrow> nat) \<Rightarrow> ('h \<Rightarrow> nat \<Rightarrow> nat \<Rightarrow> bool) \<Rightarrow> (nat \<Rightarrow> nat \<Rightarrow> 'h \<Rightarrow> 'h) \<Rightarrow>
   ('x \<Rightarrow> 'h \<Rightarrow> 'h) \<Rightarrow> 'x \<Rightarrow> 'h \<Rightarrow> 'h" where
  "heap_Push len lessf swapf push x h =
     (let h' = push x h in heap_up lessf swapf h' (len h' - 1))"

definition heap_Pop ::
  "('h \<Rightarrow> nat) \<Rightarrow> ('h \<Rightarrow> nat \<Rightarrow> nat \<Rightarrow> bool) \<Rightarrow> (nat \<Rightarrow> nat \<Rightarrow> 'h \<Rightarrow> 'h) \<Rightarrow>
   ('h \<Rightarrow> 'x \<times> 'h) \<Rightarrow> 'h \<Rightarrow> 'x \<times> 'h" where
  "heap_Pop len lessf swapf pop h =
     (let n = len h - 1 in pop (fst (heap_down lessf swapf (swapf 0 n h) 0 n)))"

definition heap_Remove ::
  "('h \<Rightarrow> nat) \<Rightarrow> ('h \<Rightarrow> nat \<Rightarrow> nat \<Rightarrow> bool) \<Rightarrow> (nat \<Rightarrow> nat \<Rightarrow> 'h \<Rightarrow> 'h) \<Rightarrow>
   ('h \<Rightarrow> 'x \<times> 'h) \<Rightarrow> nat \<Rightarrow> 'h \<Rightarrow> 'x \<times> 'h" where
  "heap_Remove len lessf swapf pop i h =
     (let n = len h - 1 in
      if n = i then pop h
      else let (h', moved) = heap_down lessf swapf (swapf i n h) i n in
           pop (if moved then h' else heap_up lessf swapf h' i))"

section \<open>The heap order on arrays\<close>

text \<open>
  \<open>heap_upto le xs n\<close>: the first \<open>n\<close> cells form a heap, each cell at least its parent.
  \<open>up_inv\<close> and \<open>down_inv\<close> are the loop invariants: the order may fail only between one cell
  and its parent, or only between one cell and its children, and the cells on either side
  of it are in order with each other. For \<open>down\<close> the cell's own parent is left open as well:
  \<open>Remove\<close> moves the last element to an arbitrary place, where it may be too small.
\<close>

definition par :: "nat \<Rightarrow> nat" where
  "par k = (k - 1) div 2"

definition heap_upto :: "('a \<Rightarrow> 'a \<Rightarrow> bool) \<Rightarrow> 'a list \<Rightarrow> nat \<Rightarrow> bool" where
  "heap_upto le xs n = (\<forall>k. 0 < k \<longrightarrow> k < n \<longrightarrow> le (xs ! par k) (xs ! k))"

definition up_inv :: "('a \<Rightarrow> 'a \<Rightarrow> bool) \<Rightarrow> 'a list \<Rightarrow> nat \<Rightarrow> nat \<Rightarrow> bool" where
  "up_inv le xs j n =
     ((\<forall>k. 0 < k \<longrightarrow> k < n \<longrightarrow> k \<noteq> j \<longrightarrow> le (xs ! par k) (xs ! k)) \<and>
      (\<forall>k. 0 < k \<longrightarrow> k < n \<longrightarrow> par k = j \<longrightarrow> 0 < j \<longrightarrow> le (xs ! par j) (xs ! k)))"

definition down_inv :: "('a \<Rightarrow> 'a \<Rightarrow> bool) \<Rightarrow> 'a list \<Rightarrow> nat \<Rightarrow> nat \<Rightarrow> bool" where
  "down_inv le xs i n =
     ((\<forall>k. 0 < k \<longrightarrow> k < n \<longrightarrow> k \<noteq> i \<longrightarrow> par k \<noteq> i \<longrightarrow> le (xs ! par k) (xs ! k)) \<and>
      (\<forall>k. 0 < k \<longrightarrow> k < n \<longrightarrow> par k = i \<longrightarrow> 0 < i \<longrightarrow> le (xs ! par i) (xs ! k)))"

lemma par_less: "0 < k \<Longrightarrow> par k < k"
  by (simp add: par_def)

lemma par_neq: "0 < k \<Longrightarrow> par k \<noteq> k"
  using par_less [of k] by simp

lemma par_cases: "0 < k \<Longrightarrow> par k = i \<longleftrightarrow> k = 2 * i + 1 \<or> k = 2 * i + 2"
  by (auto simp: par_def)

lemma child_interval:
  assumes "k < n" "0 < k" "par k = i"
  shows "2 * i + 1 < n" and "k = 2 * i + 1 \<or> (k = 2 * i + 2 \<and> 2 * i + 2 < n)"
  using assms par_cases [of k i] by auto

lemma heap_upto_root:
  assumes heap: "heap_upto le xs n" and k: "k < n"
    and refl: "\<And>a. a \<in> S \<Longrightarrow> le a a"
    and trans: "\<And>a b c. \<lbrakk>a \<in> S; b \<in> S; c \<in> S; le a b; le b c\<rbrakk> \<Longrightarrow> le a c"
    and S: "\<And>i. i < n \<Longrightarrow> xs ! i \<in> S"
  shows "le (xs ! 0) (xs ! k)"
  using k
proof (induction k rule: less_induct)
  case (less k)
  show ?case
  proof (cases "k = 0")
    case True
    with less.prems show ?thesis using refl S by simp
  next
    case False
    then have "par k < k" by (simp add: par_less)
    with less have "le (xs ! 0) (xs ! par k)" by simp
    moreover have "le (xs ! par k) (xs ! k)"
      using heap False less.prems by (simp add: heap_upto_def)
    ultimately show ?thesis
      using trans [of "xs ! 0" "xs ! par k" "xs ! k"] S \<open>par k < k\<close> less.prems by simp
  qed
qed

section \<open>What the methods of heap.Interface promise\<close>

text \<open>
  \<open>elems\<close> reads the array, \<open>entry\<close> what an element pushed or popped contributes to it, \<open>ok\<close> is
  what the provider keeps true of its own data, and \<open>C\<close> the elements on which \<open>le\<close> is a total
  preorder (for floating point priorities: those that are not NaN).
\<close>

locale heap_interface =
  fixes len :: "'h \<Rightarrow> nat"
    and lessf :: "'h \<Rightarrow> nat \<Rightarrow> nat \<Rightarrow> bool"
    and swapf :: "nat \<Rightarrow> nat \<Rightarrow> 'h \<Rightarrow> 'h"
    and push :: "'x \<Rightarrow> 'h \<Rightarrow> 'h"
    and pop :: "'h \<Rightarrow> 'x \<times> 'h"
    and elems :: "'h \<Rightarrow> 'a list"
    and entry :: "'x \<Rightarrow> 'h \<Rightarrow> 'a"
    and le :: "'a \<Rightarrow> 'a \<Rightarrow> bool"
    and C :: "'a set"
    and ok :: "'h \<Rightarrow> bool"
    and fresh :: "'x \<Rightarrow> 'h \<Rightarrow> bool"
  assumes len_elems [simp]: "len h = length (elems h)"
    and less_elems: "\<lbrakk>i < length (elems h); j < length (elems h)\<rbrakk> \<Longrightarrow>
      lessf h i j = (\<not> le (elems h ! j) (elems h ! i))"
    and elems_swap [simp]: "\<lbrakk>i < length (elems h); j < length (elems h)\<rbrakk> \<Longrightarrow>
      elems (swapf i j h) = list_swap (elems h) i j"
    and ok_swap [intro]: "\<lbrakk>ok h; i < length (elems h); j < length (elems h)\<rbrakk> \<Longrightarrow> ok (swapf i j h)"
    and ok_elems: "ok h \<Longrightarrow> set (elems h) \<subseteq> C"
    and elems_push: "\<lbrakk>ok h; fresh x h\<rbrakk> \<Longrightarrow> elems (push x h) = elems h @ [entry x h]"
    and ok_push: "\<lbrakk>ok h; fresh x h\<rbrakk> \<Longrightarrow> ok (push x h)"
    and pop_elems: "\<lbrakk>ok h; elems h \<noteq> []; pop h = (x, h')\<rbrakk> \<Longrightarrow>
      elems h' = butlast (elems h) \<and> entry x h = last (elems h) \<and> ok h'"
    and entry_swap [simp]: "entry x (swapf i j h) = entry x h"
    and entry_push [simp]: "entry y (push x h) = entry y h"
    and entry_pop: "pop h = (x, h') \<Longrightarrow> entry y h' = entry y h"
    and le_refl: "a \<in> C \<Longrightarrow> le a a"
    and le_trans: "\<lbrakk>a \<in> C; b \<in> C; c \<in> C; le a b; le b c\<rbrakk> \<Longrightarrow> le a c"
    and le_total: "\<lbrakk>a \<in> C; b \<in> C\<rbrakk> \<Longrightarrow> le a b \<or> le b a"
begin

lemma nth_C: "\<lbrakk>ok h; i < length (elems h)\<rbrakk> \<Longrightarrow> elems h ! i \<in> C"
  using ok_elems nth_mem by blast

lemma up_inv_swap:
  assumes ok: "ok h" and n: "n \<le> length (elems h)" and j: "j < n" "0 < j"
    and inv: "up_inv le (elems h) j n" and lt: "\<not> le (elems h ! par j) (elems h ! j)"
  shows "up_inv le (elems (swapf (par j) j h)) (par j) n"
proof -
  define i where "i = par j"
  let ?xs = "elems h" and ?ys = "list_swap (elems h) i j"
  have i: "i < n" "i < j" "par j = i" using j par_less [of j] by (simp_all add: i_def)
  have inC: "\<And>k. k < n \<Longrightarrow> ?xs ! k \<in> C" using ok n nth_C by auto
  have ji: "le (?xs ! j) (?xs ! i)" using lt le_total inC i j by blast
  have inv1: "\<And>k. \<lbrakk>0 < k; k < n; k \<noteq> j\<rbrakk> \<Longrightarrow> le (?xs ! par k) (?xs ! k)"
    and inv2: "\<And>k. \<lbrakk>0 < k; k < n; par k = j\<rbrakk> \<Longrightarrow> le (?xs ! i) (?xs ! k)"
    using inv j i by (auto simp: up_inv_def)
  have ys: "?ys ! i = ?xs ! j" "?ys ! j = ?xs ! i"
    "\<And>k. \<lbrakk>k < n; k \<noteq> i; k \<noteq> j\<rbrakk> \<Longrightarrow> ?ys ! k = ?xs ! k"
    using n i j by (simp_all add: nth_list_swap)
  have c1: "le (?ys ! par k) (?ys ! k)" if k: "0 < k" "k < n" "k \<noteq> i" for k
  proof (cases "k = j")
    case True
    then show ?thesis using ji ys i by simp
  next
    case False
    have pk: "par k < n" using k par_less [of k] by simp
    have up: "le (?xs ! par k) (?xs ! k)" using inv1 k False by blast
    show ?thesis
    proof (cases "par k = i")
      case True
      with up ji have "le (?xs ! j) (?xs ! k)" using le_trans inC i j k by metis
      then show ?thesis using True False k ys by simp
    next
      case notpar: False
      then show ?thesis using up inv2 [OF k(1,2)] ys pk k False by (cases "par k = j") simp_all
    qed
  qed
  have c2: "le (?ys ! par i) (?ys ! k)" if k: "0 < k" "k < n" "par k = i" "0 < i" for k
  proof -
    have pi: "par i < n" "par i \<noteq> i" "par i \<noteq> j" using k i par_less [of i] by simp_all
    have ki: "k \<noteq> i" using k par_neq by blast
    have a: "le (?xs ! par i) (?xs ! i)" using inv1 k i by simp
    have "le (?xs ! par i) (?xs ! k)" if "k \<noteq> j"
      using a inv1 [OF k(1,2) that] k(3) le_trans inC pi i k by metis
    then show ?thesis using a ys pi k ki by (cases "k = j") simp_all
  qed
  show ?thesis
    using c1 c2 n i j by (simp add: up_inv_def)
qed

lemma up_spec:
  assumes "ok h" "n \<le> length (elems h)" "j < n" "up_inv le (elems h) j n"
  shows "heap_upto le (elems (heap_up lessf swapf h j)) n \<and> ok (heap_up lessf swapf h j) \<and>
    mset (elems (heap_up lessf swapf h j)) = mset (elems h) \<and>
    (\<forall>k. j < k \<longrightarrow> elems (heap_up lessf swapf h j) ! k = elems h ! k)"
  using assms
proof (induction j arbitrary: h rule: less_induct)
  case (less j)
  note unfold = heap_up.simps [of lessf swapf h j]
  have j: "j < length (elems h)" using less.prems by simp
  show ?case
  proof (cases "par j = j \<or> le (elems h ! par j) (elems h ! j)")
    case True
    then have "j = 0 \<or> le (elems h ! par j) (elems h ! j)" using par_neq by blast
    then have "heap_upto le (elems h) n"
      using less.prems by (auto simp: up_inv_def heap_upto_def)
    moreover have "heap_up lessf swapf h j = h"
      using True less_elems [of j h "par j"] j par_less [of j]
      by (subst heap_up.simps) (auto simp: Let_def par_def)
    ultimately show ?thesis using less.prems by simp
  next
    case False
    then have jp: "0 < j" by (cases j) (auto simp: par_def)
    let ?h = "swapf (par j) j h"
    have pj: "par j < j" using jp by (rule par_less)
    have eq: "heap_up lessf swapf h j = heap_up lessf swapf ?h (par j)"
      using False less_elems [of j h "par j"] j pj
      by (subst heap_up.simps) (auto simp: Let_def par_def)
    have sw: "elems ?h = list_swap (elems h) (par j) j" using j pj by simp
    have "up_inv le (elems ?h) (par j) n"
      using up_inv_swap less.prems jp False by blast
    then have ih: "heap_upto le (elems (heap_up lessf swapf ?h (par j))) n \<and>
        ok (heap_up lessf swapf ?h (par j)) \<and>
        mset (elems (heap_up lessf swapf ?h (par j))) = mset (elems ?h) \<and>
        (\<forall>k. par j < k \<longrightarrow> elems (heap_up lessf swapf ?h (par j)) ! k = elems ?h ! k)"
      using less.IH [OF pj, of ?h] less.prems j pj sw ok_swap by simp
    moreover have "elems ?h ! k = elems h ! k" if "j < k" for k
      using that pj sw by (simp add: list_swap_def)
    ultimately show ?thesis using eq sw j pj by simp
  qed
qed

lemma down_inv_swap:
  assumes ok: "ok h" and n: "n \<le> length (elems h)" and j: "0 < j" "j < n" "par j = i"
    and inv: "down_inv le (elems h) i n" and lt: "\<not> le (elems h ! i) (elems h ! j)"
    and least: "\<And>k. \<lbrakk>0 < k; k < n; par k = i\<rbrakk> \<Longrightarrow> le (elems h ! j) (elems h ! k)"
  shows "down_inv le (elems (swapf i j h)) j n"
proof -
  let ?xs = "elems h" and ?ys = "list_swap (elems h) i j"
  have i: "i < n" "i < j" using j par_less [of j] by simp_all
  have inC: "\<And>k. k < n \<Longrightarrow> ?xs ! k \<in> C" using ok n nth_C by auto
  have ji: "le (?xs ! j) (?xs ! i)" using lt le_total inC i j by blast
  have inv1: "\<And>k. \<lbrakk>0 < k; k < n; k \<noteq> i; par k \<noteq> i\<rbrakk> \<Longrightarrow> le (?xs ! par k) (?xs ! k)"
    and inv2: "\<And>k. \<lbrakk>0 < k; k < n; par k = i; 0 < i\<rbrakk> \<Longrightarrow> le (?xs ! par i) (?xs ! k)"
    using inv by (auto simp: down_inv_def)
  have ys: "?ys ! i = ?xs ! j" "?ys ! j = ?xs ! i"
    "\<And>k. \<lbrakk>k < n; k \<noteq> i; k \<noteq> j\<rbrakk> \<Longrightarrow> ?ys ! k = ?xs ! k"
    using n i j by (simp_all add: nth_list_swap)
  have pi: "le (?ys ! par i) (?ys ! i)" if "0 < i"
    using inv2 [of j] j that ys par_less [OF that] i by simp
  have c1: "le (?ys ! par k) (?ys ! k)" if k: "0 < k" "k < n" "k \<noteq> j" "par k \<noteq> j" for k
  proof -
    have pk: "par k < n" "par k \<noteq> k" using k par_less [of k] by simp_all
    consider "k = i" | "k \<noteq> i" "par k = i" | "k \<noteq> i" "par k \<noteq> i"
      by blast
    then show ?thesis
    proof cases
      case 1
      then show ?thesis using pi k by simp
    next
      case 2
      then show ?thesis using least [OF k(1,2)] ys k by simp
    next
      case 3
      then show ?thesis using inv1 [OF k(1,2)] ys k pk by simp
    qed
  qed
  have c2: "le (?ys ! i) (?ys ! k)" if k: "0 < k" "k < n" "par k = j" for k
  proof -
    have "k \<noteq> i" "k \<noteq> j" using k i par_less [of k] by auto
    then show ?thesis using inv1 [of k] k i ys by simp
  qed
  show ?thesis
    using c1 c2 n i j by (simp add: down_inv_def)
qed

text \<open>The child that \<open>down\<close> picks is a least one.\<close>

lemma down_child:
  assumes ok: "ok h" and n: "n \<le> length (elems h)" and i: "2 * i + 1 < n"
    and j: "j = (if 2 * i + 2 < n \<and> lessf h (2 * i + 2) (2 * i + 1) then 2 * i + 2 else 2 * i + 1)"
  shows "0 < j \<and> j < n \<and> par j = i \<and> i < j"
    and "\<lbrakk>0 < k; k < n; par k = i\<rbrakk> \<Longrightarrow> le (elems h ! j) (elems h ! k)"
proof -
  show "0 < j \<and> j < n \<and> par j = i \<and> i < j" using i j by (auto simp: par_def)
  assume k: "0 < k" "k < n" "par k = i"
  have inC: "\<And>k. k < n \<Longrightarrow> elems h ! k \<in> C" using ok n nth_C by auto
  have ls: "lessf h (2 * i + 2) (2 * i + 1) = (\<not> le (elems h ! (2 * i + 1)) (elems h ! (2 * i + 2)))"
    if "2 * i + 2 < n"
    using less_elems n i that by simp
  show "le (elems h ! j) (elems h ! k)"
    using child_interval [OF k(2,1,3)] j ls le_refl le_total inC i by (smt (verit))
qed

lemma down_spec:
  assumes "ok h" "n \<le> length (elems h)" "down_inv le (elems h) i n"
    and "heap_down_loop lessf swapf h i n = (h', i')"
  shows "ok h' \<and> mset (elems h') = mset (elems h) \<and> i \<le> i' \<and>
    (\<forall>k. n \<le> k \<longrightarrow> elems h' ! k = elems h ! k) \<and>
    (\<forall>k. 0 < k \<longrightarrow> k < n \<longrightarrow> k \<noteq> i \<or> i < i' \<longrightarrow> le (elems h' ! par k) (elems h' ! k)) \<and>
    (i' = i \<longrightarrow> h' = h) \<and> (\<forall>k < i. elems h' ! k = elems h ! k)"
  using assms
proof (induction "n - i" arbitrary: h i rule: less_induct)
  case less
  note unfold = heap_down_loop.simps [of lessf swapf h i n]
  note inv = \<open>down_inv le (elems h) i n\<close>
  define j where "j = (if 2 * i + 2 < n \<and> lessf h (2 * i + 2) (2 * i + 1) then 2 * i + 2 else 2 * i + 1)"
  show ?case
  proof (cases "n \<le> 2 * i + 1")
    case True
    then have "h' = h" "i' = i" using less.prems(4) unfold by (auto simp: Let_def)
    moreover have "\<And>k. \<lbrakk>0 < k; k < n\<rbrakk> \<Longrightarrow> par k \<noteq> i"
      using True child_interval(1) by fastforce
    ultimately show ?thesis using less.prems inv by (auto simp: down_inv_def)
  next
    case False
    then have i1: "2 * i + 1 < n" by simp
    note child = down_child [OF less.prems(1,2) i1 j_def]
    have ij: "i < length (elems h)" "j < length (elems h)" using child(1) less.prems(2) by auto
    have le: "lessf h j i = (\<not> le (elems h ! i) (elems h ! j))" using less_elems ij by simp
    show ?thesis
    proof (cases "lessf h j i")
      case stop: False
      then have res: "h' = h" "i' = i"
        using less.prems(4) unfold i1 by (auto simp: Let_def j_def split: if_splits)
      have inC: "\<And>k. k < n \<Longrightarrow> elems h ! k \<in> C" using less.prems(1,2) nth_C by auto
      have "le (elems h ! par k) (elems h ! k)" if k: "0 < k" "k < n" "k \<noteq> i" for k
      proof (cases "par k = i")
        case True
        then show ?thesis
          using child k stop le le_trans [of "elems h ! i" "elems h ! j"] inC by (metis less_trans)
      next
        case False
        then show ?thesis using inv k by (simp add: down_inv_def)
      qed
      then show ?thesis using less.prems res by auto
    next
      case go: True
      let ?g = "swapf i j h"
      have rec: "heap_down_loop lessf swapf ?g j n = (h', i')"
        using less.prems(4) unfold go i1 by (auto simp: Let_def j_def split: if_splits)
      have sw: "elems ?g = list_swap (elems h) i j" using ij by simp
      have nlt: "\<not> le (elems h ! i) (elems h ! j)" using go le by simp
      have j: "0 < j" "j < n" "par j = i" using child(1) by blast+
      have inv': "down_inv le (elems ?g) j n"
        by (rule down_inv_swap [OF less.prems(1,2) j inv nlt child(2)])
      have IH: "ok h' \<and> mset (elems h') = mset (elems ?g) \<and> j \<le> i' \<and>
          (\<forall>k. n \<le> k \<longrightarrow> elems h' ! k = elems ?g ! k) \<and>
          (\<forall>k. 0 < k \<longrightarrow> k < n \<longrightarrow> k \<noteq> j \<or> j < i' \<longrightarrow> le (elems h' ! par k) (elems h' ! k)) \<and>
          (i' = j \<longrightarrow> h' = ?g) \<and> (\<forall>k < j. elems h' ! k = elems ?g ! k)"
        by (rule less.hyps [of j ?g]) (use child(1) less.prems(1,2) ij sw inv' rec ok_swap in auto)
      have "le (elems h' ! par k) (elems h' ! k)" if k: "0 < k" "k < n" for k
      proof (cases "k = j \<and> i' = j")
        case True
        then have "elems h' = elems ?g" using IH by simp
        moreover have "le (elems h ! j) (elems h ! i)"
          using nlt le_total nth_C [OF less.prems(1)] ij by blast
        ultimately show ?thesis using True child(1) sw ij by (simp add: nth_list_swap)
      next
        case False
        then show ?thesis using IH k by (metis le_neq_implies_less)
      qed
      moreover have "elems h' ! k = elems h ! k" if "n \<le> k \<or> k < i" for k
      proof -
        have "k \<noteq> i" "k \<noteq> j" "n \<le> k \<or> k < j" using that child(1) by auto
        then have "elems ?g ! k = elems h ! k" by (simp add: sw list_swap_def)
        moreover have "elems h' ! k = elems ?g ! k" using IH \<open>n \<le> k \<or> k < j\<close> by blast
        ultimately show ?thesis by simp
      qed
      moreover have "i < i'" "mset (elems h') = mset (elems h)" "ok h'"
        using IH child(1) sw ij by auto
      ultimately show ?thesis by simp
    qed
  qed
qed

lemma entry_up [simp]: "entry x (heap_up lessf swapf h j) = entry x h"
proof (induction j arbitrary: h rule: less_induct)
  case (less j)
  show ?case
    by (subst heap_up.simps) (auto simp: Let_def intro!: trans [OF less.IH])
qed

lemma entry_down: "heap_down_loop lessf swapf h i n = (h', i') \<Longrightarrow> entry x h' = entry x h"
proof (induction "n - i" arbitrary: h i rule: less_induct)
  case less
  from less.prems show ?case
    by (subst (asm) heap_down_loop.simps)
      (auto simp: Let_def split: if_splits dest!: less.hyps [rotated])
qed

definition is_heap :: "'h \<Rightarrow> bool" where
  "is_heap h = (ok h \<and> heap_upto le (elems h) (length (elems h)))"

lemma is_heap_least:
  assumes "is_heap h" "b \<in> set (elems h)"
  shows "le (elems h ! 0) b"
proof -
  obtain k where k: "k < length (elems h)" "elems h ! k = b"
    using assms(2) by (auto simp: in_set_conv_nth)
  have "le (elems h ! 0) (elems h ! k)"
  proof (rule heap_upto_root [where S = C, OF _ k(1)])
    show "heap_upto le (elems h) (length (elems h))" using assms(1) by (simp add: is_heap_def)
    show "elems h ! i \<in> C" if "i < length (elems h)" for i
      using that assms(1) nth_C by (simp add: is_heap_def)
  qed (fact le_refl, fact le_trans)
  with k show ?thesis by simp
qed

lemma entry_Push [simp]: "entry y (heap_Push len lessf swapf push x h) = entry y h"
  by (simp add: heap_Push_def Let_def)

lemma entry_Pop: "heap_Pop len lessf swapf pop h = (x, h') \<Longrightarrow> entry y h' = entry y h"
  by (auto simp: heap_Pop_def heap_down_def Let_def split: prod.splits
      dest!: entry_pop [where y = y] entry_down [where x = y])

lemma entry_Remove: "heap_Remove len lessf swapf pop i h = (x, h') \<Longrightarrow> entry y h' = entry y h"
  by (auto simp: heap_Remove_def heap_down_def Let_def split: prod.splits if_splits
      dest!: entry_pop [where y = y] entry_down [where x = y])

lemma up_inv_snoc:
  assumes "heap_upto le xs (length xs)"
  shows "up_inv le (xs @ [x]) (length xs) (Suc (length xs))"
proof -
  have "par k < length xs" if "0 < k" "k < Suc (length xs)" for k
    using that par_less [of k] by simp
  moreover have "par k \<noteq> length xs" if "0 < k" "k < Suc (length xs)" for k
    using calculation [OF that] by simp
  ultimately show ?thesis
    using assms by (simp add: up_inv_def heap_upto_def nth_append less_Suc_eq)
qed

lemma Push_spec:
  assumes "is_heap h" "fresh x h"
  shows "is_heap (heap_Push len lessf swapf push x h)"
    and "mset (elems (heap_Push len lessf swapf push x h)) = add_mset (entry x h) (mset (elems h))"
proof -
  let ?g = "push x h"
  have g: "elems ?g = elems h @ [entry x h]" "ok ?g"
    using assms elems_push ok_push by (auto simp: is_heap_def)
  have inv: "up_inv le (elems ?g) (length (elems h)) (Suc (length (elems h)))"
    using up_inv_snoc [of "elems h"] assms(1) g(1) by (simp add: is_heap_def)
  define g' where "g' = heap_up lessf swapf ?g (length (elems h))"
  have up: "heap_upto le (elems g') (Suc (length (elems h)))" "ok g'" "mset (elems g') = mset (elems ?g)"
    using up_spec [OF g(2) _ _ inv] g(1) by (simp_all add: g'_def)
  have push: "heap_Push len lessf swapf push x h = g'"
    using g(1) by (simp add: heap_Push_def g'_def Let_def)
  have "length (elems g') = Suc (length (elems h))"
    using up(3) g(1) by (metis length_append_singleton mset_eq_length)
  then show "is_heap (heap_Push len lessf swapf push x h)"
    using up push by (simp add: is_heap_def)
  show "mset (elems (heap_Push len lessf swapf push x h)) = add_mset (entry x h) (mset (elems h))"
    using up(3) g(1) push by simp
qed

text \<open>Taking the last cell away once the cells before it are in order.\<close>

lemma pop_spec:
  assumes "ok g" "elems g \<noteq> []" "heap_upto le (elems g) (length (elems g) - 1)" "pop g = (x, h')"
  shows "is_heap h'" "mset (elems g) = add_mset (entry x g) (mset (elems h'))"
    "entry x g = last (elems g)"
proof -
  have p: "elems h' = butlast (elems g)" "entry x g = last (elems g)" "ok h'"
    using pop_elems assms by blast+
  have "par k < length (elems g) - 1" if "0 < k" "k < length (elems g) - 1" for k
    using that par_less [of k] by simp
  then show "is_heap h'"
    using assms(3) p by (simp add: is_heap_def heap_upto_def nth_butlast)
  show "mset (elems g) = add_mset (entry x g) (mset (elems h'))"
    using p assms(2) by (metis add_mset_add_single append_butlast_last_id mset.simps mset_append)
  show "entry x g = last (elems g)" by (rule p(2))
qed

lemma down_inv_swap_last:
  assumes h: "is_heap h" and i: "i < length (elems h)"
  shows "down_inv le (list_swap (elems h) i (length (elems h) - 1)) i (length (elems h) - 1)"
proof -
  let ?xs = "elems h" and ?n = "length (elems h) - 1"
  have heap: "\<And>k. \<lbrakk>0 < k; k < length ?xs\<rbrakk> \<Longrightarrow> le (?xs ! par k) (?xs ! k)"
    using h by (simp add: is_heap_def heap_upto_def)
  have ys: "\<And>k. \<lbrakk>k < ?n; k \<noteq> i\<rbrakk> \<Longrightarrow> list_swap ?xs i ?n ! k = ?xs ! k"
    using i by (simp add: nth_list_swap)
  have "le (?xs ! par i) (?xs ! k)" if "0 < k" "k < ?n" "par k = i" "0 < i" for k
    using heap [of k] heap [of i] that i le_trans [of "?xs ! par i" "?xs ! i" "?xs ! k"]
      nth_C [of h] par_less [of i] h by (simp add: is_heap_def)
  moreover have "k \<noteq> i" if "par k = i" "0 < k" for k using that par_neq by blast
  moreover have "list_swap ?xs i ?n ! par i = ?xs ! par i" if "0 < i"
    using ys [of "par i"] par_less [OF that] i by simp
  moreover have "le (list_swap ?xs i ?n ! par k) (list_swap ?xs i ?n ! k)"
    if "0 < k" "k < ?n" "par k \<noteq> i" "k \<noteq> i" for k
    using that heap [of k] ys [of k] ys [of "par k"] par_less [of k] by simp
  ultimately show ?thesis
    using ys by (simp add: down_inv_def)
qed

lemma last_after_swap:
  assumes "i < length (elems h)" "mset (elems g) = mset (elems (swapf i (length (elems h) - 1) h))"
    and "elems g ! (length (elems h) - 1) = elems (swapf i (length (elems h) - 1) h) ! (length (elems h) - 1)"
  shows "length (elems g) = length (elems h)" and "elems g \<noteq> []" and "last (elems g) = elems h ! i"
proof -
  have n: "length (elems h) - 1 < length (elems h)" using assms(1) by simp
  show len: "length (elems g) = length (elems h)"
    using mset_eq_length [OF assms(2)] assms(1) n by simp
  with assms(1) show ne: "elems g \<noteq> []" by auto
  have "last (elems g) = elems g ! (length (elems h) - 1)" using ne len by (simp add: last_conv_nth)
  then show "last (elems g) = elems h ! i"
    using assms n by (simp add: nth_list_swap)
qed

lemma Pop_spec:
  assumes h: "is_heap h" and ne: "elems h \<noteq> []"
    and pop: "heap_Pop len lessf swapf pop h = (x, h')"
  shows "is_heap h'" "entry x h = elems h ! 0"
    "mset (elems h) = add_mset (entry x h) (mset (elems h'))"
proof -
  let ?n = "length (elems h) - 1"
  let ?s = "swapf 0 ?n h"
  obtain g i where g: "heap_down_loop lessf swapf ?s 0 ?n = (g, i)" by fastforce
  have n: "0 < length (elems h)" "?n < length (elems h)" using ne by simp_all
  have s: "elems ?s = list_swap (elems h) 0 ?n" "ok ?s"
    using n h ok_swap by (simp_all add: is_heap_def)
  have "?n \<le> length (elems ?s)" using s by simp
  note down = down_spec [OF s(2) this _ g]
  have d: "ok g" "mset (elems g) = mset (elems ?s)" "elems g ! ?n = elems ?s ! ?n"
    "heap_upto le (elems g) ?n"
    using down down_inv_swap_last [OF h n(1)] s(1) by (simp_all add: heap_upto_def)
  note lst = last_after_swap [OF n(1) d(2,3)]
  have popg: "pop g = (x, h')" using pop g by (simp add: heap_Pop_def heap_down_def Let_def)
  have "heap_upto le (elems g) (length (elems g) - 1)" using d(4) lst(1) by simp
  note r = pop_spec [OF d(1) lst(2) this popg]
  have e: "entry x g = entry x h" using entry_down [OF g] by simp
  show "is_heap h'" by (rule r(1))
  show "entry x h = elems h ! 0" using r(3) e lst(3) by simp
  show "mset (elems h) = add_mset (entry x h) (mset (elems h'))" using r(2) e d(2) s(1) n by simp
qed

lemma Remove_spec:
  assumes h: "is_heap h" and i: "i < length (elems h)"
    and rm: "heap_Remove len lessf swapf pop i h = (x, h')"
  shows "is_heap h'" "entry x h = elems h ! i"
    "mset (elems h) = add_mset (entry x h) (mset (elems h'))"
proof -
  let ?n = "length (elems h) - 1"
  let ?s = "swapf i ?n h"
  have n: "?n < length (elems h)" using i by simp
  have "\<exists>g. ok g \<and> elems g \<noteq> [] \<and> heap_upto le (elems g) (length (elems g) - 1) \<and> pop g = (x, h') \<and>
      last (elems g) = elems h ! i \<and> mset (elems g) = mset (elems h) \<and> entry x g = entry x h"
  proof (cases "?n = i")
    case True
    have "heap_upto le (elems h) ?n" using h by (simp add: is_heap_def heap_upto_def)
    moreover have "pop h = (x, h')" using rm True by (simp add: heap_Remove_def)
    moreover have "elems h \<noteq> []" using i by auto
    ultimately show ?thesis
      using h True by (auto simp: is_heap_def last_conv_nth intro!: exI [of _ h])
  next
    case False
    obtain g i' where g: "heap_down_loop lessf swapf ?s i ?n = (g, i')" by fastforce
    have s: "elems ?s = list_swap (elems h) i ?n" "ok ?s"
      using n i h ok_swap by (simp_all add: is_heap_def)
    have sn: "?n \<le> length (elems ?s)" using s by simp
    have inv: "down_inv le (elems ?s) i ?n" using down_inv_swap_last [OF h i] s(1) by simp
    note down = down_spec [OF s(2) sn inv g]
    define f where "f = (if i < i' then g else heap_up lessf swapf g i)"
    have "ok f \<and> mset (elems f) = mset (elems ?s) \<and> elems f ! ?n = elems ?s ! ?n \<and>
        heap_upto le (elems f) ?n"
    proof (cases "i < i'")
      case True
      then show ?thesis using down by (simp add: f_def heap_upto_def)
    next
      case stay: False
      then have gs: "g = ?s" using down by simp
      have "up_inv le (elems ?s) i ?n"
        using down inv gs unfolding up_inv_def down_inv_def by blast
      moreover have "i < ?n" using i False by simp
      ultimately show ?thesis
        using up_spec [OF s(2) sn, of i] gs stay by (simp add: f_def del: elems_swap)
    qed
    moreover have "pop f = (x, h')"
      using rm False g by (simp add: heap_Remove_def heap_down_def Let_def f_def split: if_splits)
    moreover have "entry x f = entry x h" using entry_down [OF g] by (simp add: f_def)
    ultimately show ?thesis
      using last_after_swap [OF i, of f] s(1) i n by (auto intro!: exI [of _ f])
  qed
  then obtain g where g: "ok g" "elems g \<noteq> []" "heap_upto le (elems g) (length (elems g) - 1)"
    "pop g = (x, h')" "last (elems g) = elems h ! i" "mset (elems g) = mset (elems h)"
    "entry x g = entry x h" by blast
  note r = pop_spec [OF g(1-4)]
  show "is_heap h'" by (rule r(1))
  show "entry x h = elems h ! i" using r(3) g by simp
  show "mset (elems h) = add_mset (entry x h) (mset (elems h'))" using r(2) g by simp
qed

end

end
