(* ===== verification/ItemHeap.thy ===== *)
theory ItemHeap
  imports GoHeap
begin

text \<open>
  \<open>pkg/queue/queue.go\<close>: the items of the queue and \<open>itemHeap\<close>, the slice of item pointers that
  \<open>container/heap\<close> reorders. Items are shared between the slice, the queue's lookup table and
  the metrics, and the heap writes their \<open>index\<close> field, so they live in an explicit memory and
  the slice holds addresses. The interpretation at the end shows that \<open>itemHeap\<close> provides
  what \<open>heap_interface\<close> asks for.
\<close>

section \<open>Priorities\<close>

text \<open>
  A priority is a \<open>float64\<close>. Every finite one is a rational; \<open>NaN\<close> compares false with
  everything, as \<open><\<close> does in Go.
\<close>

datatype float64 = NaN | NegInf | Fin rat | PosInf

fun flt_less :: "float64 \<Rightarrow> float64 \<Rightarrow> bool" where
  "flt_less NaN _ = False"
| "flt_less _ NaN = False"
| "flt_less NegInf q = (q \<noteq> NegInf)"
| "flt_less _ NegInf = False"
| "flt_less (Fin a) (Fin b) = (a < b)"
| "flt_less (Fin _) PosInf = True"
| "flt_less PosInf _ = False"

lemma flt_less_irrefl: "\<not> flt_less p p"
  by (cases p) auto

lemma flt_less_asym: "flt_less p q \<Longrightarrow> \<not> flt_less q p"
  by (induction p q rule: flt_less.induct) auto

lemma flt_le_trans:
  "\<lbrakk>p \<noteq> NaN; q \<noteq> NaN; r \<noteq> NaN; \<not> flt_less q p; \<not> flt_less r q\<rbrakk> \<Longrightarrow> \<not> flt_less r p"
  by (cases p; cases q; cases r) auto

section \<open>Items\<close>

record 'v Item =
  item_value :: 'v
  item_priority :: float64
  item_index :: int

definition Value :: "'v Item \<Rightarrow> 'v" where
  "Value i = item_value i"

definition Priority :: "'v Item \<Rightarrow> float64" where
  "Priority i = item_priority i"

definition Index :: "'v Item \<Rightarrow> int" where
  "Index i = item_index i"

section \<open>The heap of item pointers\<close>

record 'v itemHeap =
  mem :: "addr \<Rightarrow> 'v Item"
  slice :: "addr list"

definition ih_Len :: "'v itemHeap \<Rightarrow> nat" where
  "ih_Len ih = length (slice ih)"

definition ih_Less :: "'v itemHeap \<Rightarrow> nat \<Rightarrow> nat \<Rightarrow> bool" where
  "ih_Less ih i j =
     flt_less (item_priority (mem ih (slice ih ! i))) (item_priority (mem ih (slice ih ! j)))"

definition ih_Swap :: "nat \<Rightarrow> nat \<Rightarrow> 'v itemHeap \<Rightarrow> 'v itemHeap" where
  "ih_Swap i j ih =
     (let s = list_swap (slice ih) i j;
          m = (mem ih)(s ! i := (mem ih (s ! i))\<lparr>item_index := int i\<rparr>)
      in \<lparr>mem = m(s ! j := (m (s ! j))\<lparr>item_index := int j\<rparr>), slice = s\<rparr>)"

definition ih_Push :: "addr \<Rightarrow> 'v itemHeap \<Rightarrow> 'v itemHeap" where
  "ih_Push it ih =
     \<lparr>mem = (mem ih)(it := (mem ih it)\<lparr>item_index := int (length (slice ih))\<rparr>),
      slice = slice ih @ [it]\<rparr>"

definition ih_Pop :: "'v itemHeap \<Rightarrow> addr \<times> 'v itemHeap" where
  "ih_Pop ih = (slice ih ! (length (slice ih) - 1),
     ih\<lparr>slice := take (length (slice ih) - 1) (slice ih)\<rparr>)"

section \<open>itemHeap provides heap.Interface\<close>

type_synonym 'v entry = "addr \<times> 'v \<times> float64"

definition ih_entry :: "addr \<Rightarrow> 'v itemHeap \<Rightarrow> 'v entry" where
  "ih_entry a ih = (a, item_value (mem ih a), item_priority (mem ih a))"

definition ih_elems :: "'v itemHeap \<Rightarrow> 'v entry list" where
  "ih_elems ih = map (\<lambda>a. ih_entry a ih) (slice ih)"

definition ih_le :: "'v entry \<Rightarrow> 'v entry \<Rightarrow> bool" where
  "ih_le e f = (\<not> flt_less (snd (snd f)) (snd (snd e)))"

definition ih_C :: "'v entry set" where
  "ih_C = {e. snd (snd e) \<noteq> NaN}"

definition ih_ok :: "'v itemHeap \<Rightarrow> bool" where
  "ih_ok ih = (distinct (slice ih) \<and>
     (\<forall>i < length (slice ih). item_index (mem ih (slice ih ! i)) = int i) \<and>
     (\<forall>a \<in> set (slice ih). item_priority (mem ih a) \<noteq> NaN))"

definition ih_fresh :: "addr \<Rightarrow> 'v itemHeap \<Rightarrow> bool" where
  "ih_fresh a ih = (a \<notin> set (slice ih) \<and> item_priority (mem ih a) \<noteq> NaN)"

lemma length_ih_elems [simp]: "length (ih_elems ih) = length (slice ih)"
  by (simp add: ih_elems_def)

lemma nth_ih_elems: "i < length (slice ih) \<Longrightarrow> ih_elems ih ! i = ih_entry (slice ih ! i) ih"
  by (simp add: ih_elems_def)

lemma ih_entry_Swap [simp]: "ih_entry a (ih_Swap i j ih) = ih_entry a ih"
  by (simp add: ih_entry_def ih_Swap_def Let_def)

lemma slice_Swap [simp]: "slice (ih_Swap i j ih) = list_swap (slice ih) i j"
  by (simp add: ih_Swap_def Let_def)

lemma ih_elems_Swap:
  "\<lbrakk>i < length (slice ih); j < length (slice ih)\<rbrakk> \<Longrightarrow>
    ih_elems (ih_Swap i j ih) = list_swap (ih_elems ih) i j"
  by (simp add: ih_elems_def list_swap_def map_update)

lemma ih_Swap_index:
  assumes ok: "ih_ok ih" and ij: "i < length (slice ih)" "j < length (slice ih)"
    and k: "k < length (slice ih)"
  shows "item_index (mem (ih_Swap i j ih) (slice (ih_Swap i j ih) ! k)) = int k"
proof -
  let ?s = "list_swap (slice ih) i j"
  have d: "distinct ?s" using ok ij by (simp add: ih_ok_def)
  have eq: "\<And>x. x < length (slice ih) \<Longrightarrow> ?s ! k = ?s ! x \<longleftrightarrow> k = x"
    using nth_eq_iff_index_eq [OF d] k by simp
  have "item_index (mem ih (?s ! k)) = int k" if "k \<noteq> i" "k \<noteq> j"
    using that ok ij k by (simp add: ih_ok_def nth_list_swap)
  then show ?thesis
    using eq [OF ij(1)] eq [OF ij(2)] by (auto simp: ih_Swap_def Let_def)
qed

lemma ih_priority_Swap [simp]:
  "item_priority (mem (ih_Swap i j ih) a) = item_priority (mem ih a)"
  by (simp add: ih_Swap_def Let_def)

lemma ih_Pop_spec:
  assumes ok: "ih_ok h" and ne: "ih_elems h \<noteq> []" and pop: "ih_Pop h = (x, h')"
  shows "ih_elems h' = butlast (ih_elems h) \<and> ih_entry x h = last (ih_elems h) \<and> ih_ok h'"
proof -
  have sl: "slice h \<noteq> []" using ne by (simp add: ih_elems_def)
  have h': "h' = h\<lparr>slice := butlast (slice h)\<rparr>" and x: "x = last (slice h)"
    using pop sl by (simp_all add: ih_Pop_def butlast_conv_take last_conv_nth)
  have "ih_elems h' = butlast (ih_elems h)"
    by (simp add: h' ih_elems_def ih_entry_def map_butlast)
  moreover have "ih_entry x h = last (ih_elems h)"
    using sl by (simp add: x ih_elems_def last_map)
  moreover have "ih_ok h'"
    using ok by (auto simp: h' ih_ok_def nth_butlast distinct_butlast dest: in_set_butlastD)
  ultimately show ?thesis by simp
qed

interpretation ih: heap_interface ih_Len ih_Less ih_Swap ih_Push ih_Pop ih_elems ih_entry
  ih_le ih_C ih_ok ih_fresh
proof
  fix h :: "'v itemHeap" and x h' i j
  show "ih_Len h = length (ih_elems h)" by (simp add: ih_Len_def)
  show "ih_Less h i j = (\<not> ih_le (ih_elems h ! j) (ih_elems h ! i))"
    if "i < length (ih_elems h)" "j < length (ih_elems h)"
    using that by (simp add: ih_Less_def ih_le_def nth_ih_elems ih_entry_def)
  show "ih_elems (ih_Swap i j h) = list_swap (ih_elems h) i j"
    if "i < length (ih_elems h)" "j < length (ih_elems h)"
    using that by (simp add: ih_elems_Swap)
  show "ih_ok (ih_Swap i j h)" if "ih_ok h" "i < length (ih_elems h)" "j < length (ih_elems h)"
    using that ih_Swap_index [OF that(1)] unfolding ih_ok_def by simp
  show "set (ih_elems h) \<subseteq> ih_C" if "ih_ok h"
    using that by (auto simp: ih_ok_def ih_C_def ih_elems_def ih_entry_def)
  show "ih_elems (ih_Push x h) = ih_elems h @ [ih_entry x h]" if "ih_ok h" "ih_fresh x h"
    using that by (auto simp: ih_elems_def ih_Push_def ih_entry_def ih_fresh_def)
  show "ih_ok (ih_Push x h)" if "ih_ok h" "ih_fresh x h"
    using that by (auto simp: ih_ok_def ih_Push_def ih_fresh_def nth_append less_Suc_eq)
  show "ih_elems h' = butlast (ih_elems h) \<and> ih_entry x h = last (ih_elems h) \<and> ih_ok h'"
    if "ih_ok h" "ih_elems h \<noteq> []" "ih_Pop h = (x, h')"
    using ih_Pop_spec that by blast
  show "ih_entry x (ih_Swap i j h) = ih_entry x h" by simp
  show "ih_entry y (ih_Push x h) = ih_entry y h" for y
    by (simp add: ih_Push_def ih_entry_def)
  show "ih_entry y h' = ih_entry y h" if "ih_Pop h = (x, h')" for y
    using that by (auto simp: ih_Pop_def ih_entry_def)
next
  fix a b c :: "'v entry"
  show "ih_le a a" if "a \<in> ih_C" by (simp add: ih_le_def flt_less_irrefl)
  show "ih_le a c" if "a \<in> ih_C" "b \<in> ih_C" "c \<in> ih_C" "ih_le a b" "ih_le b c"
    using that flt_le_trans [of "snd (snd a)" "snd (snd b)" "snd (snd c)"]
    by (simp add: ih_le_def ih_C_def)
  show "ih_le a b \<or> ih_le b a" if "a \<in> ih_C" "b \<in> ih_C"
    using flt_less_asym by (auto simp: ih_le_def)
qed

end
