(* ===== verification/PriorityQueue.thy ===== *)
theory PriorityQueue
  imports ItemHeap
begin

text \<open>
  \<open>pkg/queue/priority_queue.go\<close>: the work queue of the service watcher. Every exported method
  but \<open>Peek\<close> holds the mutex of each field it touches from its first to its last line, so each
  one is a single step on the queue's state. The metrics implementation is an interface value: its three
  callbacks are a record, its own state a field of the queue.
\<close>

section \<open>State\<close>

record ('v, 'm) Metrics =
  metrics_add :: "addr \<Rightarrow> 'v Item \<Rightarrow> int \<Rightarrow> 'm \<Rightarrow> 'm"
  metrics_get :: "addr \<Rightarrow> 'v Item \<Rightarrow> int \<Rightarrow> 'm \<Rightarrow> 'm"
  metrics_forget :: "addr \<Rightarrow> 'v Item \<Rightarrow> 'm \<Rightarrow> 'm"

record ('v, 'm) PriorityQueue =
  failures :: "'v \<rightharpoonup> int"
  items :: "'v itemHeap"
  lookup :: "'v \<rightharpoonup> addr"
  metrics :: 'm
  next_addr :: addr \<comment> \<open>the allocator: the address the next item is created at\<close>

section \<open>Operations\<close>

definition NewPriorityQueueWithMetrics :: "'m \<Rightarrow> ('v, 'm) PriorityQueue" where
  "NewPriorityQueueWithMetrics m =
     \<lparr>failures = Map.empty,
      items = \<lparr>mem = (\<lambda>_. \<lparr>item_value = undefined, item_priority = Fin 0, item_index = 0\<rparr>), slice = []\<rparr>,
      lookup = Map.empty, metrics = m, next_addr = 0\<rparr>"

text \<open>\<open>NoopMetrics\<close>, which the queue of \<open>NewPriorityQueue\<close> has.\<close>

definition no_metrics :: "('v, unit) Metrics" where
  "no_metrics = \<lparr>metrics_add = (\<lambda>_ _ _ m. m), metrics_get = (\<lambda>_ _ _ m. m), metrics_forget = (\<lambda>_ _ m. m)\<rparr>"

definition NewPriorityQueue :: "('v, unit) PriorityQueue" where
  "NewPriorityQueue = NewPriorityQueueWithMetrics ()"

definition Len :: "('v, 'm) PriorityQueue \<Rightarrow> int" where
  "Len p = int (ih_Len (items p))"

definition Add ::
  "('v, 'm) Metrics \<Rightarrow> 'v \<Rightarrow> float64 \<Rightarrow> ('v, 'm) PriorityQueue \<Rightarrow> ('v, 'm) PriorityQueue" where
  "Add M v pri p =
     (case lookup p v of
        Some _ \<Rightarrow> p
      | None \<Rightarrow>
          let item = next_addr p;
              created = (items p)\<lparr>mem := (mem (items p))(item :=
                \<lparr>item_value = v, item_priority = pri, item_index = 0\<rparr>)\<rparr>;
              pushed = heap_Push ih_Len ih_Less ih_Swap ih_Push item created
          in p\<lparr>items := pushed, next_addr := Suc item,
               metrics := metrics_add M item (mem pushed item) (int (ih_Len pushed)) (metrics p),
               lookup := (lookup p)(v \<mapsto> item)\<rparr>)"

definition Get ::
  "('v, 'm) Metrics \<Rightarrow> ('v, 'm) PriorityQueue \<Rightarrow> 'v result \<times> ('v, 'm) PriorityQueue" where
  "Get M p =
     (if slice (items p) = [] then (Inl (New ''empty queue''), p)
      else let (item, popped) = heap_Pop ih_Len ih_Less ih_Swap ih_Pop (items p);
               it = mem popped item
           in (Inr (item_value it),
               p\<lparr>items := popped, lookup := (lookup p)(item_value it := None),
                 metrics := metrics_get M item it (int (ih_Len popped)) (metrics p)\<rparr>))"

definition NumRequeues :: "'v \<Rightarrow> ('v, 'm) PriorityQueue \<Rightarrow> int" where
  "NumRequeues v p = (case failures p v of Some n \<Rightarrow> n | None \<Rightarrow> 0)"

definition Forget ::
  "('v, 'm) Metrics \<Rightarrow> 'v \<Rightarrow> ('v, 'm) PriorityQueue \<Rightarrow> ('v, 'm) PriorityQueue" where
  "Forget M v p =
     (case lookup p v of
        None \<Rightarrow> p
      | Some item \<Rightarrow>
          p\<lparr>metrics := metrics_forget M item (mem (items p) item) (metrics p),
            failures := (failures p)(v := None), lookup := (lookup p)(v := None),
            items := snd (heap_Remove ih_Len ih_Less ih_Swap ih_Pop
                            (nat (item_index (mem (items p) item))) (items p))\<rparr>)"

text \<open>The counter is a 64-bit \<open>int\<close>; it is written as an integer, since only \<open>2 ^ 63\<close> calls
  could make it wrap.\<close>

definition Failed :: "'v \<Rightarrow> ('v, 'm) PriorityQueue \<Rightarrow> ('v, 'm) PriorityQueue" where
  "Failed v p = p\<lparr>failures := (failures p)(v \<mapsto> NumRequeues v p + 1)\<rparr>"

definition Peek :: "'v \<Rightarrow> ('v, 'm) PriorityQueue \<Rightarrow> 'v Item result" where
  "Peek v p =
     (case lookup p v of
        None \<Rightarrow> Inl (New ''item cannot be found in queue'')
      | Some item \<Rightarrow> Inr (mem (items p) item))"

section \<open>The invariant and the abstract queue\<close>

text \<open>
  The heap order, indices that tell each item its place, and a lookup table that holds exactly
  the queued items. Abstractly the queue is a map from values to priorities.
\<close>

definition pq_inv :: "('v, 'm) PriorityQueue \<Rightarrow> bool" where
  "pq_inv p =
     (ih.is_heap (items p) \<and>
      (\<forall>v a. lookup p v = Some a \<longleftrightarrow>
         a \<in> set (slice (items p)) \<and> item_value (mem (items p) a) = v) \<and>
      (\<forall>a \<in> set (slice (items p)). a < next_addr p))"

definition pq_abs :: "('v, 'm) PriorityQueue \<Rightarrow> 'v \<rightharpoonup> float64" where
  "pq_abs p v = map_option (\<lambda>a. item_priority (mem (items p) a)) (lookup p v)"

text \<open>The queued entries as a set, and how the queue's fields follow from it.\<close>

definition entries :: "'v itemHeap \<Rightarrow> 'v entry set" where
  "entries ih = set (ih_elems ih)"

lemma entries_iff:
  "(a, v, q) \<in> entries ih \<longleftrightarrow>
     a \<in> set (slice ih) \<and> item_value (mem ih a) = v \<and> item_priority (mem ih a) = q"
  by (auto simp: entries_def ih_elems_def ih_entry_def)

lemma slice_entries: "a \<in> set (slice ih) \<longleftrightarrow> (\<exists>v q. (a, v, q) \<in> entries ih)"
  by (simp add: entries_iff)

lemma is_heap_distinct: "ih.is_heap ih \<Longrightarrow> distinct (ih_elems ih)"
  by (auto simp: ih.is_heap_def ih_ok_def ih_elems_def ih_entry_def distinct_map inj_on_def)

lemma entries_Push:
  assumes "ih.is_heap ih" "ih_fresh a ih"
  shows "entries (heap_Push ih_Len ih_Less ih_Swap ih_Push a ih) = insert (ih_entry a ih) (entries ih)"
  using arg_cong [OF ih.Push_spec(2) [OF assms], of set_mset] by (simp add: entries_def)

lemma entries_take:
  assumes "ih.is_heap ih" "mset (ih_elems ih) = add_mset e (mset (ih_elems ih'))"
  shows "entries ih' = entries ih - {e}" and "e \<in> entries ih"
proof -
  have "distinct (e # ih_elems ih')"
    using is_heap_distinct [OF assms(1)] assms(2) by (metis mset.simps(2) mset_eq_imp_distinct_iff)
  moreover have "entries ih = insert e (entries ih')"
    using arg_cong [OF assms(2), of set_mset] by (simp add: entries_def)
  ultimately show "entries ih' = entries ih - {e}" "e \<in> entries ih"
    by (auto simp: entries_def)
qed

lemma pq_inv_entries:
  "pq_inv p \<longleftrightarrow> ih.is_heap (items p) \<and>
     (\<forall>v a. lookup p v = Some a \<longleftrightarrow> (\<exists>q. (a, v, q) \<in> entries (items p))) \<and>
     (\<forall>a v q. (a, v, q) \<in> entries (items p) \<longrightarrow> a < next_addr p)"
  unfolding pq_inv_def by (auto simp: entries_iff)

lemma pq_invD:
  assumes "pq_inv p"
  shows "lookup p w = Some b \<longleftrightarrow> (\<exists>r. (b, w, r) \<in> entries (items p))"
    and "(b, w, r) \<in> entries (items p) \<Longrightarrow> b < next_addr p"
    and "ih.is_heap (items p)"
  using assms unfolding pq_inv_entries by blast+

lemma pq_abs_entries:
  "pq_inv p \<Longrightarrow> pq_abs p v = Some q \<longleftrightarrow> (\<exists>a. (a, v, q) \<in> entries (items p))"
  unfolding pq_inv_def by (auto simp: pq_abs_def entries_iff)

lemma entries_unique:
  "\<lbrakk>pq_inv p; (a, v, q) \<in> entries (items p); (b, v, r) \<in> entries (items p)\<rbrakk> \<Longrightarrow> a = b \<and> q = r"
  unfolding pq_inv_def by (auto simp: entries_iff) (metis option.inject)+

text \<open>Two queues with the same entries are the same abstractly.\<close>

lemma pq_abs_eqI:
  assumes "pq_inv p" "\<And>v q. (\<exists>a. (a, v, q) \<in> entries (items p)) \<longleftrightarrow> m v = Some q"
  shows "pq_abs p = m"
proof
  fix v
  show "pq_abs p v = m v"
    using pq_abs_entries [OF assms(1), of v] assms(2) [of v] by (metis not_None_eq)
qed

text \<open>Taking one entry away, as \<open>Get\<close> and \<open>Forget\<close> do.\<close>

lemma pq_inv_remove:
  assumes inv: "pq_inv p" and e: "(a, v, q) \<in> entries (items p)"
    and p': "entries (items p') = entries (items p) - {(a, v, q)}"
      "lookup p' = (lookup p)(v := None)" "ih.is_heap (items p')" "next_addr p' = next_addr p"
  shows "pq_inv p'" and "pq_abs p' = (pq_abs p)(v := None)"
proof -
  have one: "\<And>b r. (b, v, r) \<in> entries (items p) \<Longrightarrow> b = a \<and> r = q"
    using entries_unique [OF inv _ e] by blast
  show inv': "pq_inv p'"
    unfolding pq_inv_entries p'(1,2,4) using p'(3) pq_invD(1,2) [OF inv] one by auto
  show "pq_abs p' = (pq_abs p)(v := None)"
    by (rule pq_abs_eqI [OF inv']) (use p'(1) one pq_abs_entries [OF inv] in auto)
qed

section \<open>Every operation keeps the invariant and refines the map\<close>

lemma New_inv: "pq_inv (NewPriorityQueueWithMetrics m)"
  by (simp add: NewPriorityQueueWithMetrics_def pq_inv_def ih.is_heap_def ih_ok_def heap_upto_def
      ih_elems_def)

lemma New_abs: "pq_abs (NewPriorityQueueWithMetrics m) = Map.empty"
  by (auto simp: NewPriorityQueueWithMetrics_def pq_abs_def)

text \<open>What \<open>Add\<close> does when the value is not queued yet.\<close>

lemma Add_fresh:
  assumes inv: "pq_inv p" and new: "lookup p v = None" and pri: "pri \<noteq> NaN"
  shows "pq_inv (Add M v pri p)"
    and "entries (items (Add M v pri p)) = insert (next_addr p, v, pri) (entries (items p))"
proof -
  let ?a = "next_addr p"
  let ?c = "(items p)\<lparr>mem := (mem (items p))(?a :=
    \<lparr>item_value = v, item_priority = pri, item_index = 0\<rparr>)\<rparr>"
  have fresh: "?a \<notin> set (slice (items p))" using inv by (auto simp: pq_inv_def)
  have el: "ih_elems ?c = ih_elems (items p)"
    using fresh by (auto simp: ih_elems_def ih_entry_def)
  have "slice (items p) ! i \<noteq> ?a" if "i < length (slice (items p))" for i
    using fresh that by (metis nth_mem)
  then have c: "ih.is_heap ?c"
    using inv fresh el by (auto simp: pq_inv_def ih.is_heap_def ih_ok_def)
  have fr: "ih_fresh ?a ?c" using fresh pri by (simp add: ih_fresh_def)
  have it: "items (Add M v pri p) = heap_Push ih_Len ih_Less ih_Swap ih_Push ?a ?c"
    using new by (simp add: Add_def Let_def)
  show ent: "entries (items (Add M v pri p)) = insert (?a, v, pri) (entries (items p))"
    using entries_Push [OF c fr] it el by (simp add: entries_def ih_entry_def)
  have hp: "ih.is_heap (items (Add M v pri p))" using ih.Push_spec(1) [OF c fr] it by simp
  have lk: "lookup (Add M v pri p) = (lookup p)(v \<mapsto> ?a)" "next_addr (Add M v pri p) = Suc ?a"
    using new by (simp_all add: Add_def Let_def)
  note old = pq_invD(1,2) [OF inv]
  show "pq_inv (Add M v pri p)"
    unfolding pq_inv_entries lk ent
  proof (intro conjI allI impI)
    fix w b q
    have no: "(b, v, q) \<notin> entries (items p)" for b q using old(1) [of v b] new by auto
    show "(((lookup p)(v \<mapsto> ?a)) w = Some b) =
      (\<exists>q. (b, w, q) \<in> insert (?a, v, pri) (entries (items p)))"
      using old(1) [of w b] no by auto
    show "b < Suc ?a" if "(b, w, q) \<in> insert (?a, v, pri) (entries (items p))"
      using that old(2) [of b w q] by auto
  qed (rule hp)
qed

lemma Add_dup: "lookup p v = Some a \<Longrightarrow> Add M v pri p = p"
  by (simp add: Add_def)

lemma Add_inv: "\<lbrakk>pq_inv p; pri \<noteq> NaN\<rbrakk> \<Longrightarrow> pq_inv (Add M v pri p)"
  by (cases "lookup p v") (auto simp: Add_fresh Add_dup)

lemma Add_abs:
  assumes "pq_inv p" "pri \<noteq> NaN"
  shows "pq_abs (Add M v pri p) =
    (if v \<in> dom (pq_abs p) then pq_abs p else (pq_abs p)(v \<mapsto> pri))"
proof (cases "lookup p v")
  case (Some a)
  then show ?thesis by (auto simp: Add_dup pq_abs_def)
next
  case None
  have "pq_abs (Add M v pri p) = (pq_abs p)(v \<mapsto> pri)"
  proof (rule pq_abs_eqI [OF Add_inv [OF assms]])
    fix w q
    have "pq_abs p v = None" using None by (simp add: pq_abs_def)
    then have "\<And>a r. (a, v, r) \<notin> entries (items p)" using pq_abs_entries [OF assms(1), of v] by auto
    then show "(\<exists>a. (a, w, q) \<in> entries (items (Add M v pri p))) \<longleftrightarrow> ((pq_abs p)(v \<mapsto> pri)) w = Some q"
      using pq_abs_entries [OF assms(1)] Add_fresh(2) [OF assms(1) None assms(2)] by auto
  qed
  with None show ?thesis by (auto simp: pq_abs_def)
qed

text \<open>\<open>Get\<close> on a queue that is not empty takes an entry with a least priority away.\<close>

lemma Get_some:
  assumes inv: "pq_inv p" and ne: "slice (items p) \<noteq> []"
  obtains a v q where "fst (Get M p) = Inr v" "(a, v, q) \<in> entries (items p)"
    "entries (items (snd (Get M p))) = entries (items p) - {(a, v, q)}"
    "lookup (snd (Get M p)) = (lookup p)(v := None)" "ih.is_heap (items (snd (Get M p)))"
    "next_addr (snd (Get M p)) = next_addr p" "failures (snd (Get M p)) = failures p"
    "\<And>b w r. (b, w, r) \<in> entries (items p) \<Longrightarrow> \<not> flt_less r q"
proof -
  obtain a h where pop: "heap_Pop ih_Len ih_Less ih_Swap ih_Pop (items p) = (a, h)" by fastforce
  have hp: "ih.is_heap (items p)" using inv by (simp add: pq_inv_def)
  have el: "ih_elems (items p) \<noteq> []" using ne by (simp add: ih_elems_def)
  note spec = ih.Pop_spec [OF hp el pop]
  obtain v q where e: "ih_entry a (items p) = (a, v, q)" by (simp add: ih_entry_def)
  have eh: "ih_entry a h = (a, v, q)" using ih.entry_Pop [OF pop] e by simp
  have v: "item_value (mem h a) = v" using eh by (simp add: ih_entry_def)
  note take = entries_take [OF hp spec(3)]
  have least: "\<not> flt_less r q" if "(b, w, r) \<in> entries (items p)" for b w r
    using ih.is_heap_least [OF hp, of "(b, w, r)"] that spec(2) e
    by (metis entries_def ih_le_def snd_conv)
  show ?thesis
    by (rule that [of v a q])
      (use pop ne v take spec(1) e least in \<open>simp_all add: Get_def Let_def\<close>)
qed

lemma Get_inv:
  assumes inv: "pq_inv p" shows "pq_inv (snd (Get M p))"
proof (cases "slice (items p) = []")
  case True
  then show ?thesis using inv by (simp add: Get_def)
next
  case False
  show ?thesis
    by (rule Get_some [OF inv False, of M]) (rule pq_inv_remove(1) [OF inv])
qed

lemma Get_abs:
  assumes inv: "pq_inv p" and get: "Get M p = (Inr v, p')"
  shows "v \<in> dom (pq_abs p)" and "pq_abs p' = (pq_abs p)(v := None)"
    and "pq_abs p w = Some r \<Longrightarrow> \<not> flt_less r (the (pq_abs p v))"
    and "failures p' = failures p"
proof -
  have ne: "slice (items p) \<noteq> []" using get by (auto simp: Get_def)
  have r: "fst (Get M p) = Inr v" "snd (Get M p) = p'" using get by simp_all
  obtain a q where g: "(a, v, q) \<in> entries (items p)"
    "entries (items p') = entries (items p) - {(a, v, q)}"
    "lookup p' = (lookup p)(v := None)" "ih.is_heap (items p')" "next_addr p' = next_addr p"
    "\<And>b w r. (b, w, r) \<in> entries (items p) \<Longrightarrow> \<not> flt_less r q" "failures p' = failures p"
    by (rule Get_some [OF inv ne, of M]) (use r in force)
  have pv: "pq_abs p v = Some q" using pq_abs_entries [OF inv] g(1) by blast
  then show "v \<in> dom (pq_abs p)" by blast
  show "pq_abs p' = (pq_abs p)(v := None)" by (rule pq_inv_remove(2) [OF inv g(1-5)])
  show "\<not> flt_less r (the (pq_abs p v))" if "pq_abs p w = Some r"
    using that pv g(6) pq_abs_entries [OF inv, of w r] by auto
  show "failures p' = failures p" by (rule g(7))
qed

lemma Get_error: "fst (Get M p) = Inl e \<longleftrightarrow> slice (items p) = [] \<and> e = New ''empty queue''"
  by (auto simp: Get_def Let_def split: prod.splits)

text \<open>The index that \<open>Forget\<close> reads from the item is the item's place in the slice.\<close>

lemma Forget_some:
  assumes inv: "pq_inv p" and lk: "lookup p v = Some a"
  obtains q where "(a, v, q) \<in> entries (items p)"
    "entries (items (Forget M v p)) = entries (items p) - {(a, v, q)}"
    "ih.is_heap (items (Forget M v p))"
proof -
  have a: "a \<in> set (slice (items p))" "item_value (mem (items p) a) = v"
    using inv lk by (auto simp: pq_inv_def)
  then obtain i where i: "i < length (slice (items p))" "slice (items p) ! i = a"
    by (auto simp: in_set_conv_nth)
  have hp: "ih.is_heap (items p)" using inv by (simp add: pq_inv_def)
  have idx: "nat (item_index (mem (items p) a)) = i"
    using hp i by (auto simp: ih.is_heap_def ih_ok_def)
  obtain x h where rm: "heap_Remove ih_Len ih_Less ih_Swap ih_Pop i (items p) = (x, h)" by fastforce
  have "i < length (ih_elems (items p))" using i by simp
  note spec = ih.Remove_spec [OF hp this rm]
  have e: "ih_entry x (items p) = (a, v, item_priority (mem (items p) a))"
    using spec(2) i a nth_ih_elems [of i "items p"] by (simp add: ih_entry_def)
  have "items (Forget M v p) = h" using lk idx rm by (simp add: Forget_def)
  then show ?thesis
    using that [of "item_priority (mem (items p) a)"] entries_take [OF hp spec(3)] spec(1) e by simp
qed

lemma Forget_inv_abs:
  assumes inv: "pq_inv p"
  shows "pq_inv (Forget M v p)" and "pq_abs (Forget M v p) = (pq_abs p)(v := None)"
proof -
  have "pq_inv (Forget M v p) \<and> pq_abs (Forget M v p) = (pq_abs p)(v := None)"
  proof (cases "lookup p v")
    case None
    then show ?thesis using inv by (auto simp: Forget_def pq_abs_def)
  next
    case (Some a)
    have "lookup (Forget M v p) = (lookup p)(v := None)" "next_addr (Forget M v p) = next_addr p"
      using Some by (simp_all add: Forget_def)
    note remove = pq_inv_remove [OF inv _ _ this(1) _ this(2)]
    show ?thesis
      by (rule Forget_some [OF inv Some, of M]) (intro conjI; rule remove; assumption)
  qed
  then show "pq_inv (Forget M v p)" "pq_abs (Forget M v p) = (pq_abs p)(v := None)" by simp_all
qed

lemma Forget_failures:
  "failures (Forget M v p) = (if lookup p v = None then failures p else (failures p)(v := None))"
  by (auto simp: Forget_def split: option.split)

lemma Failed_inv_abs [simp]:
  "pq_inv (Failed v p) = pq_inv p" "pq_abs (Failed v p) = pq_abs p"
  by (auto simp: Failed_def pq_inv_def pq_abs_def)

lemma dom_pq_abs: "dom (pq_abs p) = dom (lookup p)"
  by (auto simp: pq_abs_def)

lemma Len_abs:
  assumes inv: "pq_inv p"
  shows "finite (dom (pq_abs p))" and "Len p = int (card (dom (pq_abs p)))"
proof -
  have inj: "inj_on (\<lambda>e. fst (snd e)) (entries (items p))"
  proof (rule inj_onI)
    fix e f assume "e \<in> entries (items p)" "f \<in> entries (items p)" "fst (snd e) = fst (snd f)"
    then show "e = f"
      using entries_unique [OF inv] by (cases e; cases f) auto
  qed
  have "v \<in> dom (pq_abs p) \<longleftrightarrow> (\<exists>a q. (a, v, q) \<in> entries (items p))" for v
    using pq_abs_entries [OF inv, of v] unfolding dom_def by blast
  then have "dom (pq_abs p) = (\<lambda>e. fst (snd e)) ` entries (items p)"
    by (intro set_eqI) (simp add: image_iff Bex_def del: domIff)
  moreover have "card (entries (items p)) = length (slice (items p))"
    using distinct_card [OF is_heap_distinct [OF pq_invD(3) [OF inv]]] by (simp add: entries_def)
  ultimately show "finite (dom (pq_abs p))" "Len p = int (card (dom (pq_abs p)))"
    using inj by (simp_all add: Len_def card_image entries_def)
qed

section \<open>queue.Interface\<close>

text \<open>
  What the controllers rely on when they hold a \<open>queue.Interface\<close>: a queue is a finite map from
  values to priorities and a table of failure counts. A client that keeps calling \<open>Get\<close> is
  served every value once, in priority order, and then the error.
\<close>

fun drain :: "('q \<Rightarrow> 'v result \<times> 'q) \<Rightarrow> nat \<Rightarrow> 'q \<Rightarrow> 'v list \<times> 'q" where
  "drain get 0 q = ([], q)"
| "drain get (Suc n) q =
     (case get q of
        (Inl _, q') \<Rightarrow> ([], q')
      | (Inr v, q') \<Rightarrow> (let (vs, r) = drain get n q' in (v # vs, r)))"

locale work_queue =
  fixes add :: "'v \<Rightarrow> float64 \<Rightarrow> 'q \<Rightarrow> 'q"
    and get :: "'q \<Rightarrow> 'v result \<times> 'q"
    and forget :: "'v \<Rightarrow> 'q \<Rightarrow> 'q"
    and failed :: "'v \<Rightarrow> 'q \<Rightarrow> 'q"
    and requeues :: "'v \<Rightarrow> 'q \<Rightarrow> int"
    and size_of :: "'q \<Rightarrow> int"
    and inv :: "'q \<Rightarrow> bool"
    and abs :: "'q \<Rightarrow> 'v \<rightharpoonup> float64"
  assumes add_inv: "\<lbrakk>inv q; pri \<noteq> NaN\<rbrakk> \<Longrightarrow> inv (add v pri q)"
    and add_abs: "\<lbrakk>inv q; pri \<noteq> NaN\<rbrakk> \<Longrightarrow>
      abs (add v pri q) = (if v \<in> dom (abs q) then abs q else (abs q)(v \<mapsto> pri))"
    and get_inv: "inv q \<Longrightarrow> inv (snd (get q))"
    and get_ok: "\<lbrakk>inv q; get q = (Inr v, q')\<rbrakk> \<Longrightarrow> v \<in> dom (abs q) \<and> abs q' = (abs q)(v := None) \<and>
      (\<forall>w r. abs q w = Some r \<longrightarrow> \<not> flt_less r (the (abs q v)))"
    and get_err: "\<lbrakk>inv q; get q = (Inl e, q')\<rbrakk> \<Longrightarrow> abs q = Map.empty \<and> q' = q"
    and forget_inv: "inv q \<Longrightarrow> inv (forget v q)"
    and forget_abs: "inv q \<Longrightarrow> abs (forget v q) = (abs q)(v := None)"
    and failed_inv: "inv q \<Longrightarrow> inv (failed v q)"
    and failed_abs: "inv q \<Longrightarrow> abs (failed v q) = abs q"
    and failed_requeues: "requeues w (failed v q) = requeues w q + (if w = v then 1 else 0)"
    and size_abs: "inv q \<Longrightarrow> finite (dom (abs q)) \<and> size_of q = int (card (dom (abs q)))"
begin

lemma drain_spec:
  assumes "inv q" "card (dom (abs q)) = n" "drain get n q = (vs, q')"
  shows "distinct vs \<and> set vs = dom (abs q) \<and> abs q' = Map.empty \<and> inv q' \<and>
    sorted_wrt (\<lambda>v w. \<not> flt_less (the (abs q w)) (the (abs q v))) vs"
  using assms
proof (induction n arbitrary: q vs)
  case 0
  then have "dom (abs q) = {}" using size_abs by (metis card_0_eq)
  with 0 show ?case by auto
next
  case (Suc n)
  obtain r q1 where g: "get q = (r, q1)" by fastforce
  have ne: "abs q \<noteq> Map.empty" using Suc.prems(2) by auto
  obtain v where r: "r = Inr v"
    using get_err [OF Suc.prems(1)] g ne by (cases r) auto
  note got = get_ok [OF Suc.prems(1), of v q1]
  have q1: "abs q1 = (abs q)(v := None)" "v \<in> dom (abs q)" "inv q1"
    using got g r get_inv [OF Suc.prems(1)] by auto
  obtain ws where ws: "drain get n q1 = (ws, q')" and vs: "vs = v # ws"
    using Suc.prems(3) g r by (auto split: prod.splits)
  have dom: "dom (abs q1) = dom (abs q) - {v}" using q1(1) by auto
  have "card (dom (abs q1)) = n"
    using dom q1(2) Suc.prems(2) size_abs [OF Suc.prems(1)] by simp
  then have ih: "distinct ws \<and> set ws = dom (abs q1) \<and> abs q' = Map.empty \<and> inv q' \<and>
      sorted_wrt (\<lambda>v w. \<not> flt_less (the (abs q1 w)) (the (abs q1 v))) ws"
    using Suc.IH [OF q1(3) _ ws] by simp
  have "sorted_wrt (\<lambda>v w. \<not> flt_less (the (abs q w)) (the (abs q v))) ws"
    by (rule sorted_wrt_mono_rel [where P = "\<lambda>v w. \<not> flt_less (the (abs q1 w)) (the (abs q1 v))"])
      (use ih dom q1(1) in auto)
  moreover have "\<not> flt_less (the (abs q w)) (the (abs q v))" if "w \<in> set ws" for w
    using got g r that ih dom by auto
  ultimately show ?case using ih dom vs q1(2) by auto
qed

lemma add_get_same:
  assumes "inv q" "abs q = Map.empty" "pri \<noteq> NaN"
  shows "fst (get (add v pri q)) = Inr v"
proof -
  have a: "inv (add v pri q)" "abs (add v pri q) = [v \<mapsto> pri]"
    using add_inv add_abs assms by auto
  obtain r q' where g: "get (add v pri q) = (r, q')" by fastforce
  show ?thesis
    using get_err [OF a(1)] get_ok [OF a(1)] g a(2) by (cases r) auto
qed

end

text \<open>The priority queue provides it, whatever the metrics implementation.\<close>

interpretation pq: work_queue "Add M" "Get M" "Forget M" Failed NumRequeues Len pq_inv pq_abs
  for M :: "('v, 'm) Metrics"
proof
  fix q q' :: "('v, 'm) PriorityQueue" and v w pri e
  show "pq_inv (Add M v pri q)" if "pq_inv q" "pri \<noteq> NaN" using that by (rule Add_inv)
  show "pq_abs (Add M v pri q) = (if v \<in> dom (pq_abs q) then pq_abs q else (pq_abs q)(v \<mapsto> pri))"
    if "pq_inv q" "pri \<noteq> NaN" using that by (rule Add_abs)
  show "pq_inv (snd (Get M q))" if "pq_inv q" using that by (rule Get_inv)
  show "v \<in> dom (pq_abs q) \<and> pq_abs q' = (pq_abs q)(v := None) \<and>
      (\<forall>w r. pq_abs q w = Some r \<longrightarrow> \<not> flt_less r (the (pq_abs q v)))"
    if "pq_inv q" "Get M q = (Inr v, q')" using Get_abs [OF that] by blast
  show "pq_abs q = Map.empty \<and> q' = q" if "pq_inv q" "Get M q = (Inl e, q')"
    using that Get_error [of M q e] Len_abs(2) [of q] Len_abs(1) [of q]
    by (auto simp: Len_def ih_Len_def Get_def)
  show "pq_inv (Forget M v q)" "pq_abs (Forget M v q) = (pq_abs q)(v := None)" if "pq_inv q"
    using Forget_inv_abs [OF that] by simp_all
  show "pq_inv (Failed v q)" "pq_abs (Failed v q) = pq_abs q" if "pq_inv q" using that by simp_all
  show "NumRequeues w (Failed v q) = NumRequeues w q + (if w = v then 1 else 0)"
    by (simp add: NumRequeues_def Failed_def)
  show "finite (dom (pq_abs q)) \<and> Len q = int (card (dom (pq_abs q)))" if "pq_inv q"
    using Len_abs [OF that] by simp
qed

section \<open>Histories\<close>

text \<open>
  Any sequence of calls, against the queue and against its specification: a map from values to
  priorities with a table of failures, where \<open>Get\<close> may return any value of least priority. The
  failure count of a value is cleared only when the value is queued at the moment it is forgotten.
\<close>

datatype 'v call = CAdd 'v float64 | CGet | CForget 'v | CFailed 'v

type_synonym 'v spec = "('v \<rightharpoonup> float64) \<times> ('v \<rightharpoonup> int)"

fun pq_call :: "('v, 'm) Metrics \<Rightarrow> 'v call \<Rightarrow> ('v, 'm) PriorityQueue \<Rightarrow>
    'v result option \<times> ('v, 'm) PriorityQueue" where
  "pq_call M (CAdd v pri) p = (None, Add M v pri p)"
| "pq_call M CGet p = (let (r, p') = Get M p in (Some r, p'))"
| "pq_call M (CForget v) p = (None, Forget M v p)"
| "pq_call M (CFailed v) p = (None, Failed v p)"

fun pq_calls :: "('v, 'm) Metrics \<Rightarrow> 'v call list \<Rightarrow> ('v, 'm) PriorityQueue \<Rightarrow>
    'v result option list \<times> ('v, 'm) PriorityQueue" where
  "pq_calls M [] p = ([], p)"
| "pq_calls M (c # cs) p =
     (let (r, p') = pq_call M c p; (rs, p'') = pq_calls M cs p' in (r # rs, p''))"

inductive spec_call :: "'v call \<Rightarrow> 'v spec \<Rightarrow> 'v result option \<Rightarrow> 'v spec \<Rightarrow> bool" where
  add_new: "v \<notin> dom m \<Longrightarrow> spec_call (CAdd v pri) (m, f) None (m(v \<mapsto> pri), f)"
| add_queued: "v \<in> dom m \<Longrightarrow> spec_call (CAdd v pri) (m, f) None (m, f)"
| get_least: "\<lbrakk>m v = Some q; \<And>w r. m w = Some r \<Longrightarrow> \<not> flt_less r q\<rbrakk> \<Longrightarrow>
    spec_call CGet (m, f) (Some (Inr v)) (m(v := None), f)"
| get_empty: "spec_call CGet (Map.empty, f) (Some (Inl (New ''empty queue''))) (Map.empty, f)"
| forget_queued: "v \<in> dom m \<Longrightarrow> spec_call (CForget v) (m, f) None (m(v := None), f(v := None))"
| forget_other: "v \<notin> dom m \<Longrightarrow> spec_call (CForget v) (m, f) None (m, f)"
| failed: "spec_call (CFailed v) (m, f) None
    (m, f(v \<mapsto> (case f v of Some n \<Rightarrow> n | None \<Rightarrow> 0) + 1))"

inductive spec_calls :: "'v call list \<Rightarrow> 'v spec \<Rightarrow> 'v result option list \<Rightarrow> 'v spec \<Rightarrow> bool" where
  none: "spec_calls [] s [] s"
| step: "\<lbrakk>spec_call c s r s'; spec_calls cs s' rs s''\<rbrakk> \<Longrightarrow> spec_calls (c # cs) s (r # rs) s''"

definition pq_spec :: "('v, 'm) PriorityQueue \<Rightarrow> 'v spec" where
  "pq_spec p = (pq_abs p, failures p)"

fun call_ok :: "'v call \<Rightarrow> bool" where
  "call_ok (CAdd v pri) = (pri \<noteq> NaN)"
| "call_ok _ = True"

lemma Add_failures [simp]: "failures (Add M v pri p) = failures p"
  by (simp add: Add_def Let_def split: option.split)

lemma pq_call_inv: "\<lbrakk>pq_inv p; call_ok c\<rbrakk> \<Longrightarrow> pq_inv (snd (pq_call M c p))"
  using Get_inv [of p M] by (cases c) (auto simp: Add_inv Forget_inv_abs split: prod.splits)

lemma pq_call_spec:
  assumes inv: "pq_inv p" and c: "call_ok c" and run: "pq_call M c p = (r, p')"
  shows "spec_call c (pq_spec p) r (pq_spec p')"
proof (cases c)
  case (CAdd v pri)
  then have "pq_spec p' = (if v \<in> dom (pq_abs p) then pq_abs p else (pq_abs p)(v \<mapsto> pri), failures p)"
    using run c Add_abs [OF inv, of pri M v] by (auto simp: pq_spec_def)
  then show ?thesis
    using CAdd run by (auto simp: pq_spec_def intro: add_new add_queued)
next
  case CGet
  obtain g where g: "Get M p = (g, p')" "r = Some g" using run CGet by (auto split: prod.splits)
  show ?thesis
  proof (cases g)
    case (Inl e)
    have "pq_abs p = Map.empty" "p' = p" "e = New ''empty queue''"
      using pq.get_err [OF inv, of M e p'] g Inl Get_error [of M p e] by auto
    then show ?thesis using CGet g Inl by (simp add: pq_spec_def get_empty)
  next
    case (Inr v)
    note got = Get_abs [OF inv g(1) [unfolded Inr]]
    then obtain q where "pq_abs p v = Some q" by blast
    then show ?thesis
      using CGet g Inr got get_least [of "pq_abs p" v q "failures p"] by (simp add: pq_spec_def)
  qed
next
  case (CForget v)
  have *: "pq_abs p' = (pq_abs p)(v := None)"
    "failures p' = (if v \<in> dom (pq_abs p) then (failures p)(v := None) else failures p)"
    using run CForget Forget_inv_abs(2) [OF inv] Forget_failures [of M v p] dom_pq_abs [of p] by auto
  have "v \<notin> dom (pq_abs p) \<Longrightarrow> (pq_abs p)(v := None) = pq_abs p" by (auto simp: domIff fun_upd_idem)
  then show ?thesis
    using run CForget * by (auto simp: pq_spec_def intro: forget_queued forget_other)
next
  case (CFailed v)
  then show ?thesis
    using run failed [of v "pq_abs p" "failures p"] Failed_inv_abs(2) [of v p]
    by (auto simp: pq_spec_def Failed_def NumRequeues_def)
qed

lemma pq_calls_spec:
  "\<lbrakk>pq_inv p; list_all call_ok cs; pq_calls M cs p = (rs, p')\<rbrakk> \<Longrightarrow>
     spec_calls cs (pq_spec p) rs (pq_spec p') \<and> pq_inv p'"
proof (induction cs arbitrary: p rs)
  case Nil
  then show ?case by (auto intro: spec_calls.none)
next
  case (Cons c cs)
  obtain r p1 ss where c: "pq_call M c p = (r, p1)" and cs: "pq_calls M cs p1 = (ss, p')" and rs: "rs = r # ss"
    using Cons.prems(3) by (auto split: prod.splits)
  have "pq_inv p1" using pq_call_inv [OF Cons.prems(1), of c M] Cons.prems(2) c by simp
  then show ?case
    using Cons.IH [OF _ _ cs] pq_call_spec [OF Cons.prems(1) _ c] Cons.prems(2) rs
    by (auto intro: spec_calls.step)
qed

section \<open>Properties\<close>

text \<open>C1: every history of calls on a new queue, with priorities that are not NaN, returns what the
  specification allows for that history, and leaves the heap order, the item indices and the
  lookup table consistent.\<close>

theorem PriorityQueue_refines:
  fixes M :: "('v, 'm) Metrics"
  assumes "list_all call_ok cs"
  shows "case pq_calls M cs (NewPriorityQueueWithMetrics m) of
    (rs, p) \<Rightarrow> spec_calls cs (Map.empty, Map.empty) rs (pq_spec p) \<and> pq_inv p"
proof -
  have "pq_spec (NewPriorityQueueWithMetrics m :: ('v, 'm) PriorityQueue) = (Map.empty, Map.empty)"
    by (simp add: pq_spec_def New_abs) (simp add: NewPriorityQueueWithMetrics_def)
  then show ?thesis
    using pq_calls_spec [OF New_inv [of m] assms, where M = M] by (simp split: prod.split)
qed

text \<open>Two values come out in priority order, and then the queue is empty.\<close>

theorem PriorityQueue_refines_witness:
  "case pq_calls no_metrics [CAdd (1::int) (Fin 9), CAdd 2 (Fin 4), CGet, CGet, CGet]
          (NewPriorityQueueWithMetrics ()) of
    (rs, p) \<Rightarrow> rs = [None, None, Some (Inr 2), Some (Inr 1), Some (Inl (New ''empty queue''))] \<and>
      spec_calls [CAdd (1::int) (Fin 9), CAdd 2 (Fin 4), CGet, CGet, CGet] (Map.empty, Map.empty)
        rs (pq_spec p) \<and> pq_inv p"
proof -
  let ?cs = "[CAdd (1::int) (Fin 9), CAdd 2 (Fin 4), CGet, CGet, CGet]"
  have "fst (pq_calls no_metrics ?cs (NewPriorityQueueWithMetrics ())) =
      [None, None, Some (Inr 2), Some (Inr 1), Some (Inl (New ''empty queue''))]"
    by code_simp
  moreover have "list_all call_ok ?cs" by simp
  ultimately show ?thesis
    using PriorityQueue_refines [of ?cs no_metrics "()"]
    by (simp add: case_prod_beta del: pq_calls.simps)
qed

text \<open>C22: a client that calls \<open>Get\<close> as often as \<open>Len\<close> says gets every queued value exactly once,
  smallest priority number first, and leaves the queue empty.\<close>

theorem drain_PriorityQueue:
  assumes "pq_inv p" "drain (Get M) (nat (Len p)) p = (vs, p')"
  shows "distinct vs \<and> set vs = dom (pq_abs p) \<and> Len p' = 0 \<and>
    sorted_wrt (\<lambda>v w. \<not> flt_less (the (pq_abs p w)) (the (pq_abs p v))) vs"
proof -
  have "card (dom (pq_abs p)) = nat (Len p)" using Len_abs [OF assms(1)] by simp
  from pq.drain_spec [OF assms(1) this assms(2)] show ?thesis
    using Len_abs(2) [of p'] by auto
qed

theorem drain_PriorityQueue_witness:
  "\<exists>vs p'. drain (Get no_metrics) (nat (Len (Add no_metrics (7::int) (Fin 2) (NewPriorityQueueWithMetrics ()))))
       (Add no_metrics (7::int) (Fin 2) (NewPriorityQueueWithMetrics ())) = (vs, p') \<and> set vs = {7}"
proof -
  let ?p = "Add no_metrics (7::int) (Fin 2) (NewPriorityQueueWithMetrics ())"
  have inv: "pq_inv ?p" by (rule Add_inv [OF New_inv]) simp
  have abs: "pq_abs ?p = [7 \<mapsto> Fin 2]" by (subst Add_abs [OF New_inv]) (simp_all add: New_abs)
  obtain vs p' where d: "drain (Get no_metrics) (nat (Len ?p)) ?p = (vs, p')" by fastforce
  then show ?thesis using drain_PriorityQueue [OF inv d] abs by (intro exI [of _ vs] exI [of _ p']) simp
qed

text \<open>\<open>Get\<close> has already taken the value out of the lookup table, so a \<open>Forget\<close> of the value
  that follows does nothing: neither the failure count nor the metrics change.\<close>

lemma Forget_after_Get:
  "\<lbrakk>pq_inv p; Get M p = (Inr v, p')\<rbrakk> \<Longrightarrow> Forget M v p' = p'"
  using Get_abs(2) [of p M v p'] dom_pq_abs [of p'] by (auto simp: Forget_def split: option.split)

lemma Forget_after_Get_witness:
  "\<exists>p'. Get no_metrics (Add no_metrics (7::int) (Fin 2) (NewPriorityQueueWithMetrics ())) = (Inr 7, p') \<and>
     Forget no_metrics 7 p' = p'"
proof -
  let ?p = "Add no_metrics (7::int) (Fin 2) (NewPriorityQueueWithMetrics ())"
  have inv: "pq_inv ?p" by (rule Add_inv [OF New_inv]) simp
  have "fst (Get no_metrics ?p) = Inr 7"
    by (rule pq.add_get_same [OF New_inv New_abs]) simp
  then show ?thesis
    using Forget_after_Get [OF inv, of no_metrics 7 "snd (Get no_metrics ?p)"] by (metis prod.collapse)
qed

end
