(* ===== verification/GoStd.thy ===== *)
theory GoStd
  imports Prelude "HOL-Library.Char_ord" "HOL-Library.List_Lexorder" "HOL-Library.Sublist"
begin

text \<open>
  The parts of Go's standard library that the exporter's own code computes with: integers in
  decimal and hexadecimal (\<open>strconv\<close>, \<open>fmt\<close>), \<open>strconv.ParseBool\<close>, \<open>strings.TrimSpace\<close>,
  \<open>strings.HasPrefix\<close> and \<open>unicode.IsDigit\<close> on bytes. A Go string is a sequence of bytes, so
  it is a \<open>string\<close> here, byte for byte.
\<close>

abbreviation ord :: "char \<Rightarrow> nat" where
  "ord c \<equiv> of_char c"

section \<open>Decimal and hexadecimal\<close>

definition is_digit :: "char \<Rightarrow> bool" where
  "is_digit c = (48 \<le> ord c \<and> ord c \<le> 57)"

definition digit_val :: "char \<Rightarrow> nat" where
  "digit_val c = ord c - 48"

definition digit_char :: "nat \<Rightarrow> char" where
  "digit_char d = char_of (48 + d)"

lemma digit_char [simp]: "d < 10 \<Longrightarrow> is_digit (digit_char d)" "d < 10 \<Longrightarrow> digit_val (digit_char d) = d"
  by (simp_all add: is_digit_def digit_val_def digit_char_def)

fun show_nat :: "nat \<Rightarrow> string" where
  "show_nat n = (if n < 10 then [digit_char n] else show_nat (n div 10) @ [digit_char (n mod 10)])"

declare show_nat.simps [simp del]

definition Itoa :: "int \<Rightarrow> string" where
  "Itoa i = (if i < 0 then CHR ''-'' # show_nat (nat (- i)) else show_nat (nat i))"

definition hex_char :: "nat \<Rightarrow> char" where
  "hex_char d = (if d < 10 then char_of (48 + d) else char_of (87 + d))"

fun FormatUint16 :: "nat \<Rightarrow> string" where
  "FormatUint16 n = (if n < 16 then [hex_char n] else FormatUint16 (n div 16) @ [hex_char (n mod 16)])"

declare FormatUint16.simps [simp del]

section \<open>strconv.ParseInt with base 10, and strconv.ParseBool\<close>

definition errSyntax :: "string \<Rightarrow> go_error" where
  "errSyntax fn = Wrap (New ''invalid syntax'') fn"

definition errRange :: "string \<Rightarrow> go_error" where
  "errRange fn = Wrap (New ''value out of range'') fn"

text \<open>The loop of \<open>ParseUint\<close>, up to the largest value of the given width.\<close>

fun parse_uint_loop :: "nat \<Rightarrow> nat \<Rightarrow> string \<Rightarrow> nat result" where
  "parse_uint_loop maxVal n [] = Inr n"
| "parse_uint_loop maxVal n (c # cs) =
     (if \<not> is_digit c then Inl (errSyntax ''ParseInt'')
      else if maxVal < 10 * n + digit_val c then Inl (errRange ''ParseInt'')
      else parse_uint_loop maxVal (10 * n + digit_val c) cs)"

definition parse_uint :: "nat \<Rightarrow> string \<Rightarrow> nat result" where
  "parse_uint bits s = (if s = [] then Inl (errSyntax ''ParseInt'') else parse_uint_loop (2 ^ bits - 1) 0 s)"

definition ParseInt :: "nat \<Rightarrow> string \<Rightarrow> int result" where
  "ParseInt bits s =
     (if s = [] then Inl (errSyntax ''ParseInt'')
      else let neg = (hd s = CHR ''-'');
               digits = (if hd s = CHR ''+'' \<or> neg then tl s else s)
           in case parse_uint bits digits of
                Inl e \<Rightarrow> Inl e
              | Inr un \<Rightarrow>
                  if \<not> neg \<and> 2 ^ (bits - 1) \<le> un \<or> neg \<and> 2 ^ (bits - 1) < un
                  then Inl (errRange ''ParseInt'')
                  else Inr (if neg then - int un else int un))"

definition ParseBool :: "string \<Rightarrow> bool result" where
  "ParseBool s =
     (if s \<in> set [''1'', ''t'', ''T'', ''true'', ''TRUE'', ''True''] then Inr True
      else if s \<in> set [''0'', ''f'', ''F'', ''false'', ''FALSE'', ''False''] then Inr False
      else Inl (errSyntax ''ParseBool''))"

section \<open>strings\<close>

text \<open>
  The UTF-8 encodings of the runes that \<open>unicode.IsSpace\<close> accepts. Decoding a rune at the start
  or the end of a string yields one of them exactly when the string starts or ends with its
  encoding.
\<close>

definition space_encodings :: "string list" where
  "space_encodings =
     map (\<lambda>n. [char_of n]) [9, 10, 11, 12, 13, 32 :: nat] @
     map (map char_of) ([[0xC2, 0x85], [0xC2, 0xA0], [0xE1, 0x9A, 0x80]] @
       map (\<lambda>b. [0xE2, 0x80, b]) [0x80 ..< 0x8B] @
       [[0xE2, 0x80, 0xA8], [0xE2, 0x80, 0xA9], [0xE2, 0x80, 0xAF], [0xE2, 0x81, 0x9F],
        [0xE3, 0x80, 0x80 :: nat]])"

lemma space_encodings_nonempty: "e \<in> set space_encodings \<Longrightarrow> e \<noteq> []"
  by (auto simp: space_encodings_def)

definition leading_space :: "string \<Rightarrow> string option" where
  "leading_space s = List.find (\<lambda>e. prefix e s) space_encodings"

definition trailing_space :: "string \<Rightarrow> string option" where
  "trailing_space s = List.find (\<lambda>e. suffix e s) space_encodings"

lemma leading_space_nonempty: "leading_space s = Some e \<Longrightarrow> e \<noteq> [] \<and> prefix e s"
  using space_encodings_nonempty by (auto simp: leading_space_def find_Some_iff)

lemma trailing_space_nonempty: "trailing_space s = Some e \<Longrightarrow> e \<noteq> [] \<and> suffix e s"
  using space_encodings_nonempty by (auto simp: trailing_space_def find_Some_iff)

function TrimLeftSpace :: "string \<Rightarrow> string" where
  "TrimLeftSpace s = (case leading_space s of None \<Rightarrow> s | Some e \<Rightarrow> TrimLeftSpace (drop (length e) s))"
  by pat_completeness auto
termination
  by (relation "measure length") (auto dest!: leading_space_nonempty simp: prefix_def)

function TrimRightSpace :: "string \<Rightarrow> string" where
  "TrimRightSpace s =
     (case trailing_space s of None \<Rightarrow> s | Some e \<Rightarrow> TrimRightSpace (take (length s - length e) s))"
  by pat_completeness auto
termination
  by (relation "measure length") (auto dest!: trailing_space_nonempty simp: suffix_def)

declare TrimLeftSpace.simps [simp del] TrimRightSpace.simps [simp del]

definition TrimSpace :: "string \<Rightarrow> string" where
  "TrimSpace s = TrimRightSpace (TrimLeftSpace s)"

section \<open>Reading back what was printed\<close>

lemma show_nat_digits: "show_nat n \<noteq> [] \<and> (\<forall>c \<in> set (show_nat n). is_digit c)"
proof (induction n rule: show_nat.induct)
  case (1 n)
  then show ?case by (subst (1 2) show_nat.simps) auto
qed

lemma parse_uint_loop_append:
  "parse_uint_loop m n (xs @ ys) =
     (case parse_uint_loop m n xs of Inl e \<Rightarrow> Inl e | Inr k \<Rightarrow> parse_uint_loop m k ys)"
  by (induction xs arbitrary: n) auto

lemma parse_show_nat: "n \<le> m \<Longrightarrow> parse_uint_loop m 0 (show_nat n) = Inr n"
proof (induction n rule: show_nat.induct)
  case (1 n)
  show ?case
  proof (cases "n < 10")
    case True
    with "1.prems" show ?thesis by (subst show_nat.simps) simp
  next
    case False
    with 1 have "parse_uint_loop m 0 (show_nat (n div 10)) = Inr (n div 10)" by simp
    moreover have "10 * (n div 10) + n mod 10 = n" by simp
    ultimately show ?thesis
      using False "1.prems" by (subst show_nat.simps) (simp add: parse_uint_loop_append)
  qed
qed

lemma show_nat_hd:
  "is_digit (hd (show_nat n))" "hd (show_nat n) \<noteq> CHR ''-''" "hd (show_nat n) \<noteq> CHR ''+''"
proof -
  show d: "is_digit (hd (show_nat n))"
    using show_nat_digits [of n] by (cases "show_nat n") auto
  have "\<not> is_digit CHR ''-''" "\<not> is_digit CHR ''+''" by (simp_all add: is_digit_def)
  with d show "hd (show_nat n) \<noteq> CHR ''-''" "hd (show_nat n) \<noteq> CHR ''+''" by metis+
qed

lemma ParseInt_Itoa_width:
  assumes bits: "0 < bits" and i: "- (2 ^ (bits - 1)) \<le> i" "i < 2 ^ (bits - 1)"
  shows "ParseInt bits (Itoa i) = Inr i"
proof -
  define n where "n = nat \<bar>i\<bar>"
  have pow: "(2::nat) ^ bits = 2 * 2 ^ (bits - 1)" using bits by (cases bits) simp_all
  have "int n \<le> 2 ^ (bits - 1)" using i by (simp add: n_def)
  then have n: "n \<le> 2 ^ (bits - 1)" by (metis of_nat_le_iff of_nat_numeral of_nat_power)
  then have "n \<le> 2 ^ bits - 1"
    using pow one_le_power [of "2::nat" "bits - 1"] by linarith
  then have "parse_uint bits (show_nat n) = Inr n"
    using show_nat_digits by (simp add: parse_uint_def parse_show_nat)
  moreover have "hd (show_nat n) \<noteq> CHR ''-''" "hd (show_nat n) \<noteq> CHR ''+''" "show_nat n \<noteq> []"
    using show_nat_hd [of n] show_nat_digits [of n] by simp_all
  moreover have "n < 2 ^ (bits - 1)" if "0 \<le> i"
    using i that by (simp add: n_def nat_less_iff)
  ultimately show ?thesis
    using n by (auto simp: ParseInt_def Itoa_def n_def Let_def not_less)
qed

lemma ParseInt_bounds:
  assumes "ParseInt bits s = Inr i"
  shows "- (2 ^ (bits - 1)) \<le> i \<and> i < 2 ^ (bits - 1)"
proof -
  obtain un where un: "if hd s = CHR ''-'' then i = - int un \<and> un \<le> 2 ^ (bits - 1)
      else i = int un \<and> un < 2 ^ (bits - 1)"
    using assms by (auto simp: ParseInt_def Let_def not_le not_less split: if_splits sum.splits)
  have "int un \<le> 2 ^ (bits - 1)" if "un \<le> 2 ^ (bits - 1)"
    using that by (metis of_nat_le_iff of_nat_numeral of_nat_power)
  moreover have "int un < 2 ^ (bits - 1)" if "un < 2 ^ (bits - 1)"
    using that by (metis of_nat_less_iff of_nat_numeral of_nat_power)
  moreover have "(0::int) < 2 ^ (bits - 1)" by simp
  ultimately show ?thesis
    using un by (smt (verit) of_nat_0_le_iff)
qed

lemma show_nat_lead: "0 < n \<Longrightarrow> hd (show_nat n) \<noteq> CHR ''0''"
proof (induction n rule: show_nat.induct)
  case (1 n)
  show ?case
  proof (cases "n < 10")
    case True
    have "digit_val (digit_char n) = n" using True by simp
    moreover have "digit_val CHR ''0'' = 0" by (simp add: digit_val_def)
    ultimately show ?thesis using True 1(2) by (metis less_irrefl list.sel(1) show_nat.simps)
  next
    case False
    then have "hd (show_nat (n div 10)) \<noteq> CHR ''0''" using 1 by simp
    then show ?thesis using False show_nat_digits [of "n div 10"] by (simp add: show_nat.simps [of n])
  qed
qed

end
