(* ===== verification/GoTime.thy ===== *)
theory GoTime
  imports GoStd
begin

text \<open>
  \<open>time.Parse(time.RFC3339, _)\<close>: an instant as nanoseconds since the Unix epoch. Like the
  library, the parser accepts a one-digit hour, a fraction after a dot or a comma (digits beyond
  the ninth are dropped) and zone offsets up to 24 hours and 60 minutes.
\<close>

fun all_digits_val :: "nat \<Rightarrow> string \<Rightarrow> nat option" where
  "all_digits_val n [] = Some n"
| "all_digits_val n (c # cs) = (if is_digit c then all_digits_val (10 * n + digit_val c) cs else None)"

text \<open>Exactly \<open>k\<close> digits.\<close>

definition getnum :: "nat \<Rightarrow> string \<Rightarrow> (nat \<times> string) option" where
  "getnum k s =
     (if length s < k then None
      else map_option (\<lambda>n. (n, drop k s)) (all_digits_val 0 (take k s)))"

text \<open>The hour is read as one or two digits.\<close>

definition gethour :: "string \<Rightarrow> (nat \<times> string) option" where
  "gethour s =
     (case s of
        c # d # r \<Rightarrow> if is_digit c \<and> is_digit d then Some (10 * digit_val c + digit_val d, r)
                      else if is_digit c then Some (digit_val c, d # r) else None
      | [c] \<Rightarrow> if is_digit c then Some (digit_val c, []) else None
      | [] \<Rightarrow> None)"

definition expect :: "char \<Rightarrow> string \<Rightarrow> string option" where
  "expect c s = (case s of d # r \<Rightarrow> if c = d then Some r else None | [] \<Rightarrow> None)"

definition leap :: "nat \<Rightarrow> bool" where
  "leap y = (y mod 4 = 0 \<and> (y mod 100 \<noteq> 0 \<or> y mod 400 = 0))"

definition daysIn :: "nat \<Rightarrow> nat \<Rightarrow> nat" where
  "daysIn m y = (if m = 2 then if leap y then 29 else 28
                 else if m \<in> {4, 6, 9, 11} then 30 else 31)"

text \<open>Days from the first day of year 0 to a date, and from there to the epoch.\<close>

definition days_before_year :: "nat \<Rightarrow> int" where
  "days_before_year y =
     (if y = 0 then 0
      else let p = int y - 1 in 366 + 365 * p + p div 4 - p div 100 + p div 400)"

definition unix_days :: "nat \<Rightarrow> nat \<Rightarrow> nat \<Rightarrow> int" where
  "unix_days y m d =
     days_before_year y + int (sum_list (map (\<lambda>k. daysIn k y) [1 ..< m])) + int d - 1 - 719528"

definition fraction :: "string \<Rightarrow> nat \<times> string" where
  "fraction s =
     (case s of
        c # d # _ \<Rightarrow>
          if c \<in> {CHR ''.'', CHR '',''} \<and> is_digit d
          then let ds = take 9 (takeWhile is_digit (tl s))
               in (the (all_digits_val 0 ds) * 10 ^ (9 - length ds), dropWhile is_digit (tl s))
          else (0, s)
      | _ \<Rightarrow> (0, s))"

text \<open>The offset of the zone in seconds; nothing may follow it.\<close>

definition zone :: "string \<Rightarrow> int option" where
  "zone s =
     (if s = ''Z'' then Some 0
      else if length s = 6 \<and> hd s \<in> {CHR ''+'', CHR ''-''} \<and> s ! 3 = CHR '':'' then
        (case (all_digits_val 0 (take 2 (drop 1 s)), all_digits_val 0 (take 2 (drop 4 s))) of
           (Some h, Some m) \<Rightarrow>
             if 24 < h \<or> 60 < m then None
             else Some ((if hd s = CHR ''-'' then -1 else 1) * int (3600 * h + 60 * m))
         | _ \<Rightarrow> None)
      else None)"

definition ParseRFC3339 :: "string \<Rightarrow> int option" where
  "ParseRFC3339 s =
     Option.bind (getnum 4 s) (\<lambda>(y, s). Option.bind (expect (CHR ''-'') s) (\<lambda>s.
     Option.bind (getnum 2 s) (\<lambda>(mo, s). Option.bind (expect (CHR ''-'') s) (\<lambda>s.
     Option.bind (getnum 2 s) (\<lambda>(d, s). Option.bind (expect (CHR ''T'') s) (\<lambda>s.
     Option.bind (gethour s) (\<lambda>(h, s). Option.bind (expect (CHR '':'') s) (\<lambda>s.
     Option.bind (getnum 2 s) (\<lambda>(mi, s). Option.bind (expect (CHR '':'') s) (\<lambda>s.
     Option.bind (getnum 2 s) (\<lambda>(sec, s).
       let (ns, s) = fraction s in
       Option.bind (zone s) (\<lambda>off.
         if mo < 1 \<or> 12 < mo \<or> d < 1 \<or> daysIn mo y < d \<or> 24 \<le> h \<or> 60 \<le> mi \<or> 60 \<le> sec then None
         else Some (((unix_days y mo d * 86400 + int (3600 * h + 60 * mi + sec)) - off) * 1000000000
                    + int ns)))))))))))))"

text \<open>\<open>Time.Sub\<close> saturates at the largest \<open>time.Duration\<close> (a 64-bit integer).\<close>

definition Sub :: "int \<Rightarrow> int \<Rightarrow> int" where
  "Sub t u = max (- (2 ^ 63)) (min (2 ^ 63 - 1) (t - u))"

lemma Sub_pos: "u < t \<Longrightarrow> 0 < Sub t u"
  by (simp add: Sub_def)

end
