(* ===== verification/Stats.thy ===== *)
theory Stats
  imports Prelude GoStd GoTime
begin

text \<open>
  \<open>pkg/stats/stats.go\<close>: the package-level statsd client. The metrics the process sends are a list
  in the order they are sent; the client's own buffering and its network errors are not part of
  the model, since every caller drops them. \<open>time.Now\<close> reads one instant after the other from an
  arbitrary series, so that a clock that stands still or runs backwards is not excluded.
\<close>

datatype metric =
    Incr string "string list"
  | Gauge string int "string list"
  | Timing string int "string list"
  | Distribution string int "string list"

record env =
  emitted :: "metric list"
  clock :: "nat \<Rightarrow> int"
  reads :: nat

definition emit :: "metric \<Rightarrow> 'x env_scheme \<Rightarrow> 'x env_scheme" where
  "emit m e = e\<lparr>emitted := emitted e @ [m]\<rparr>"

definition time_Now :: "'x env_scheme \<Rightarrow> int \<times> 'x env_scheme" where
  "time_Now e = (clock e (reads e), e\<lparr>reads := Suc (reads e)\<rparr>)"

definition time_Since :: "int \<Rightarrow> 'x env_scheme \<Rightarrow> int \<times> 'x env_scheme" where
  "time_Since start e = (let (now, e) = time_Now e in (Sub now start, e))"

section \<open>Operations\<close>

text \<open>
  \<open>Configure\<close> gets the tags as the entries of a map, in the order the iteration yields them.
  \<open>make([]string, len(tags))\<close> has already that many empty strings when the loop appends to it.
  \<open>statsd.New\<close> is an argument.
\<close>

fun tags_loop :: "(string \<times> string) list \<Rightarrow> string list \<Rightarrow> string list" where
  "tags_loop [] tagsarray = tagsarray"
| "tags_loop ((k, v) # tags) tagsarray = tags_loop tags (tagsarray @ [k @ '':'' @ v])"

definition Configure ::
  "(string \<Rightarrow> string \<Rightarrow> string list \<Rightarrow> 'c result) \<Rightarrow> string \<Rightarrow> string \<Rightarrow> int \<Rightarrow> (string \<times> string) list \<Rightarrow>
   'c result" where
  "Configure statsd_New namespace host port tags =
     (let tagsarray = tags_loop tags (replicate (length tags) []) in
      case statsd_New (host @ '':'' @ Itoa port) namespace tagsarray of
        Inl err \<Rightarrow> Inl (Wrap err ''Error configuring statsd client'')
      | Inr client \<Rightarrow> Inr client)"

definition WithTiming ::
  "string \<Rightarrow> string list \<Rightarrow> ('x env_scheme \<Rightarrow> 'a \<times> 'x env_scheme) \<Rightarrow> 'x env_scheme \<Rightarrow>
   ('a \<times> int) \<times> 'x env_scheme" where
  "WithTiming name tags f e =
     (let (start, e) = time_Now e;
          (r, e) = f e;
          (took, e) = time_Since start e
      in ((r, took), emit (Timing name took tags) e))"

text \<open>Division of durations truncates towards zero.\<close>

definition millis :: "int \<Rightarrow> int" where
  "millis d = (if d < 0 then - ((- d) div 1000000) else d div 1000000)"

definition DistributionMs :: "string \<Rightarrow> string list \<Rightarrow> int \<Rightarrow> 'x env_scheme \<Rightarrow> 'x env_scheme" where
  "DistributionMs name tags d e = emit (Distribution name (millis d) tags) e"

definition IncrSuccessOrFail :: "go_error option \<Rightarrow> string \<Rightarrow> string list \<Rightarrow> 'x env_scheme \<Rightarrow> 'x env_scheme" where
  "IncrSuccessOrFail err pre tags e =
     (let key = (if err = None then pre @ ''.success'' else pre @ ''.fail'')
      in emit (Incr key tags) e)"

section \<open>Lemmas\<close>

named_theorems env_simps \<open>what the operations leave of the environment\<close>

lemma emit_simps [env_simps, simp]:
  "emitted (emit m e) = emitted e @ [m]" "clock (emit m e) = clock e" "reads (emit m e) = reads e"
  by (simp_all add: emit_def)

lemma more_emit [env_simps, simp]: "env.more (emit m e) = env.more e"
  by (simp add: emit_def)

lemma tags_loop_append: "tags_loop tags acc = acc @ map (\<lambda>(k, v). k @ '':'' @ v) tags"
  by (induction tags acc rule: tags_loop.induct) auto

text \<open>The report of a duration is off by less than one millisecond, towards zero.\<close>

lemma millis_bounds:
  "\<bar>millis d\<bar> * 1000000 \<le> \<bar>d\<bar>" "\<bar>d\<bar> < (\<bar>millis d\<bar> + 1) * 1000000"
  by (auto simp: millis_def)

section \<open>Properties\<close>

text \<open>The client is created with every configured tag once, and with as many empty tags in front
  of them.\<close>

lemma Configure_tags:
  "Configure (\<lambda>a n ts. Inr (a, n, ts)) namespace host port tags =
     Inr (host @ '':'' @ Itoa port, namespace,
          replicate (length tags) [] @ map (\<lambda>(k, v). k @ '':'' @ v) tags)"
  by (simp add: Configure_def tags_loop_append)

end
