(* ===== verification/QueueMetrics.thy ===== *)
theory QueueMetrics
  imports PriorityQueue Stats
begin

text \<open>
  \<open>pkg/queue/metrics.go\<close>: the metrics of the priority queue. An item is known by its pointer, so
  the two tables of times are keyed by addresses. The text of a priority, \<open>fmt.Sprintf("\%g")\<close>,
  is an argument.
\<close>

record StatsdQueueMetrics = env +
  addTimes :: "addr \<rightharpoonup> int"
  processingStartTimes :: "addr \<rightharpoonup> int"
  sqm_prefix :: string

definition NewStatsdQueueMetrics :: "string \<Rightarrow> (nat \<Rightarrow> int) \<Rightarrow> StatsdQueueMetrics" where
  "NewStatsdQueueMetrics pre clk =
     \<lparr>emitted = [], clock = clk, reads = 0, addTimes = Map.empty, processingStartTimes = Map.empty,
      sqm_prefix = pre\<rparr>"

definition metricWithPrefix :: "string \<Rightarrow> string \<Rightarrow> string" where
  "metricWithPrefix pre metric = (if pre = [] then metric else pre @ ''.'' @ metric)"

definition priorityTag :: "(float64 \<Rightarrow> string) \<Rightarrow> 'v Item \<Rightarrow> string list" where
  "priorityTag fmt_g item = [''priority:'' @ fmt_g (Priority item)]"

definition sqm_add ::
  "(float64 \<Rightarrow> string) \<Rightarrow> addr \<Rightarrow> 'v Item \<Rightarrow> int \<Rightarrow> StatsdQueueMetrics \<Rightarrow> StatsdQueueMetrics" where
  "sqm_add fmt_g item it queueLength m =
     (let tag = priorityTag fmt_g it;
          m = emit (Incr (metricWithPrefix (sqm_prefix m) ''queue.adds'') tag) m;
          m = emit (Gauge (metricWithPrefix (sqm_prefix m) ''queue.length'') queueLength tag) m
      in if addTimes m item \<noteq> None then m
         else let (now, m) = time_Now m in m\<lparr>addTimes := (addTimes m)(item \<mapsto> now)\<rparr>)"

definition sqm_get ::
  "(float64 \<Rightarrow> string) \<Rightarrow> addr \<Rightarrow> 'v Item \<Rightarrow> int \<Rightarrow> StatsdQueueMetrics \<Rightarrow> StatsdQueueMetrics" where
  "sqm_get fmt_g item it queueLength m =
     (let tag = priorityTag fmt_g it;
          m = emit (Gauge (metricWithPrefix (sqm_prefix m) ''queue.length'') queueLength tag) m;
          (now, m) = time_Now m;
          m = m\<lparr>processingStartTimes := (processingStartTimes m)(item \<mapsto> now)\<rparr>
      in case addTimes m item of
           None \<Rightarrow> m
         | Some startTime \<Rightarrow>
             let (took, m) = time_Since startTime m;
                 m = DistributionMs (metricWithPrefix (sqm_prefix m) ''queue.wait'') tag took m
             in m\<lparr>addTimes := (addTimes m)(item := None)\<rparr>)"

definition sqm_forget ::
  "(float64 \<Rightarrow> string) \<Rightarrow> addr \<Rightarrow> 'v Item \<Rightarrow> StatsdQueueMetrics \<Rightarrow> StatsdQueueMetrics" where
  "sqm_forget fmt_g item it m =
     (case processingStartTimes m item of
        None \<Rightarrow> m
      | Some startTime \<Rightarrow>
          let (took, m) = time_Since startTime m;
              m = DistributionMs (metricWithPrefix (sqm_prefix m) ''queue.duration'') (priorityTag fmt_g it) took m
          in m\<lparr>processingStartTimes := (processingStartTimes m)(item := None)\<rparr>)"

definition statsd_metrics :: "(float64 \<Rightarrow> string) \<Rightarrow> ('v, StatsdQueueMetrics) Metrics" where
  "statsd_metrics fmt_g = \<lparr>metrics_add = sqm_add fmt_g, metrics_get = sqm_get fmt_g, metrics_forget = sqm_forget fmt_g\<rparr>"

section \<open>How the queue and its metrics evolve together\<close>

text \<open>The addresses of the queued items after each operation, and the callback it makes.\<close>

lemma slice_take:
  assumes inv: "pq_inv p" and e: "(a, v, q) \<in> entries (items p)"
    and h: "entries h = entries (items p) - {(a, v, q)}"
  shows "set (slice h) = set (slice (items p)) - {a}"
proof -
  have "b \<in> set (slice h) \<longleftrightarrow> b \<in> set (slice (items p)) - {a}" for b
    unfolding Diff_iff slice_entries [of b h] slice_entries [of b "items p"] h
    using e by (auto simp: entries_iff)
  then show ?thesis by blast
qed

lemma Add_metrics:
  assumes "lookup p v = None"
  shows "\<exists>it n. metrics (Add M v pri p) = metrics_add M (next_addr p) it n (metrics p)"
  using assms by (auto simp: Add_def Let_def)

lemma Add_slice:
  assumes "pq_inv p" "lookup p v = None" "pri \<noteq> NaN"
  shows "set (slice (items (Add M v pri p))) = insert (next_addr p) (set (slice (items p)))"
  using Add_fresh(2) [OF assms, of M] by (auto simp: slice_entries set_eq_iff)

lemma Get_metrics:
  assumes inv: "pq_inv p" and ne: "slice (items p) \<noteq> []"
  shows "\<exists>a it n. a \<in> set (slice (items p)) \<and> set (slice (items (snd (Get M p)))) = set (slice (items p)) - {a} \<and>
    metrics (snd (Get M p)) = metrics_get M a it n (metrics p) \<and> next_addr (snd (Get M p)) = next_addr p"
proof -
  obtain a h where pop: "heap_Pop ih_Len ih_Less ih_Swap ih_Pop (items p) = (a, h)" by fastforce
  have hp: "ih.is_heap (items p)" using inv by (simp add: pq_inv_def)
  have "ih_elems (items p) \<noteq> []" using ne by (simp add: ih_elems_def)
  note spec = ih.Pop_spec [OF hp this pop]
  obtain v q where e: "ih_entry a (items p) = (a, v, q)" by (simp add: ih_entry_def)
  note take = entries_take [OF hp spec(3)]
  have "set (slice h) = set (slice (items p)) - {a}" "a \<in> set (slice (items p))"
    using slice_take [OF inv] take e by (auto simp: slice_entries [of a "items p"])
  then show ?thesis using pop ne by (auto simp: Get_def Let_def)
qed

lemma Forget_metrics:
  assumes inv: "pq_inv p" and lk: "lookup p v = Some a"
  shows "a \<in> set (slice (items p))" "\<exists>it. metrics (Forget M v p) = metrics_forget M a it (metrics p)"
    "set (slice (items (Forget M v p))) = set (slice (items p)) - {a}"
proof -
  show "a \<in> set (slice (items p))" using inv lk by (auto simp: pq_inv_def)
  show "\<exists>it. metrics (Forget M v p) = metrics_forget M a it (metrics p)" using lk by (auto simp: Forget_def)
  show "set (slice (items (Forget M v p))) = set (slice (items p)) - {a}"
    by (rule Forget_some [OF inv lk, of M]) (rule slice_take [OF inv])
qed

text \<open>
  The invariant: the wait of every queued item is being timed, nothing that is queued counts as
  being processed, and no address is used twice. The number of items that have been handed out.
\<close>

definition sqm_inv :: "('v, StatsdQueueMetrics) PriorityQueue \<Rightarrow> bool" where
  "sqm_inv p =
     (set (slice (items p)) \<subseteq> dom (addTimes (metrics p)) \<and>
      set (slice (items p)) \<inter> dom (processingStartTimes (metrics p)) = {} \<and>
      (\<forall>a \<in> dom (addTimes (metrics p)) \<union> dom (processingStartTimes (metrics p)). a < next_addr p) \<and>
      finite (dom (processingStartTimes (metrics p))))"

definition durations :: "StatsdQueueMetrics \<Rightarrow> metric list" where
  "durations m = filter (\<lambda>x. \<exists>n ts. x = Distribution (metricWithPrefix (sqm_prefix m) ''queue.duration'') n ts) (emitted m)"

lemma metric_names [simp]:
  "metricWithPrefix pre a = metricWithPrefix pre b \<longleftrightarrow> a = b"
  by (simp add: metricWithPrefix_def)

lemma sqm_add_fields:
  "addTimes m a = None \<Longrightarrow> dom (addTimes (sqm_add f a it n m)) = insert a (dom (addTimes m))"
  "processingStartTimes (sqm_add f a it n m) = processingStartTimes m"
  "durations (sqm_add f a it n m) = durations m" "sqm_prefix (sqm_add f a it n m) = sqm_prefix m"
  by (auto simp: sqm_add_def Let_def emit_def time_Now_def durations_def)

lemma sqm_get_fields:
  "dom (addTimes (sqm_get f a it n m)) = dom (addTimes m) - {a}"
  "dom (processingStartTimes (sqm_get f a it n m)) = insert a (dom (processingStartTimes m))"
  "durations (sqm_get f a it n m) = durations m" "sqm_prefix (sqm_get f a it n m) = sqm_prefix m"
  by (auto simp: sqm_get_def Let_def emit_def time_Now_def time_Since_def DistributionMs_def durations_def
      split: option.splits)

lemma sqm_forget_idle: "processingStartTimes m a = None \<Longrightarrow> sqm_forget f a it m = m"
  by (simp add: sqm_forget_def)

text \<open>How many of the results of a history are values that \<open>Get\<close> returned.\<close>

definition served :: "'v result option list \<Rightarrow> nat" where
  "served rs = length (filter (\<lambda>r. \<exists>v. r = Some (Inr v)) rs)"

abbreviation in_work :: "('v, StatsdQueueMetrics) PriorityQueue \<Rightarrow> nat" where
  "in_work p \<equiv> card (dom (processingStartTimes (metrics p)))"

lemma sqm_Add:
  fixes p :: "('v, StatsdQueueMetrics) PriorityQueue"
  assumes "pq_inv p" "sqm_inv p" "pri \<noteq> NaN"
  shows "sqm_inv (Add (statsd_metrics f) v pri p)" "durations (metrics (Add (statsd_metrics f) v pri p)) = durations (metrics p)"
    "in_work (Add (statsd_metrics f) v pri p) = in_work p"
proof -
  let ?q = "Add (statsd_metrics f) v pri p"
  have "sqm_inv ?q \<and> durations (metrics ?q) = durations (metrics p) \<and> in_work ?q = in_work p"
  proof (cases "lookup p v")
    case None
    obtain it :: "'v Item" and n where m: "metrics ?q = sqm_add f (next_addr p) it n (metrics p)"
      using Add_metrics [OF None, of "statsd_metrics f" pri] by (auto simp: statsd_metrics_def)
    have "next_addr ?q = Suc (next_addr p)" using None by (simp add: Add_def Let_def)
    moreover have fresh: "next_addr p \<notin> dom (addTimes (metrics p))" "next_addr p \<notin> dom (processingStartTimes (metrics p))"
      using assms(2) by (auto simp: sqm_inv_def)
    ultimately show ?thesis
      using assms(2) Add_slice [OF assms(1) None assms(3), of "statsd_metrics f"] m sqm_add_fields(1) [of "metrics p" "next_addr p" f it n]
      by (auto simp: sqm_inv_def sqm_add_fields(2,3) less_Suc_eq domIff)
  qed (use assms in \<open>simp add: Add_dup\<close>)
  then show "sqm_inv ?q" "durations (metrics ?q) = durations (metrics p)" "in_work ?q = in_work p" by simp_all
qed

lemma sqm_Get:
  fixes p :: "('v, StatsdQueueMetrics) PriorityQueue"
  assumes inv: "pq_inv p" and m: "sqm_inv p" and r: "Get (statsd_metrics f) p = (r, p')"
  shows "sqm_inv p'" "durations (metrics p') = durations (metrics p)"
    "in_work p' = in_work p + (if \<exists>v. r = Inr v then 1 else 0)"
proof -
  have "sqm_inv p' \<and> durations (metrics p') = durations (metrics p) \<and>
      in_work p' = in_work p + (if \<exists>v. r = Inr v then 1 else 0)"
  proof (cases "slice (items p) = []")
    case True
    then show ?thesis using m r by (auto simp: Get_def)
  next
    case False
    obtain a n and it :: "'v Item" where a: "a \<in> set (slice (items p))" "set (slice (items p')) = set (slice (items p)) - {a}"
      "metrics p' = sqm_get f a it n (metrics p)" "next_addr p' = next_addr p"
      using Get_metrics [OF inv False, of "statsd_metrics f"] r by (auto simp: statsd_metrics_def)
    have "\<exists>v. r = Inr v" using r False by (auto simp: Get_def Let_def split: prod.splits)
    moreover have "a < next_addr p" "a \<notin> dom (processingStartTimes (metrics p))" "finite (dom (processingStartTimes (metrics p)))"
      using m a(1) inv by (auto simp: sqm_inv_def pq_inv_def)
    ultimately show ?thesis
      using m a by (auto simp: sqm_inv_def sqm_get_fields)
  qed
  then show "sqm_inv p'" "durations (metrics p') = durations (metrics p)"
    "in_work p' = in_work p + (if \<exists>v. r = Inr v then 1 else 0)" by simp_all
qed

text \<open>Only queued items can be forgotten, and a queued item is never one that is being processed.\<close>

lemma sqm_Forget:
  assumes inv: "pq_inv p" and m: "sqm_inv p"
  shows "sqm_inv (Forget (statsd_metrics f) v p)" "metrics (Forget (statsd_metrics f) v p) = metrics p"
proof -
  let ?q = "Forget (statsd_metrics f) v p"
  have "sqm_inv ?q \<and> metrics ?q = metrics p"
  proof (cases "lookup p v")
    case None
    then show ?thesis using m by (simp add: Forget_def)
  next
    case (Some a)
    note fm = Forget_metrics(1) [OF inv Some] Forget_metrics(2,3) [OF inv Some, of "statsd_metrics f"]
    have "processingStartTimes (metrics p) a = None" using m fm(1) by (auto simp: sqm_inv_def)
    then have "metrics ?q = metrics p"
      using fm(2) by (auto simp: statsd_metrics_def sqm_forget_idle)
    moreover have "next_addr ?q = next_addr p" using Some by (simp add: Forget_def)
    ultimately show ?thesis using m fm(3) by (auto simp: sqm_inv_def)
  qed
  then show "sqm_inv ?q" "metrics ?q = metrics p" by simp_all
qed

lemma sqm_call:
  assumes "pq_inv p" "sqm_inv p" "call_ok c" "pq_call (statsd_metrics f) c p = (r, p')"
  shows "sqm_inv p' \<and> durations (metrics p') = durations (metrics p) \<and> in_work p' = in_work p + served [r]"
proof (cases c)
  case (CAdd v pri)
  then show ?thesis using assms sqm_Add [OF assms(1,2), of pri f v] by (auto simp: served_def)
next
  case CGet
  then show ?thesis
    using assms sqm_Get [OF assms(1,2), of f] by (auto simp: served_def split: prod.splits)
next
  case (CForget v)
  then show ?thesis using assms sqm_Forget [OF assms(1,2), of f v] by (auto simp: served_def)
next
  case (CFailed v)
  then show ?thesis using assms by (auto simp: served_def Failed_def sqm_inv_def)
qed

lemma sqm_calls:
  "\<lbrakk>pq_inv p; sqm_inv p; list_all call_ok cs; pq_calls (statsd_metrics f) cs p = (rs, p')\<rbrakk> \<Longrightarrow>
     sqm_inv p' \<and> durations (metrics p') = durations (metrics p) \<and> in_work p' = in_work p + served rs"
proof (induction cs arbitrary: p rs)
  case Nil
  then show ?case by (simp add: served_def)
next
  case (Cons c cs)
  obtain r p1 ss where c: "pq_call (statsd_metrics f) c p = (r, p1)"
    and cs: "pq_calls (statsd_metrics f) cs p1 = (ss, p')" and rs: "rs = r # ss"
    using Cons.prems(4) by (auto split: prod.splits)
  have "pq_inv p1" using pq_call_inv [OF Cons.prems(1), of c "statsd_metrics f"] Cons.prems(3) c by simp
  moreover have "served rs = served [r] + served ss" using rs by (simp add: served_def)
  ultimately show ?case
    using Cons.IH [OF _ _ _ cs] sqm_call [OF Cons.prems(1,2) _ c] Cons.prems(3) by simp
qed

section \<open>Properties\<close>

text \<open>Whatever calls the queue gets, the duration of an item's processing is never reported, and
  the table of start times has one more entry for every value that was ever handed out: \<open>Forget\<close> is
  the only one that clears an entry, and it only reaches items that are still queued.\<close>

lemma durations_never_reported:
  fixes p :: "('v, StatsdQueueMetrics) PriorityQueue"
  assumes "list_all call_ok cs"
    "pq_calls (statsd_metrics f) cs (NewPriorityQueueWithMetrics (NewStatsdQueueMetrics pre clk)) = (rs, p)"
  shows "durations (metrics p) = [] \<and> card (dom (processingStartTimes (metrics p))) = served rs"
proof -
  let ?p0 = "NewPriorityQueueWithMetrics (NewStatsdQueueMetrics pre clk) :: ('v, StatsdQueueMetrics) PriorityQueue"
  have m: "metrics ?p0 = NewStatsdQueueMetrics pre clk" "slice (items ?p0) = []"
    by (simp_all add: NewPriorityQueueWithMetrics_def)
  then have "sqm_inv ?p0" by (simp add: sqm_inv_def NewStatsdQueueMetrics_def)
  from sqm_calls [OF New_inv this assms] show ?thesis
    using m by (simp add: NewStatsdQueueMetrics_def durations_def)
qed

lemma durations_never_reported_witness:
  "\<exists>rs p. pq_calls (statsd_metrics (\<lambda>_. ''0'')) [CAdd (1::int) (Fin 0), CGet, CForget 1]
       (NewPriorityQueueWithMetrics (NewStatsdQueueMetrics [] (\<lambda>_. 0))) = (rs, p) \<and>
     durations (metrics p) = [] \<and> card (dom (processingStartTimes (metrics p))) = 1"
proof -
  let ?cs = "[CAdd (1::int) (Fin 0), CGet, CForget 1]"
  let ?run = "pq_calls (statsd_metrics (\<lambda>_. ''0'')) ?cs (NewPriorityQueueWithMetrics (NewStatsdQueueMetrics [] (\<lambda>_. 0)))"
  obtain rs p where run: "?run = (rs, p)" by fastforce
  have "fst ?run = [None, Some (Inr 1), None]" by code_simp
  then have "served rs = 1" using run by (simp add: served_def del: pq_calls.simps)
  moreover have "durations (metrics p) = [] \<and> card (dom (processingStartTimes (metrics p))) = served rs"
    by (rule durations_never_reported [OF _ run]) simp
  ultimately show ?thesis using run by auto
qed

end
