(* ===== verification/DelayingQueue.thy ===== *)
theory DelayingQueue
  imports QueueMetrics
begin

text \<open>
  \<open>pkg/queue/delaying\_queue\_statsd.go\<close>: the queue of the node watcher, a wrapper with metrics
  around the rate limiting work queue of client-go. The wrapped queue is an interface value: a
  record of functions on a state of any type. The client-go queue itself is modelled behind it
  from its vendored source (\<open>workqueue.Type\<close>, \<open>delayingType\<close>, \<open>rateLimitingType\<close>), with the laws a
  client relies on stated as the locale \<open>delaying_queue\<close>.
\<close>

section \<open>The interface\<close>

text \<open>
  \<open>Get\<close> returns an item, or says that the queue is shut down, or blocks. \<open>ShutDownWithDrain\<close>
  returns whether the call comes back at once.
\<close>

datatype 'i got = Got 'i | Shutdown | Blocked

record ('i, 's) RateLimitingInterface =
  q_Add :: "'i \<Rightarrow> 's \<Rightarrow> 's"
  q_Len :: "'s \<Rightarrow> int \<times> 's"
  q_Get :: "'s \<Rightarrow> 'i got \<times> 's"
  q_Done :: "'i \<Rightarrow> 's \<Rightarrow> 's"
  q_ShutDown :: "'s \<Rightarrow> 's"
  q_ShutDownWithDrain :: "'s \<Rightarrow> bool \<times> 's"
  q_ShuttingDown :: "'s \<Rightarrow> bool"
  q_AddAfter :: "'i \<Rightarrow> int \<Rightarrow> 's \<Rightarrow> 's"
  q_AddRateLimited :: "'i \<Rightarrow> 's \<Rightarrow> 's"
  q_Forget :: "'i \<Rightarrow> 's \<Rightarrow> 's"
  q_NumRequeues :: "'i \<Rightarrow> 's \<Rightarrow> int"

section \<open>The wrapper\<close>

text \<open>Its state is the state of the queue it wraps, next to the metrics that have been sent.\<close>

record ('i, 'q) DelayingQueueStatsd =
  dqs_queue :: "('i, 'q) RateLimitingInterface"
  dqs_prefix :: string

definition dqs_metric :: "('i, 'q) DelayingQueueStatsd \<Rightarrow> string \<Rightarrow> string" where
  "dqs_metric dqs metric = (if dqs_prefix dqs = [] then metric else dqs_prefix dqs @ ''.'' @ metric)"

definition dqs_incr :: "('i, 'q) DelayingQueueStatsd \<Rightarrow> string \<Rightarrow> string list \<Rightarrow> 'x env_scheme \<Rightarrow> 'x env_scheme" where
  "dqs_incr dqs metric tags e = emit (Incr (dqs_metric dqs metric) tags) e"

text \<open>The line that most methods end with: the length of the queue as a gauge.\<close>

definition dqs_length ::
  "('i, 'q) DelayingQueueStatsd \<Rightarrow> 'q \<times> 'x env_scheme \<Rightarrow> int \<times> 'q \<times> 'x env_scheme" where
  "dqs_length dqs s = (case s of (q, e) \<Rightarrow>
     let (n, q) = q_Len (dqs_queue dqs) q
     in (n, q, emit (Gauge (dqs_metric dqs ''queue.length'') n []) e))"

definition dqs_AddAfter ::
  "('i, 'q) DelayingQueueStatsd \<Rightarrow> 'i \<Rightarrow> int \<Rightarrow> 'q \<times> 'x env_scheme \<Rightarrow> 'q \<times> 'x env_scheme" where
  "dqs_AddAfter dqs item duration s = (case s of (q, e) \<Rightarrow>
     let q = q_AddAfter (dqs_queue dqs) item duration q;
         e = dqs_incr dqs ''queue.add_after'' [] e
     in snd (dqs_length dqs (q, e)))"

definition dqs_AddRateLimited ::
  "('i, 'q) DelayingQueueStatsd \<Rightarrow> 'i \<Rightarrow> 'q \<times> 'x env_scheme \<Rightarrow> 'q \<times> 'x env_scheme" where
  "dqs_AddRateLimited dqs item s = (case s of (q, e) \<Rightarrow>
     let q = q_AddRateLimited (dqs_queue dqs) item q;
         e = dqs_incr dqs ''queue.add_rate_limited'' [] e
     in (q, e))"

definition dqs_Forget ::
  "('i, 'q) DelayingQueueStatsd \<Rightarrow> 'i \<Rightarrow> 'q \<times> 'x env_scheme \<Rightarrow> 'q \<times> 'x env_scheme" where
  "dqs_Forget dqs item s = (case s of (q, e) \<Rightarrow>
     let q = q_Forget (dqs_queue dqs) item q;
         e = dqs_incr dqs ''queue.forget'' [] e
     in snd (dqs_length dqs (q, e)))"

definition dqs_NumRequeues :: "('i, 'q) DelayingQueueStatsd \<Rightarrow> 'i \<Rightarrow> 'q \<times> 'x env_scheme \<Rightarrow> int" where
  "dqs_NumRequeues dqs item s = q_NumRequeues (dqs_queue dqs) item (fst s)"

definition dqs_Add ::
  "('i, 'q) DelayingQueueStatsd \<Rightarrow> 'i \<Rightarrow> 'q \<times> 'x env_scheme \<Rightarrow> 'q \<times> 'x env_scheme" where
  "dqs_Add dqs item s = (case s of (q, e) \<Rightarrow>
     let q = q_Add (dqs_queue dqs) item q;
         e = dqs_incr dqs ''queue.add'' [] e
     in snd (dqs_length dqs (q, e)))"

definition dqs_Len :: "('i, 'q) DelayingQueueStatsd \<Rightarrow> 'q \<times> 'x env_scheme \<Rightarrow> int \<times> 'q \<times> 'x env_scheme" where
  "dqs_Len dqs s = dqs_length dqs s"

definition dqs_Get :: "('i, 'q) DelayingQueueStatsd \<Rightarrow> 'q \<times> 'x env_scheme \<Rightarrow> 'i got \<times> 'q \<times> 'x env_scheme" where
  "dqs_Get dqs s = (case s of (q, e) \<Rightarrow>
     let e = dqs_incr dqs ''queue.add'' [] e;
         (_, q, e) = dqs_length dqs (q, e);
         (g, q) = q_Get (dqs_queue dqs) q
     in (g, q, e))"

definition dqs_Done ::
  "('i, 'q) DelayingQueueStatsd \<Rightarrow> 'i \<Rightarrow> 'q \<times> 'x env_scheme \<Rightarrow> 'q \<times> 'x env_scheme" where
  "dqs_Done dqs item s = (case s of (q, e) \<Rightarrow>
     let q = q_Done (dqs_queue dqs) item q;
         e = dqs_incr dqs ''queue.done'' [] e
     in snd (dqs_length dqs (q, e)))"

definition dqs_ShutDown :: "('i, 'q) DelayingQueueStatsd \<Rightarrow> 'q \<times> 'x env_scheme \<Rightarrow> 'q \<times> 'x env_scheme" where
  "dqs_ShutDown dqs s = (case s of (q, e) \<Rightarrow>
     let e = dqs_incr dqs ''queue.shutdown'' [''drain:false''] e
     in (q_ShutDown (dqs_queue dqs) q, e))"

definition dqs_ShutDownWithDrain ::
  "('i, 'q) DelayingQueueStatsd \<Rightarrow> 'q \<times> 'x env_scheme \<Rightarrow> bool \<times> 'q \<times> 'x env_scheme" where
  "dqs_ShutDownWithDrain dqs s = (case s of (q, e) \<Rightarrow>
     let e = dqs_incr dqs ''queue.shutdown'' [''drain:true''] e;
         (b, q) = q_ShutDownWithDrain (dqs_queue dqs) q
     in (b, q, e))"

definition dqs_ShuttingDown :: "('i, 'q) DelayingQueueStatsd \<Rightarrow> 'q \<times> 'x env_scheme \<Rightarrow> bool" where
  "dqs_ShuttingDown dqs s = q_ShuttingDown (dqs_queue dqs) (fst s)"

text \<open>The wrapper is again a value of the interface.\<close>

definition as_queue :: "('i, 'q) DelayingQueueStatsd \<Rightarrow> ('i, 'q \<times> 'x env_scheme) RateLimitingInterface" where
  "as_queue dqs =
     \<lparr>q_Add = dqs_Add dqs, q_Len = dqs_Len dqs, q_Get = dqs_Get dqs, q_Done = dqs_Done dqs,
      q_ShutDown = dqs_ShutDown dqs, q_ShutDownWithDrain = dqs_ShutDownWithDrain dqs,
      q_ShuttingDown = dqs_ShuttingDown dqs, q_AddAfter = dqs_AddAfter dqs,
      q_AddRateLimited = dqs_AddRateLimited dqs, q_Forget = dqs_Forget dqs, q_NumRequeues = dqs_NumRequeues dqs\<rparr>"

section \<open>The wrapped queue\<close>

text \<open>
  \<open>wq_now\<close> is the queue's clock. The entries that \<open>AddAfter\<close> hands to the goroutine of the
  queue are \<open>waiting\<close>; that goroutine moves an entry to the queue some time after it is ready
  (\<open>wake\<close>). The token bucket of the rate limiter is an argument.
\<close>

record 'i workqueue =
  wq_queue :: "'i list"
  dirty :: "'i set"
  processing :: "'i set"
  shuttingDown :: bool
  stopOnce :: bool
  waiting :: "'i \<rightharpoonup> int"
  wq_failures :: "'i \<Rightarrow> int"
  wq_now :: int

definition newQueue :: "int \<Rightarrow> 'i workqueue" where
  "newQueue now = \<lparr>wq_queue = [], dirty = {}, processing = {}, shuttingDown = False, stopOnce = False,
     waiting = Map.empty, wq_failures = (\<lambda>_. 0), wq_now = now\<rparr>"

definition wq_Add :: "'i \<Rightarrow> 'i workqueue \<Rightarrow> 'i workqueue" where
  "wq_Add item q =
     (if shuttingDown q then q
      else if item \<in> dirty q then q
      else let q = q\<lparr>dirty := insert item (dirty q)\<rparr> in
           if item \<in> processing q then q else q\<lparr>wq_queue := wq_queue q @ [item]\<rparr>)"

definition wq_Len :: "'i workqueue \<Rightarrow> int \<times> 'i workqueue" where
  "wq_Len q = (int (length (wq_queue q)), q)"

definition wq_Get :: "'i workqueue \<Rightarrow> 'i got \<times> 'i workqueue" where
  "wq_Get q =
     (case wq_queue q of
        [] \<Rightarrow> (if shuttingDown q then Shutdown else Blocked, q)
      | item # rest \<Rightarrow>
          (Got item, q\<lparr>wq_queue := rest, processing := insert item (processing q), dirty := dirty q - {item}\<rparr>))"

definition wq_Done :: "'i \<Rightarrow> 'i workqueue \<Rightarrow> 'i workqueue" where
  "wq_Done item q =
     (let q = q\<lparr>processing := processing q - {item}\<rparr> in
      if item \<in> dirty q then q\<lparr>wq_queue := wq_queue q @ [item]\<rparr> else q)"

definition wq_ShutDown :: "'i workqueue \<Rightarrow> 'i workqueue" where
  "wq_ShutDown q = (if stopOnce q then q else q\<lparr>shuttingDown := True, stopOnce := True\<rparr>)"

definition wq_ShutDownWithDrain :: "'i workqueue \<Rightarrow> bool \<times> 'i workqueue" where
  "wq_ShutDownWithDrain q = (processing q = {}, q\<lparr>shuttingDown := True\<rparr>)"

definition wq_AddAfter :: "'i \<Rightarrow> int \<Rightarrow> 'i workqueue \<Rightarrow> 'i workqueue" where
  "wq_AddAfter item duration q =
     (if shuttingDown q then q
      else if duration \<le> 0 then wq_Add item q
      else let readyAt = wq_now q + duration in
           case waiting q item of
             Some t \<Rightarrow> if readyAt < t then q\<lparr>waiting := (waiting q)(item \<mapsto> readyAt)\<rparr> else q
           | None \<Rightarrow> q\<lparr>waiting := (waiting q)(item \<mapsto> readyAt)\<rparr>)"

definition wake :: "'i \<Rightarrow> 'i workqueue \<Rightarrow> 'i workqueue" where
  "wake item q =
     (case waiting q item of
        None \<Rightarrow> q
      | Some readyAt \<Rightarrow>
          if shuttingDown q \<or> wq_now q < readyAt then q
          else (wq_Add item q)\<lparr>waiting := (waiting q)(item := None)\<rparr>)"

definition backoff :: "int \<Rightarrow> int" where
  "backoff n = min (5000000 * 2 ^ nat n) 1000000000000"

definition wq_AddRateLimited :: "('i workqueue \<Rightarrow> int) \<Rightarrow> 'i \<Rightarrow> 'i workqueue \<Rightarrow> 'i workqueue" where
  "wq_AddRateLimited bucket item q =
     (let duration = max (backoff (wq_failures q item)) (bucket q);
          q = q\<lparr>wq_failures := (wq_failures q)(item := wq_failures q item + 1)\<rparr>
      in wq_AddAfter item duration q)"

definition wq_NumRequeues :: "'i \<Rightarrow> 'i workqueue \<Rightarrow> int" where
  "wq_NumRequeues item q = wq_failures q item"

definition wq_Forget :: "'i \<Rightarrow> 'i workqueue \<Rightarrow> 'i workqueue" where
  "wq_Forget item q = q\<lparr>wq_failures := (wq_failures q)(item := 0)\<rparr>"

definition NewRateLimitingQueue :: "('i workqueue \<Rightarrow> int) \<Rightarrow> ('i, 'i workqueue) RateLimitingInterface" where
  "NewRateLimitingQueue bucket =
     \<lparr>q_Add = wq_Add, q_Len = wq_Len, q_Get = wq_Get, q_Done = wq_Done, q_ShutDown = wq_ShutDown,
      q_ShutDownWithDrain = wq_ShutDownWithDrain, q_ShuttingDown = shuttingDown, q_AddAfter = wq_AddAfter,
      q_AddRateLimited = wq_AddRateLimited bucket, q_Forget = wq_Forget, q_NumRequeues = wq_NumRequeues\<rparr>"

definition NewDelayingQueueStatsd ::
  "('i workqueue \<Rightarrow> int) \<Rightarrow> string \<Rightarrow> ('i, 'i workqueue) DelayingQueueStatsd" where
  "NewDelayingQueueStatsd bucket pre = \<lparr>dqs_queue = NewRateLimitingQueue bucket, dqs_prefix = pre\<rparr>"

section \<open>The contract of a delaying queue\<close>

text \<open>
  What a client sees of a queue: the items that are to be processed, those handed out and not
  done yet, those that are to come later, and whether the queue has been shut down.
\<close>

record 'i qview =
  todo :: "'i set"
  busy :: "'i set"
  later :: "'i set"
  shut :: bool

definition spec_add :: "'i \<Rightarrow> 'i qview \<Rightarrow> 'i qview" where
  "spec_add x v = (if shut v then v else v\<lparr>todo := insert x (todo v)\<rparr>)"

definition spec_after :: "'i \<Rightarrow> int \<Rightarrow> 'i qview \<Rightarrow> 'i qview" where
  "spec_after x d v =
     (if shut v then v else if d \<le> 0 then spec_add x v else v\<lparr>later := insert x (later v)\<rparr>)"

definition spec_done :: "'i \<Rightarrow> 'i qview \<Rightarrow> 'i qview" where
  "spec_done x v = v\<lparr>busy := busy v - {x}\<rparr>"

fun spec_get :: "'i qview \<Rightarrow> 'i got \<Rightarrow> 'i qview \<Rightarrow> bool" where
  "spec_get v (Got x) v' =
     (x \<in> todo v \<and> x \<notin> busy v \<and> v' = v\<lparr>todo := todo v - {x}, busy := insert x (busy v)\<rparr>)"
| "spec_get v Shutdown v' = (shut v \<and> todo v \<subseteq> busy v \<and> v' = v)"
| "spec_get v Blocked v' = (\<not> shut v \<and> todo v \<subseteq> busy v \<and> v' = v)"

locale delaying_queue =
  fixes Q :: "('i, 's) RateLimitingInterface"
    and inv :: "'s \<Rightarrow> bool"
    and view :: "'s \<Rightarrow> 'i qview"
  assumes finite_todo: "inv s \<Longrightarrow> finite (todo (view s))"
    and add_ok: "inv s \<Longrightarrow> inv (q_Add Q x s) \<and> view (q_Add Q x s) = spec_add x (view s)"
    and after_ok: "inv s \<Longrightarrow> inv (q_AddAfter Q x d s) \<and> view (q_AddAfter Q x d s) = spec_after x d (view s)"
    and limited_ok: "inv s \<Longrightarrow> inv (q_AddRateLimited Q x s) \<and> view (q_AddRateLimited Q x s) = spec_after x 1 (view s)"
    and get_ok: "inv s \<Longrightarrow> inv (snd (q_Get Q s)) \<and> spec_get (view s) (fst (q_Get Q s)) (view (snd (q_Get Q s)))"
    and done_ok: "inv s \<Longrightarrow> x \<in> busy (view s) \<Longrightarrow> inv (q_Done Q x s) \<and> view (q_Done Q x s) = spec_done x (view s)"
    and forget_ok: "inv s \<Longrightarrow> inv (q_Forget Q x s) \<and> view (q_Forget Q x s) = view s"
    and shutdown_ok: "inv s \<Longrightarrow> inv (q_ShutDown Q s) \<and> view (q_ShutDown Q s) = (view s)\<lparr>shut := True\<rparr>"
    and drain_ok: "inv s \<Longrightarrow> inv (snd (q_ShutDownWithDrain Q s)) \<and>
      view (snd (q_ShutDownWithDrain Q s)) = (view s)\<lparr>shut := True\<rparr> \<and>
      (fst (q_ShutDownWithDrain Q s) \<longleftrightarrow> busy (view s) = {})"
    and len_ok: "inv s \<Longrightarrow> inv (snd (q_Len Q s)) \<and> view (snd (q_Len Q s)) = view s \<and>
      fst (q_Len Q s) = int (card (todo (view s) - busy (view s))) \<and>
      q_NumRequeues Q y (snd (q_Len Q s)) = q_NumRequeues Q y s"
    and shut_ok: "inv s \<Longrightarrow> q_ShuttingDown Q s = shut (view s)"
    and requeues_ok: "inv s \<Longrightarrow> q_NumRequeues Q y (q_Forget Q x s) = (if y = x then 0 else q_NumRequeues Q y s)"
      "inv s \<Longrightarrow> q_NumRequeues Q y (q_AddRateLimited Q x s) = q_NumRequeues Q y s + (if y = x then 1 else 0)"
begin

text \<open>The wrapper with metrics keeps the contract of the queue it wraps.\<close>

lemma dqs_length_same:
  fixes dqs :: "('i, 's) DelayingQueueStatsd" and e :: "'x env_scheme"
  assumes "inv q" "dqs_queue dqs = Q"
  shows "inv (fst (snd (dqs_length dqs (q, e))))" "view (fst (snd (dqs_length dqs (q, e)))) = view q"
    "fst (dqs_length dqs (q, e)) = int (card (todo (view q) - busy (view q)))"
    "q_NumRequeues Q y (fst (snd (dqs_length dqs (q, e)))) = q_NumRequeues Q y q"
  using len_ok [OF assms(1)] assms(2) by (simp_all add: dqs_length_def Let_def case_prod_beta)

lemma wrapped:
  "delaying_queue (as_queue \<lparr>dqs_queue = Q, dqs_prefix = pre\<rparr> :: ('i, 's \<times> 'x env_scheme) RateLimitingInterface)
     (inv \<circ> fst) (view \<circ> fst)"
proof
  let ?dqs = "\<lparr>dqs_queue = Q, dqs_prefix = pre\<rparr>"
  let ?W = "as_queue ?dqs :: ('i, 's \<times> 'x env_scheme) RateLimitingInterface"
  fix s :: "'s \<times> 'x env_scheme" and x y :: 'i and d :: int
  obtain q e where s: "s = (q, e)" by fastforce
  note W = as_queue_def dqs_incr_def Let_def s dqs_length_same
  assume "(inv \<circ> fst) s"
  then have i: "inv q" by (simp add: s)
  show "finite (todo ((view \<circ> fst) s))" using finite_todo [OF i] by (simp add: s)
  show "(inv \<circ> fst) (q_Add ?W x s) \<and> (view \<circ> fst) (q_Add ?W x s) = spec_add x ((view \<circ> fst) s)"
    using add_ok [OF i] by (simp add: W dqs_Add_def)
  show "(inv \<circ> fst) (q_AddAfter ?W x d s) \<and> (view \<circ> fst) (q_AddAfter ?W x d s) = spec_after x d ((view \<circ> fst) s)"
    using after_ok [OF i] by (simp add: W dqs_AddAfter_def)
  show "(inv \<circ> fst) (q_AddRateLimited ?W x s) \<and>
      (view \<circ> fst) (q_AddRateLimited ?W x s) = spec_after x 1 ((view \<circ> fst) s)"
    using limited_ok [OF i] by (simp add: W dqs_AddRateLimited_def)
  show "(inv \<circ> fst) (snd (q_Get ?W s)) \<and>
      spec_get ((view \<circ> fst) s) (fst (q_Get ?W s)) ((view \<circ> fst) (snd (q_Get ?W s)))"
  proof -
    let ?l = "fst (snd (dqs_length ?dqs (q, emit (Incr (dqs_metric ?dqs ''queue.add'') []) e)))"
    have "inv ?l" "view ?l = view q" using i by (simp_all add: dqs_length_same)
    then show ?thesis using get_ok [of ?l] by (simp add: W dqs_Get_def case_prod_beta)
  qed
  show "(inv \<circ> fst) (q_Done ?W x s) \<and> (view \<circ> fst) (q_Done ?W x s) = spec_done x ((view \<circ> fst) s)"
    if "x \<in> busy ((view \<circ> fst) s)"
    using done_ok [OF i, of x] that by (simp add: W dqs_Done_def)
  show "(inv \<circ> fst) (q_Forget ?W x s) \<and> (view \<circ> fst) (q_Forget ?W x s) = (view \<circ> fst) s"
    using forget_ok [OF i] by (simp add: W dqs_Forget_def)
  show "(inv \<circ> fst) (q_ShutDown ?W s) \<and> (view \<circ> fst) (q_ShutDown ?W s) = ((view \<circ> fst) s)\<lparr>shut := True\<rparr>"
    using shutdown_ok [OF i] by (simp add: W dqs_ShutDown_def)
  show "(inv \<circ> fst) (snd (q_ShutDownWithDrain ?W s)) \<and>
      (view \<circ> fst) (snd (q_ShutDownWithDrain ?W s)) = ((view \<circ> fst) s)\<lparr>shut := True\<rparr> \<and>
      (fst (q_ShutDownWithDrain ?W s) \<longleftrightarrow> busy ((view \<circ> fst) s) = {})"
    using drain_ok [OF i] by (simp add: W dqs_ShutDownWithDrain_def case_prod_beta)
  show "(inv \<circ> fst) (snd (q_Len ?W s)) \<and> (view \<circ> fst) (snd (q_Len ?W s)) = (view \<circ> fst) s \<and>
      fst (q_Len ?W s) = int (card (todo ((view \<circ> fst) s) - busy ((view \<circ> fst) s))) \<and>
      q_NumRequeues ?W y (snd (q_Len ?W s)) = q_NumRequeues ?W y s"
    using i by (simp add: W dqs_Len_def dqs_NumRequeues_def)
  show "q_ShuttingDown ?W s = shut ((view \<circ> fst) s)"
    using shut_ok [OF i] by (simp add: W dqs_ShuttingDown_def)
  show "q_NumRequeues ?W y (q_Forget ?W x s) = (if y = x then 0 else q_NumRequeues ?W y s)"
    using requeues_ok(1) [OF i] forget_ok [OF i] by (simp add: W dqs_Forget_def dqs_NumRequeues_def)
  show "q_NumRequeues ?W y (q_AddRateLimited ?W x s) = q_NumRequeues ?W y s + (if y = x then 1 else 0)"
    using requeues_ok(2) [OF i] by (simp add: W dqs_AddRateLimited_def dqs_NumRequeues_def)
qed

end

text \<open>The items in the slice are those that are dirty and not being processed, each once.\<close>

definition wq_inv :: "'i workqueue \<Rightarrow> bool" where
  "wq_inv q = (distinct (wq_queue q) \<and> set (wq_queue q) = dirty q - processing q \<and> finite (dirty q) \<and>
     (stopOnce q \<longrightarrow> shuttingDown q))"

definition wq_view :: "'i workqueue \<Rightarrow> 'i qview" where
  "wq_view q = \<lparr>todo = dirty q, busy = processing q, later = dom (waiting q), shut = shuttingDown q\<rparr>"

lemma spec_get_wq:
  assumes "wq_inv q"
  shows "wq_inv (snd (wq_Get q)) \<and> spec_get (wq_view q) (fst (wq_Get q)) (wq_view (snd (wq_Get q)))"
  using assms by (cases "wq_queue q") (auto simp: wq_Get_def wq_inv_def wq_view_def)

lemma backoff_pos: "0 < backoff n"
  by (simp add: backoff_def)

lemma wq_Add_ok: "wq_inv q \<Longrightarrow> wq_inv (wq_Add x q) \<and> wq_view (wq_Add x q) = spec_add x (wq_view q)"
  by (auto simp: wq_Add_def wq_inv_def wq_view_def spec_add_def Let_def)

lemma wq_AddAfter_ok:
  "wq_inv q \<Longrightarrow> wq_inv (wq_AddAfter x d q) \<and> wq_view (wq_AddAfter x d q) = spec_after x d (wq_view q)"
  using wq_Add_ok [of q x]
  by (auto simp: wq_AddAfter_def spec_after_def Let_def wq_inv_def wq_view_def split: option.split)

interpretation wq: delaying_queue "NewRateLimitingQueue bucket" wq_inv wq_view
  for bucket :: "'i workqueue \<Rightarrow> int"
proof
  fix s :: "'i workqueue" and x y :: 'i and d :: int
  let ?Q = "NewRateLimitingQueue bucket"
  note Q = NewRateLimitingQueue_def
  show "q_NumRequeues ?Q y (q_Forget ?Q x s) = (if y = x then 0 else q_NumRequeues ?Q y s)"
    by (simp add: Q wq_NumRequeues_def wq_Forget_def)
  show "q_NumRequeues ?Q y (q_AddRateLimited ?Q x s) = q_NumRequeues ?Q y s + (if y = x then 1 else 0)"
    by (auto simp: Q wq_NumRequeues_def wq_AddRateLimited_def wq_AddAfter_def wq_Add_def Let_def split: option.split)
  assume i: "wq_inv s"
  show "finite (todo (wq_view s))" using i by (simp add: wq_inv_def wq_view_def)
  show "wq_inv (q_Add ?Q x s) \<and> wq_view (q_Add ?Q x s) = spec_add x (wq_view s)"
    using wq_Add_ok [OF i] by (simp add: Q)
  show "wq_inv (q_AddAfter ?Q x d s) \<and> wq_view (q_AddAfter ?Q x d s) = spec_after x d (wq_view s)"
    using wq_AddAfter_ok [OF i] by (simp add: Q)
  let ?s = "s\<lparr>wq_failures := (wq_failures s)(x := wq_failures s x + 1)\<rparr>"
  have s: "wq_inv ?s" "wq_view ?s = wq_view s" using i by (auto simp: wq_inv_def wq_view_def)
  have "0 < max (backoff (wq_failures s x)) (bucket s)" using backoff_pos by (metis less_max_iff_disj)
  then have "spec_after x (max (backoff (wq_failures s x)) (bucket s)) (wq_view s) = spec_after x 1 (wq_view s)"
    by (auto simp: spec_after_def simp del: max_less_iff_conj)
  then show "wq_inv (q_AddRateLimited ?Q x s) \<and> wq_view (q_AddRateLimited ?Q x s) = spec_after x 1 (wq_view s)"
    using wq_AddAfter_ok [OF s(1)] s(2) by (simp add: Q wq_AddRateLimited_def Let_def)
  show "wq_inv (snd (q_Get ?Q s)) \<and> spec_get (wq_view s) (fst (q_Get ?Q s)) (wq_view (snd (q_Get ?Q s)))"
    using spec_get_wq [OF i] by (simp add: Q)
  show "wq_inv (q_Done ?Q x s) \<and> wq_view (q_Done ?Q x s) = spec_done x (wq_view s)" if "x \<in> busy (wq_view s)"
    using i that by (auto simp: Q wq_Done_def wq_inv_def wq_view_def spec_done_def Let_def)
  show "wq_inv (q_Forget ?Q x s) \<and> wq_view (q_Forget ?Q x s) = wq_view s"
    using i by (simp add: Q wq_Forget_def wq_inv_def wq_view_def)
  show "wq_inv (q_ShutDown ?Q s) \<and> wq_view (q_ShutDown ?Q s) = (wq_view s)\<lparr>shut := True\<rparr>"
    using i by (auto simp: Q wq_ShutDown_def wq_inv_def wq_view_def)
  show "wq_inv (snd (q_ShutDownWithDrain ?Q s)) \<and>
      wq_view (snd (q_ShutDownWithDrain ?Q s)) = (wq_view s)\<lparr>shut := True\<rparr> \<and>
      (fst (q_ShutDownWithDrain ?Q s) \<longleftrightarrow> busy (wq_view s) = {})"
    using i by (simp add: Q wq_ShutDownWithDrain_def wq_inv_def wq_view_def)
  show "wq_inv (snd (q_Len ?Q s)) \<and> wq_view (snd (q_Len ?Q s)) = wq_view s \<and>
      fst (q_Len ?Q s) = int (card (todo (wq_view s) - busy (wq_view s))) \<and>
      q_NumRequeues ?Q y (snd (q_Len ?Q s)) = q_NumRequeues ?Q y s"
    using i by (simp add: Q wq_Len_def) (metis distinct_card qview.select_convs(1,2) wq_inv_def wq_view_def)
  show "q_ShuttingDown ?Q s = shut (wq_view s)" by (simp add: Q wq_view_def)
qed

lemma NewDelayingQueueStatsd_fields:
  "NewDelayingQueueStatsd bucket pre = \<lparr>dqs_queue = NewRateLimitingQueue bucket, dqs_prefix = pre\<rparr>"
  by (rule NewDelayingQueueStatsd_def)

interpretation dq: delaying_queue "as_queue (NewDelayingQueueStatsd bucket pre)" "wq_inv \<circ> fst" "wq_view \<circ> fst"
  for bucket :: "'i workqueue \<Rightarrow> int" and pre
  unfolding NewDelayingQueueStatsd_def by (rule wq.wrapped)

text \<open>A new queue, and what the goroutine of the queue does with an entry that is ready.\<close>

lemma newQueue_ok [simp]:
  "wq_inv (newQueue now)"
  "wq_view (newQueue now) = \<lparr>todo = {}, busy = {}, later = {}, shut = False\<rparr>"
  by (simp_all add: newQueue_def wq_inv_def wq_view_def)

lemma wake_ok:
  assumes "wq_inv q"
  shows "wq_inv (wake x q)"
    "waiting q x = Some t \<Longrightarrow> t \<le> wq_now q \<Longrightarrow> \<not> shuttingDown q \<Longrightarrow>
       wq_view (wake x q) = (wq_view q)\<lparr>todo := insert x (dirty q), later := dom (waiting q) - {x}\<rparr>"
  using wq_Add_ok [OF assms, of x] assms
  by (auto simp: wake_def wq_inv_def wq_view_def spec_add_def split: option.split)

section \<open>Histories of calls\<close>

datatype 'i qcall =
    QAdd 'i | QAddAfter 'i int | QAddRateLimited 'i | QForget 'i | QNumRequeues 'i | QLen | QGet | QDone 'i
  | QShutDown | QShutDownWithDrain | QShuttingDown

datatype 'i answer = ANone | AInt int | ABool bool | AGot "'i got"

fun q_call :: "('i, 's) RateLimitingInterface \<Rightarrow> 'i qcall \<Rightarrow> 's \<Rightarrow> 'i answer \<times> 's" where
  "q_call Q (QAdd x) s = (ANone, q_Add Q x s)"
| "q_call Q (QAddAfter x d) s = (ANone, q_AddAfter Q x d s)"
| "q_call Q (QAddRateLimited x) s = (ANone, q_AddRateLimited Q x s)"
| "q_call Q (QForget x) s = (ANone, q_Forget Q x s)"
| "q_call Q (QNumRequeues x) s = (AInt (q_NumRequeues Q x s), s)"
| "q_call Q QLen s = (let (n, s) = q_Len Q s in (AInt n, s))"
| "q_call Q QGet s = (let (g, s) = q_Get Q s in (AGot g, s))"
| "q_call Q (QDone x) s = (ANone, q_Done Q x s)"
| "q_call Q QShutDown s = (ANone, q_ShutDown Q s)"
| "q_call Q QShutDownWithDrain s = (let (b, s) = q_ShutDownWithDrain Q s in (ABool b, s))"
| "q_call Q QShuttingDown s = (ABool (q_ShuttingDown Q s), s)"

fun q_calls :: "('i, 's) RateLimitingInterface \<Rightarrow> 'i qcall list \<Rightarrow> 's \<Rightarrow> 'i answer list \<times> 's" where
  "q_calls Q [] s = ([], s)"
| "q_calls Q (c # cs) s =
     (let (a, s) = q_call Q c s; (as, s) = q_calls Q cs s in (a # as, s))"

text \<open>How often a counter has been raised, and the calls that raise the counter of additions.\<close>

definition raised :: "string \<Rightarrow> 'x env_scheme \<Rightarrow> nat" where
  "raised name e = length (filter (\<lambda>m. \<exists>tags. m = Incr name tags) (emitted e))"

fun raises_add :: "'i qcall \<Rightarrow> bool" where
  "raises_add (QAdd x) = True"
| "raises_add QGet = True"
| "raises_add _ = False"

lemma dqs_metric_eq [simp]: "dqs_metric dqs a = dqs_metric dqs b \<longleftrightarrow> a = b"
  by (simp add: dqs_metric_def)

lemma raised_emit [simp]:
  "raised n (emit m e) = raised n e + (if \<exists>tags. m = Incr n tags then 1 else 0)"
  by (simp add: raised_def)

lemma dqs_length_pure:
  assumes "q_Len (dqs_queue dqs) q = (n, q)"
  shows "dqs_length dqs (q, e) = (n, q, emit (Gauge (dqs_metric dqs ''queue.length'') n []) e)"
  using assms by (simp add: dqs_length_def)

lemma q_call_wrapped:
  assumes pure: "\<And>s. snd (q_Len (dqs_queue dqs) s) = s"
    and c: "q_call (dqs_queue dqs) c q = (a, q1)"
  shows "\<exists>e1. q_call (as_queue dqs) c (q, e) = (a, q1, e1) \<and>
    raised (dqs_metric dqs ''queue.add'') e1 =
      raised (dqs_metric dqs ''queue.add'') e + (if raises_add c then 1 else 0)"
proof -
  have "dqs_length dqs (s, e) =
      (fst (q_Len (dqs_queue dqs) s), s, emit (Gauge (dqs_metric dqs ''queue.length'') (fst (q_Len (dqs_queue dqs) s)) []) e)"
    for s and e :: "'c env_scheme"
    by (rule dqs_length_pure) (metis pure prod.collapse)
  note len = this
  have "snd (q_Len (dqs_queue dqs) s) = s" for s by (rule pure)
  then show ?thesis
    using c
    by (cases c) (auto simp: as_queue_def len dqs_Add_def dqs_AddAfter_def dqs_AddRateLimited_def dqs_Forget_def
        dqs_NumRequeues_def dqs_Len_def dqs_Get_def dqs_Done_def dqs_ShutDown_def dqs_ShutDownWithDrain_def
        dqs_ShuttingDown_def dqs_incr_def Let_def case_prod_beta)
qed

lemma q_calls_wrapped:
  assumes pure: "\<And>s. snd (q_Len (dqs_queue dqs) s) = s"
    and cs: "q_calls (dqs_queue dqs) cs q = (as, q')"
  shows "\<exists>e'. q_calls (as_queue dqs) cs (q, e) = (as, q', e') \<and>
    raised (dqs_metric dqs ''queue.add'') e' =
      raised (dqs_metric dqs ''queue.add'') e + length (filter raises_add cs)"
  using cs
proof (induction cs arbitrary: q e as)
  case (Cons c cs)
  obtain a q1 bs where c: "q_call (dqs_queue dqs) c q = (a, q1)" and cs: "q_calls (dqs_queue dqs) cs q1 = (bs, q')"
    and as: "as = a # bs"
    using Cons.prems by (auto simp: Let_def split: prod.splits)
  obtain e1 where e1: "q_call (as_queue dqs) c (q, e) = (a, q1, e1)"
    "raised (dqs_metric dqs ''queue.add'') e1 =
       raised (dqs_metric dqs ''queue.add'') e + (if raises_add c then 1 else 0)"
    using q_call_wrapped [OF pure c] by blast
  show ?case using Cons.IH [OF cs, of e1] e1 as by auto
qed simp

section \<open>Properties\<close>

text \<open>C31: any sequence of calls gets the same answers from the wrapper as from the queue it wraps and
  leaves the wrapped queue in the same state. The counter of additions goes up with every \<open>Add\<close>, and
  also with every \<open>Get\<close>, so that it does not count additions.\<close>

theorem DelayingQueueStatsd_transparent:
  assumes "\<forall>s. snd (q_Len (dqs_queue dqs) s) = s" "q_calls (dqs_queue dqs) cs q = (as, q')"
  shows "\<exists>e'. q_calls (as_queue dqs) cs (q, e) = (as, q', e') \<and>
    raised (dqs_metric dqs ''queue.add'') e' =
      raised (dqs_metric dqs ''queue.add'') e + length (filter raises_add cs)"
  by (rule q_calls_wrapped [OF assms(1) [rule_format] assms(2)])

theorem DelayingQueueStatsd_transparent_witness:
  "let dqs = NewDelayingQueueStatsd (\<lambda>_. 0) ''n'';
       run = q_calls (as_queue dqs) [QAdd (7::int), QAdd 7, QGet, QDone 7, QLen]
         (newQueue 0, \<lparr>emitted = [], clock = (\<lambda>_. 0), reads = 0\<rparr>)
   in fst run = [ANone, ANone, AGot (Got 7), ANone, AInt 0] \<and> raised ''n.queue.add'' (snd (snd run)) = 3"
proof -
  let ?dqs = "NewDelayingQueueStatsd (\<lambda>_. 0) ''n'' :: (int, int workqueue) DelayingQueueStatsd"
  let ?cs = "[QAdd (7::int), QAdd 7, QGet, QDone 7, QLen]"
  let ?e = "\<lparr>emitted = [], clock = (\<lambda>_. 0), reads = 0\<rparr> :: env"
  have q: "dqs_queue ?dqs = NewRateLimitingQueue (\<lambda>_. 0)" "dqs_metric ?dqs ''queue.add'' = ''n.queue.add''"
    by (simp_all add: NewDelayingQueueStatsd_def dqs_metric_def)
  obtain as q' where run: "q_calls (dqs_queue ?dqs) ?cs (newQueue 0) = (as, q')" by fastforce
  have "fst (q_calls (NewRateLimitingQueue (\<lambda>_. 0)) ?cs (newQueue 0)) = [ANone, ANone, AGot (Got 7), ANone, AInt 0]"
    by (simp add: NewRateLimitingQueue_def newQueue_def wq_Add_def wq_Get_def wq_Done_def wq_Len_def)
  then have as: "as = [ANone, ANone, AGot (Got 7), ANone, AInt 0]" using run unfolding q by simp
  have "\<forall>s. snd (q_Len (dqs_queue ?dqs) s) = s"
    by (simp add: q NewRateLimitingQueue_def wq_Len_def)
  then obtain e' where "q_calls (as_queue ?dqs) ?cs (newQueue 0, ?e) = (as, q', e')"
    "raised ''n.queue.add'' e' = raised ''n.queue.add'' ?e + length (filter raises_add ?cs)"
    using DelayingQueueStatsd_transparent [OF _ run, of ?e] unfolding q(2) by blast
  then show ?thesis using as by (simp add: Let_def raised_def del: q_calls.simps)
qed

end
