(* ===== verification/GoJson.thy ===== *)
theory GoJson
  imports GoStd
begin

text \<open>
  The part of \<open>encoding/json\<close> the exporter stores and reads its metadata with (Go 1.21, HTML
  escaping on, as \<open>json.Marshal\<close> has it). \<open>Marshal\<close> prints compactly; \<open>Unmarshal\<close> is a lexer
  and a machine with a stack of open arrays and objects, limited to 10000 of them as the
  library's scanner is. A \<open>map[string]interface{}\<close> is an association list sorted by key, the
  order in which \<open>Marshal\<close> prints it. A number decoded into an \<open>interface{}\<close> is a \<open>float64\<close>: it
  is represented by the text \<open>Marshal\<close> prints for it, and the function \<open>fl\<close> that rounds a
  number literal to that text (\<open>None\<close> when it is out of range) is a parameter.
\<close>

section \<open>UTF-8\<close>

definition cont :: "char \<Rightarrow> bool" where
  "cont c = (0x80 \<le> ord c \<and> ord c \<le> 0xBF)"

text \<open>The length of the well-formed sequence a string starts with, 0 if it starts with none
  (\<open>utf8.DecodeRune\<close> then reports \<open>RuneError\<close> and one byte).\<close>

fun utf8_len :: "string \<Rightarrow> nat" where
  "utf8_len [] = 0"
| "utf8_len (a # s) =
     (let x = ord a in
      if x < 0x80 then 1
      else if 0xC2 \<le> x \<and> x \<le> 0xDF then (case s of b # _ \<Rightarrow> if cont b then 2 else 0 | _ \<Rightarrow> 0)
      else if 0xE0 \<le> x \<and> x \<le> 0xEF then
        (case s of b # c # _ \<Rightarrow>
           if cont b \<and> cont c \<and> (x = 0xE0 \<longrightarrow> 0xA0 \<le> ord b) \<and> (x = 0xED \<longrightarrow> ord b \<le> 0x9F)
           then 3 else 0 | _ \<Rightarrow> 0)
      else if 0xF0 \<le> x \<and> x \<le> 0xF4 then
        (case s of b # c # d # _ \<Rightarrow>
           if cont b \<and> cont c \<and> cont d \<and> (x = 0xF0 \<longrightarrow> 0x90 \<le> ord b) \<and> (x = 0xF4 \<longrightarrow> ord b \<le> 0x8F)
           then 4 else 0 | _ \<Rightarrow> 0)
      else 0)"

definition encode_rune :: "nat \<Rightarrow> string" where
  "encode_rune r =
     map char_of
      (if r < 0x80 then [r]
       else if r < 0x800 then [0xC0 + r div 0x40, 0x80 + r mod 0x40]
       else if r < 0x10000 then [0xE0 + r div 0x1000, 0x80 + r div 0x40 mod 0x40, 0x80 + r mod 0x40]
       else [0xF0 + r div 0x40000, 0x80 + r div 0x1000 mod 0x40, 0x80 + r div 0x40 mod 0x40,
             0x80 + r mod 0x40])"

definition rune_error :: string where
  "rune_error = map char_of [0xEF, 0xBF, 0xBD :: nat]"

lemma utf8_len_le: "utf8_len s \<le> length s"
  by (induction s rule: utf8_len.induct) (auto simp: Let_def split: list.splits)

lemma utf8_len_append: "utf8_len s = n \<Longrightarrow> 0 < n \<Longrightarrow> utf8_len (take n s @ t) = n"
  by (induction s rule: utf8_len.induct) (auto simp: Let_def split: list.splits if_splits)

lemma utf8_len_ascii [simp]: "ord c < 0x80 \<Longrightarrow> utf8_len (c # cs) = 1"
  by simp

declare utf8_len.simps(2) [simp del]

text \<open>A string with every malformed byte replaced by the replacement character.\<close>

function (sequential) coerce_utf8 :: "string \<Rightarrow> string" where
  "coerce_utf8 [] = []"
| "coerce_utf8 (c # cs) =
     (let n = utf8_len (c # cs) in
      if n = 0 then rune_error @ coerce_utf8 cs
      else take n (c # cs) @ coerce_utf8 (drop n (c # cs)))"
  by pat_completeness auto
termination
  by (relation "measure length") auto

declare coerce_utf8.simps(2) [simp del]

section \<open>String literals\<close>

definition hex4 :: "nat \<Rightarrow> string" where
  "hex4 n = [hex_char (n div 4096 mod 16), hex_char (n div 256 mod 16), hex_char (n div 16 mod 16),
             hex_char (n mod 16)]"

definition quote_ascii :: "char \<Rightarrow> string" where
  "quote_ascii c =
     (if c = CHR 0x22 \<or> c = CHR 0x5C then [CHR 0x5C, c]
      else if c = CHR 0x0A then [CHR 0x5C, CHR ''n'']
      else if c = CHR 0x0D then [CHR 0x5C, CHR ''r'']
      else if c = CHR 0x09 then [CHR 0x5C, CHR ''t'']
      else if ord c < 0x20 \<or> c \<in> {CHR ''<'', CHR ''>'', CHR ''&''}
      then [CHR 0x5C, CHR ''u''] @ hex4 (ord c)
      else [c])"

function (sequential) quote_body :: "string \<Rightarrow> string" where
  "quote_body [] = []"
| "quote_body (c # cs) =
     (let n = utf8_len (c # cs) in
      if ord c < 0x80 then quote_ascii c @ quote_body cs
      else if n = 0 then [CHR 0x5C, CHR ''u''] @ hex4 0xFFFD @ quote_body cs
      else if take n (c # cs) = encode_rune 0x2028
      then [CHR 0x5C, CHR ''u''] @ hex4 0x2028 @ quote_body (drop n (c # cs))
      else if take n (c # cs) = encode_rune 0x2029
      then [CHR 0x5C, CHR ''u''] @ hex4 0x2029 @ quote_body (drop n (c # cs))
      else take n (c # cs) @ quote_body (drop n (c # cs)))"
  by pat_completeness auto
termination
  by (relation "measure length") auto

declare quote_body.simps(2) [simp del]

definition quote :: "string \<Rightarrow> string" where
  "quote s = CHR 0x22 # quote_body s @ [CHR 0x22]"

definition hex_val :: "char \<Rightarrow> nat option" where
  "hex_val c =
     (if is_digit c then Some (ord c - 48)
      else if 97 \<le> ord c \<and> ord c \<le> 102 then Some (ord c - 87)
      else if 65 \<le> ord c \<and> ord c \<le> 70 then Some (ord c - 55)
      else None)"

fun getu4 :: "string \<Rightarrow> nat option" where
  "getu4 (a # b # c # d # _) =
     (case (hex_val a, hex_val b, hex_val c, hex_val d) of
        (Some w, Some x, Some y, Some z) \<Rightarrow> Some (4096 * w + 256 * x + 16 * y + z)
      | _ \<Rightarrow> None)"
| "getu4 _ = None"

definition unescape :: "char \<Rightarrow> char option" where
  "unescape e =
     (if e \<in> {CHR 0x22, CHR 0x5C, CHR ''/''} then Some e
      else if e = CHR ''b'' then Some (CHR 0x08)
      else if e = CHR ''f'' then Some (CHR 0x0C)
      else if e = CHR ''n'' then Some (CHR 0x0A)
      else if e = CHR ''r'' then Some (CHR 0x0D)
      else if e = CHR ''t'' then Some (CHR 0x09)
      else None)"

definition prepend :: "string \<Rightarrow> (string \<times> string) option \<Rightarrow> (string \<times> string) option" where
  "prepend xs r = map_option (\<lambda>(s, rest). (xs @ s, rest)) r"

text \<open>What a \<open>\u\<close> escape stands for, and how many characters of the rest it takes: a surrogate
  counts only together with a low surrogate right behind it.\<close>

definition unescape_u :: "nat \<Rightarrow> string \<Rightarrow> string \<times> nat" where
  "unescape_u rr rest =
     (if 0xD800 \<le> rr \<and> rr < 0xE000 then
        (case (if take 2 rest = [CHR 0x5C, CHR ''u''] then getu4 (drop 2 rest) else None) of
           Some rr1 \<Rightarrow>
             if rr < 0xDC00 \<and> 0xDC00 \<le> rr1 \<and> rr1 < 0xE000
             then (encode_rune (0x10000 + (rr - 0xD800) * 0x400 + (rr1 - 0xDC00)), 6)
             else (rune_error, 0)
         | None \<Rightarrow> (rune_error, 0))
      else (encode_rune rr, 0))"

text \<open>Reads the rest of a string literal, after its opening quote.\<close>

function (sequential) lex_str :: "string \<Rightarrow> (string \<times> string) option" where
  "lex_str [] = None"
| "lex_str (c # cs) =
     (if c = CHR 0x22 then Some ([], cs)
      else if c = CHR 0x5C then
        (case cs of
           [] \<Rightarrow> None
         | e # r \<Rightarrow>
             (case unescape e of
                Some b \<Rightarrow> prepend [b] (lex_str r)
              | None \<Rightarrow>
                  if e \<noteq> CHR ''u'' then None
                  else (case getu4 r of
                          None \<Rightarrow> None
                        | Some rr \<Rightarrow>
                            let (s, k) = unescape_u rr (drop 4 r)
                            in prepend s (lex_str (drop (4 + k) r)))))
      else if ord c < 0x20 then None
      else if utf8_len (c # cs) = 0 then prepend rune_error (lex_str cs)
      else prepend (take (utf8_len (c # cs)) (c # cs)) (lex_str (drop (utf8_len (c # cs)) (c # cs))))"
  by pat_completeness auto
termination
  by (relation "measure length") auto

declare lex_str.simps(2) [simp del]

subsection \<open>Reading a printed string literal\<close>

lemma prepend_Some [simp]: "prepend xs (Some (s, r)) = Some (xs @ s, r)"
  by (simp add: prepend_def)

lemma hex_val_hex_char [simp]: "d < 16 \<Longrightarrow> hex_val (hex_char d) = Some d"
  by (auto simp: hex_val_def hex_char_def is_digit_def)

lemma getu4_hex4 [simp]: "n < 65536 \<Longrightarrow> getu4 (hex4 n @ t) = Some n"
proof -
  assume n: "n < 65536"
  define a b c where "a = n div 16" and "b = a div 16" and "c = b div 16"
  have "n div 256 = b" "n div 4096 = c" by (simp_all add: a_def b_def c_def div_mult2_eq [symmetric])
  moreover have "c < 16" using n by (simp add: a_def b_def c_def div_mult2_eq [symmetric])
  moreover have "n = 16 * a + n mod 16" "a = 16 * b + a mod 16" "b = 16 * c + b mod 16"
    by (simp_all add: a_def b_def c_def)
  ultimately show ?thesis by (simp add: hex4_def flip: a_def)
qed

lemma length_hex4 [simp]: "length (hex4 n) = 4"
  by (simp add: hex4_def)

lemma lex_str_u:
  assumes "n < 0xD800 \<or> 0xE000 \<le> n" "n < 65536"
  shows "lex_str ([CHR 0x5C, CHR ''u''] @ hex4 n @ t) = prepend (encode_rune n) (lex_str t)"
proof -
  have "unescape_u n (drop 4 (hex4 n @ t)) = (encode_rune n, 0)"
    using assms(1) by (auto simp: unescape_u_def)
  then show ?thesis
    using assms(2) by (simp add: lex_str.simps(2) unescape_def)
qed

lemma lex_str_raw:
  assumes "utf8_len s = n" "0 < n" "s \<noteq> []" "\<not> ord (hd s) < 0x20" "hd s \<noteq> CHR 0x22" "hd s \<noteq> CHR 0x5C"
  shows "lex_str (take n s @ t) = prepend (take n s) (lex_str t)"
proof -
  obtain c cs where s: "s = c # cs" using assms(3) by (cases s) auto
  obtain m where n: "n = Suc m" using assms(2) by (cases n) auto
  have len: "utf8_len (take n s @ t) = n" using utf8_len_append assms by simp
  have "length (take n s) = n" using assms(1) utf8_len_le [of s] by simp
  then show ?thesis
    using assms(4-6) len by (simp add: s n lex_str.simps(2))
qed

lemma encode_rune_error: "encode_rune 0xFFFD = rune_error"
  by (simp add: encode_rune_def rune_error_def)

lemma encode_rune_ascii: "ord c < 0x80 \<Longrightarrow> encode_rune (ord c) = [c]"
  by (simp add: encode_rune_def)

lemma lex_str_ascii:
  assumes "ord c < 0x80"
  shows "lex_str (quote_ascii c @ t) = prepend [c] (lex_str t)"
proof -
  consider "c = CHR 0x22 \<or> c = CHR 0x5C \<or> c = CHR 0x0A \<or> c = CHR 0x0D \<or> c = CHR 0x09"
    | "\<not> (c = CHR 0x22 \<or> c = CHR 0x5C \<or> c = CHR 0x0A \<or> c = CHR 0x0D \<or> c = CHR 0x09)"
      "ord c < 0x20 \<or> c \<in> {CHR ''<'', CHR ''>'', CHR ''&''}"
    | "\<not> (c = CHR 0x22 \<or> c = CHR 0x5C \<or> c = CHR 0x0A \<or> c = CHR 0x0D \<or> c = CHR 0x09)"
      "\<not> (ord c < 0x20 \<or> c \<in> {CHR ''<'', CHR ''>'', CHR ''&''})"
    by blast
  then show ?thesis
  proof cases
    case 1
    then show ?thesis by (elim disjE) (simp_all add: quote_ascii_def lex_str.simps(2) unescape_def)
  next
    case 2
    then have "quote_ascii c = [CHR 0x5C, CHR ''u''] @ hex4 (ord c)"
      unfolding quote_ascii_def by presburger
    moreover have "lex_str (([CHR 0x5C, CHR ''u''] @ hex4 (ord c)) @ t) = prepend (encode_rune (ord c)) (lex_str t)"
      using lex_str_u [of "ord c" t] assms by simp
    ultimately show ?thesis using encode_rune_ascii [OF assms] by simp
  next
    case 3
    then have "quote_ascii c = [c]" unfolding quote_ascii_def by presburger
    then show ?thesis using lex_str_raw [of "[c]" 1 t] assms 3 by simp
  qed
qed

lemma lex_str_quote_body:
  "lex_str (quote_body s @ CHR 0x22 # t) = Some (coerce_utf8 s, t)"
proof (induction s rule: quote_body.induct)
  case 1
  show ?case by (simp add: lex_str.simps(2))
next
  case (2 c cs)
  define n where "n = utf8_len (c # cs)"
  let ?s = "c # cs"
  note IH = 2 [OF n_def]
  show ?case
  proof (cases "ord c < 0x80")
    case True
    then have "n = 1" by (simp add: n_def)
    then show ?thesis
      using IH(1) True by (simp add: quote_body.simps(2) coerce_utf8.simps(2) lex_str_ascii n_def)
  next
    case high: False
    have c: "\<not> ord (hd ?s) < 0x20" "hd ?s \<noteq> CHR 0x22" "hd ?s \<noteq> CHR 0x5C"
      using high by auto
    show ?thesis
    proof (cases "n = 0")
      case True
      then show ?thesis
        using IH(2) high lex_str_u [of "0xFFFD" "quote_body cs @ CHR 0x22 # t"]
        by (simp add: quote_body.simps(2) coerce_utf8.simps(2) encode_rune_error Let_def flip: n_def)
    next
      case False
      have drop: "lex_str (quote_body (drop n ?s) @ CHR 0x22 # t) = Some (coerce_utf8 (drop n ?s), t)"
        using IH(3-5) [OF high False] by blast
      have co: "coerce_utf8 ?s = take n ?s @ coerce_utf8 (drop n ?s)"
        using False by (simp add: coerce_utf8.simps(2) Let_def flip: n_def)
      have raw: "lex_str (take n ?s @ x) = prepend (take n ?s) (lex_str x)" for x
        using lex_str_raw [OF n_def [symmetric] _ _ c] False by simp
      have esc: "lex_str ([CHR 0x5C, CHR ''u''] @ hex4 m @ x) = prepend (encode_rune m) (lex_str x)"
        if "m = 0x2028 \<or> m = 0x2029" for m x
        using lex_str_u [of m x] that by auto
      consider "take n ?s = encode_rune 0x2028"
        | "take n ?s \<noteq> encode_rune 0x2028" "take n ?s = encode_rune 0x2029"
        | "take n ?s \<noteq> encode_rune 0x2028" "take n ?s \<noteq> encode_rune 0x2029" by blast
      then show ?thesis
      proof cases
        case 1
        then have "quote_body ?s = [CHR 0x5C, CHR ''u''] @ hex4 0x2028 @ quote_body (drop n ?s)"
          using high False by (simp add: quote_body.simps(2) Let_def flip: n_def)
        then show ?thesis using esc [of "0x2028"] 1 drop co by simp
      next
        case 2
        then have "quote_body ?s = [CHR 0x5C, CHR ''u''] @ hex4 0x2029 @ quote_body (drop n ?s)"
          using high False by (simp add: quote_body.simps(2) Let_def flip: n_def)
        then show ?thesis using esc [of "0x2029"] 2 drop co by simp
      next
        case 3
        then have "quote_body ?s = take n ?s @ quote_body (drop n ?s)"
          using high False by (simp add: quote_body.simps(2) Let_def flip: n_def)
        then show ?thesis using raw drop co by simp
      qed
    qed
  qed
qed

section \<open>Values and Marshal\<close>

datatype json =
    JNull
  | JBool bool
  | JNum string
  | JStr string
  | JArr "json list"
  | JObj "(string \<times> json) list"

definition join :: "string \<Rightarrow> string list \<Rightarrow> string" where
  "join sep xs = (case xs of [] \<Rightarrow> [] | y # ys \<Rightarrow> y @ concat (map (\<lambda>z. sep @ z) ys))"

fun Marshal :: "json \<Rightarrow> string" where
  "Marshal JNull = ''null''"
| "Marshal (JBool b) = (if b then ''true'' else ''false'')"
| "Marshal (JNum l) = l"
| "Marshal (JStr s) = quote s"
| "Marshal (JArr vs) = ''['' @ join '','' (map Marshal vs) @ '']''"
| "Marshal (JObj kvs) = ''{'' @ join '','' (map (\<lambda>(k, v). quote k @ '':'' @ Marshal v) kvs) @ ''}''"

section \<open>Unmarshal\<close>

datatype token =
    TStr string
  | TNum string
  | TTrue
  | TFalse
  | TNull
  | TLBrack
  | TRBrack
  | TLBrace
  | TRBrace
  | TColon
  | TComma

subsection \<open>Numbers\<close>

definition num_char :: "char \<Rightarrow> bool" where
  "num_char c = (is_digit c \<or> c \<in> {CHR ''+'', CHR ''-'', CHR ''.'', CHR ''e'', CHR ''E''})"

definition valid_exp :: "string \<Rightarrow> bool" where
  "valid_exp s =
     (case s of
        [] \<Rightarrow> True
      | c # r \<Rightarrow> c \<in> {CHR ''e'', CHR ''E''} \<and>
          (let d = (if r \<noteq> [] \<and> hd r \<in> {CHR ''+'', CHR ''-''} then tl r else r)
           in d \<noteq> [] \<and> list_all is_digit d))"

definition valid_frac :: "string \<Rightarrow> bool" where
  "valid_frac s =
     (case s of
        [] \<Rightarrow> True
      | c # r \<Rightarrow> if c = CHR ''.'' then takeWhile is_digit r \<noteq> [] \<and> valid_exp (dropWhile is_digit r)
                 else valid_exp s)"

definition valid_number :: "string \<Rightarrow> bool" where
  "valid_number s =
     (case (if s \<noteq> [] \<and> hd s = CHR ''-'' then tl s else s) of
        [] \<Rightarrow> False
      | c # r \<Rightarrow> if c = CHR ''0'' then valid_frac r
                 else is_digit c \<and> valid_frac (dropWhile is_digit r))"

subsection \<open>The lexer\<close>

definition json_space :: "char \<Rightarrow> bool" where
  "json_space c = (c \<in> {CHR 0x20, CHR 0x09, CHR 0x0D, CHR 0x0A})"

definition punct :: "char \<Rightarrow> token option" where
  "punct c =
     map_of [(CHR ''['', TLBrack), (CHR '']'', TRBrack), (CHR ''{'', TLBrace), (CHR ''}'', TRBrace),
             (CHR '':'', TColon), (CHR '','', TComma)] c"

lemma prepend_NoneD: "prepend xs r = Some (s, t) \<Longrightarrow> \<exists>s'. r = Some (s', t)"
  by (auto simp: prepend_def)

lemma lex_str_length: "lex_str s = Some (x, r) \<Longrightarrow> length r < length s"
proof (induction "length s" arbitrary: s x rule: less_induct)
  case less
  obtain c cs where s: "s = c # cs" using less.prems by (cases s) auto
  have sub: "length r < length (c # cs)" if "lex_str t = Some (y, r)" "length t \<le> length cs" for t y
    using less.hyps [of t y] that s by simp
  have pos: "0 < n \<Longrightarrow> length (drop n (c # cs)) \<le> length cs" for n by (cases n) auto
  show ?case
    using less.prems unfolding s
    by (subst (asm) lex_str.simps(2))
      (auto simp: Let_def split: if_splits list.splits option.splits prod.splits
        dest!: prepend_NoneD dest: sub sub [OF _ pos])
qed

function (sequential) lex :: "string \<Rightarrow> token list option" where
  "lex [] = Some []"
| "lex (c # cs) =
     (if json_space c then lex cs
      else case punct c of
        Some t \<Rightarrow> map_option ((#) t) (lex cs)
      | None \<Rightarrow>
          if c = CHR 0x22 then
            (case lex_str cs of None \<Rightarrow> None | Some (s, r) \<Rightarrow> map_option ((#) (TStr s)) (lex r))
          else if is_digit c \<or> c = CHR ''-'' then
            if valid_number (takeWhile num_char (c # cs))
            then map_option ((#) (TNum (takeWhile num_char (c # cs))))
                   (lex (dropWhile num_char cs))
            else None
          else if prefix ''true'' (c # cs) then map_option ((#) TTrue) (lex (drop 3 cs))
          else if prefix ''null'' (c # cs) then map_option ((#) TNull) (lex (drop 3 cs))
          else if prefix ''false'' (c # cs) then map_option ((#) TFalse) (lex (drop 4 cs))
          else None)"
  by pat_completeness auto
termination
  by (relation "measure length")
    (auto simp: less_Suc_eq_le length_dropWhile_le dest!: lex_str_length)

declare lex.simps(2) [simp del]

subsection \<open>The parser\<close>

fun put :: "string \<Rightarrow> 'v \<Rightarrow> (string \<times> 'v) list \<Rightarrow> (string \<times> 'v) list" where
  "put k v [] = [(k, v)]"
| "put k v ((k', v') # r) =
     (if k < k' then (k, v) # (k', v') # r
      else if k = k' then (k, v) # r
      else (k', v') # put k v r)"

datatype frame = FArr "json list" | FObj "(string \<times> json) list" string

datatype mode = Val | ArrFirst | ObjFirst | Key | Colon | Next | Done json

definition max_depth :: nat where
  "max_depth = 10000"

text \<open>A value is complete: it goes into the innermost open array or object.\<close>

fun complete :: "json \<Rightarrow> frame list \<Rightarrow> frame list \<times> mode" where
  "complete v [] = ([], Done v)"
| "complete v (FArr vs # st) = (FArr (v # vs) # st, Next)"
| "complete v (FObj kvs k # st) = (FObj (put k v kvs) k # st, Next)"

definition open_frame :: "frame \<Rightarrow> mode \<Rightarrow> frame list \<Rightarrow> (frame list \<times> mode) option" where
  "open_frame f m st = (if Suc (length st) \<le> max_depth then Some (f # st, m) else None)"

definition value_step :: "(string \<Rightarrow> string option) \<Rightarrow> token \<Rightarrow> frame list \<Rightarrow> (frame list \<times> mode) option" where
  "value_step fl t st =
     (case t of
        TNull \<Rightarrow> Some (complete JNull st)
      | TTrue \<Rightarrow> Some (complete (JBool True) st)
      | TFalse \<Rightarrow> Some (complete (JBool False) st)
      | TStr s \<Rightarrow> Some (complete (JStr s) st)
      | TNum l \<Rightarrow> (case fl l of None \<Rightarrow> None | Some l' \<Rightarrow> Some (complete (JNum l') st))
      | TLBrack \<Rightarrow> open_frame (FArr []) ArrFirst st
      | TLBrace \<Rightarrow> open_frame (FObj [] []) ObjFirst st
      | _ \<Rightarrow> None)"

fun json_step ::
  "(string \<Rightarrow> string option) \<Rightarrow> token \<Rightarrow> frame list \<times> mode \<Rightarrow> (frame list \<times> mode) option" where
  "json_step fl t (st, Val) = value_step fl t st"
| "json_step fl TRBrack (FArr vs # st, ArrFirst) = Some (complete (JArr (rev vs)) st)"
| "json_step fl t (st, ArrFirst) = value_step fl t st"
| "json_step fl TRBrace (FObj kvs k # st, ObjFirst) = Some (complete (JObj kvs) st)"
| "json_step fl (TStr k') (FObj kvs k # st, ObjFirst) = Some (FObj kvs k' # st, Colon)"
| "json_step fl (TStr k') (FObj kvs k # st, Key) = Some (FObj kvs k' # st, Colon)"
| "json_step fl TColon (st, Colon) = Some (st, Val)"
| "json_step fl TComma (FArr vs # st, Next) = Some (FArr vs # st, Val)"
| "json_step fl TRBrack (FArr vs # st, Next) = Some (complete (JArr (rev vs)) st)"
| "json_step fl TComma (FObj kvs k # st, Next) = Some (FObj kvs k # st, Key)"
| "json_step fl TRBrace (FObj kvs k # st, Next) = Some (complete (JObj kvs) st)"
| "json_step fl _ _ = None"

fun json_run ::
  "(string \<Rightarrow> string option) \<Rightarrow> token list \<Rightarrow> frame list \<times> mode \<Rightarrow> json option" where
  "json_run fl [] (st, m) = (case m of Done v \<Rightarrow> Some v | _ \<Rightarrow> None)"
| "json_run fl (t # ts) s = (case json_step fl t s of None \<Rightarrow> None | Some s' \<Rightarrow> json_run fl ts s')"

definition Unmarshal :: "(string \<Rightarrow> string option) \<Rightarrow> string \<Rightarrow> json option" where
  "Unmarshal fl s = (case lex s of None \<Rightarrow> None | Some ts \<Rightarrow> json_run fl ts ([], Val))"

text \<open>The targets the exporter decodes into. A JSON \<open>null\<close> leaves a map nil and a string
  empty, as the library does.\<close>

definition Unmarshal_map ::
  "(string \<Rightarrow> string option) \<Rightarrow> string \<Rightarrow> (string \<times> json) list option result" where
  "Unmarshal_map fl s =
     (case Unmarshal fl s of
        Some (JObj kvs) \<Rightarrow> Inr (Some kvs)
      | Some JNull \<Rightarrow> Inr None
      | _ \<Rightarrow> Inl (New ''json: cannot unmarshal''))"

fun json_strings :: "json list \<Rightarrow> string list option" where
  "json_strings [] = Some []"
| "json_strings (JStr s # vs) = map_option ((#) s) (json_strings vs)"
| "json_strings (JNull # vs) = map_option ((#) []) (json_strings vs)"
| "json_strings _ = None"

definition Unmarshal_strings :: "(string \<Rightarrow> string option) \<Rightarrow> string \<Rightarrow> string list result" where
  "Unmarshal_strings fl s =
     (case Unmarshal fl s of
        Some (JArr vs) \<Rightarrow> (case json_strings vs of
            Some ss \<Rightarrow> Inr ss | None \<Rightarrow> Inl (New ''json: cannot unmarshal''))
      | Some JNull \<Rightarrow> Inr []
      | _ \<Rightarrow> Inl (New ''json: cannot unmarshal''))"

section \<open>Reading back what was printed\<close>

text \<open>
  \<open>normal\<close> is what a value becomes on its way through \<open>Marshal\<close> and \<open>Unmarshal\<close>: malformed bytes
  are replaced, and the entries of an object are sorted, the last one winning. \<open>nums_ok\<close> asks
  that every number is one \<open>Marshal\<close> prints: a JSON number literal that \<open>fl\<close> leaves alone.
\<close>

fun normal :: "json \<Rightarrow> json" where
  "normal (JStr s) = JStr (coerce_utf8 s)"
| "normal (JArr vs) = JArr (map normal vs)"
| "normal (JObj kvs) =
     JObj (foldl (\<lambda>a (k, v). put (coerce_utf8 k) v a) [] (map (\<lambda>(k, v). (k, normal v)) kvs))"
| "normal v = v"

fun nums_ok :: "(string \<Rightarrow> string option) \<Rightarrow> json \<Rightarrow> bool" where
  "nums_ok fl (JNum l) = (valid_number l \<and> fl l = Some l)"
| "nums_ok fl (JArr vs) = (\<forall>v \<in> set vs. nums_ok fl v)"
| "nums_ok fl (JObj kvs) = (\<forall>kv \<in> set kvs. nums_ok fl (snd kv))"
| "nums_ok fl v = True"

fun depth :: "json \<Rightarrow> nat" where
  "depth (JArr vs) = Suc (fold max (map depth vs) 0)"
| "depth (JObj kvs) = Suc (fold max (map (\<lambda>kv. depth (snd kv)) kvs) 0)"
| "depth v = 0"

definition sep :: "token list list \<Rightarrow> token list" where
  "sep xs = (case xs of [] \<Rightarrow> [] | y # ys \<Rightarrow> y @ concat (map (\<lambda>z. TComma # z) ys))"

fun toks :: "json \<Rightarrow> token list" where
  "toks JNull = [TNull]"
| "toks (JBool b) = [if b then TTrue else TFalse]"
| "toks (JNum l) = [TNum l]"
| "toks (JStr s) = [TStr (coerce_utf8 s)]"
| "toks (JArr vs) = TLBrack # sep (map toks vs) @ [TRBrack]"
| "toks (JObj kvs) =
     TLBrace # sep (map (\<lambda>(k, v). TStr (coerce_utf8 k) # TColon # toks v) kvs) @ [TRBrace]"

subsection \<open>The lexer reads the printed text as its tokens\<close>

definition delim :: "string \<Rightarrow> bool" where
  "delim r = (r = [] \<or> \<not> num_char (hd r))"

lemma digits_num_char: "list_all is_digit s \<Longrightarrow> list_all num_char s"
  by (auto simp: list_all_iff num_char_def)

lemma valid_exp_num: "valid_exp s \<Longrightarrow> list_all num_char s"
proof (cases s)
  case (Cons c r)
  assume v: "valid_exp s"
  have "list_all num_char (if r \<noteq> [] \<and> hd r \<in> {CHR ''+'', CHR ''-''} then tl r else r)"
    using v Cons by (auto simp: valid_exp_def Let_def intro!: digits_num_char split: if_splits)
  then have "list_all num_char r"
    by (cases r) (auto simp: num_char_def split: if_splits)
  then show ?thesis using v Cons by (auto simp: valid_exp_def num_char_def)
qed simp

lemma takeWhile_digits: "list_all num_char (takeWhile is_digit s)"
  by (auto simp: list_all_iff num_char_def dest: set_takeWhileD)

lemma num_char_split: "list_all num_char (dropWhile is_digit s) \<Longrightarrow> list_all num_char s"
  using takeWhile_digits [of s] takeWhile_dropWhile_id [of is_digit s] by (metis list_all_append)

lemma valid_frac_num: "valid_frac s \<Longrightarrow> list_all num_char s"
proof (cases s)
  case (Cons c r)
  assume v: "valid_frac s"
  show ?thesis
  proof (cases "c = CHR ''.''")
    case True
    then have "valid_exp (dropWhile is_digit r)" using v Cons by (simp add: valid_frac_def)
    then have "list_all num_char r" by (rule num_char_split [OF valid_exp_num])
    then show ?thesis using True Cons by (simp add: num_char_def)
  next
    case False
    then show ?thesis using v Cons valid_exp_num [of s] by (simp add: valid_frac_def)
  qed
qed simp

lemma valid_number_chars:
  assumes "valid_number l"
  shows "list_all num_char l" and "l \<noteq> []" and "is_digit (hd l) \<or> hd l = CHR ''-''"
proof -
  define m where "m = (if l \<noteq> [] \<and> hd l = CHR ''-'' then tl l else l)"
  obtain c r where m: "m = c # r" and v: "if c = CHR ''0'' then valid_frac r
      else is_digit c \<and> valid_frac (dropWhile is_digit r)"
    using assms by (auto simp: valid_number_def m_def split: list.splits)
  have zero: "is_digit CHR ''0''" by (simp add: is_digit_def)
  have c: "is_digit c" using v zero by (auto split: if_splits)
  have "list_all num_char r"
    using v by (auto split: if_splits intro: valid_frac_num num_char_split)
  with c have "list_all num_char m" by (simp add: m num_char_def)
  then show "list_all num_char l" and "l \<noteq> []" and "is_digit (hd l) \<or> hd l = CHR ''-''"
    using m c by (auto simp: m_def num_char_def split: if_splits, (cases l, auto simp: num_char_def)+)
qed

lemma lex_number:
  assumes "valid_number l" "delim r"
  shows "lex (l @ r) = map_option ((#) (TNum l)) (lex r)"
proof -
  note l = valid_number_chars [OF assms(1)]
  obtain c cs where lc: "l = c # cs" using l(2) by (cases l) auto
  have c: "is_digit c \<or> c = CHR ''-''" "num_char c" using l(1,3) lc by auto
  have "\<not> json_space c" "punct c = None" "c \<noteq> CHR 0x22"
    using c(1) by (auto simp: json_space_def punct_def is_digit_def)
  moreover have "takeWhile num_char (l @ r) = l" "dropWhile num_char (l @ r) = r"
    using l(1) assms(2) by (cases r; auto simp: delim_def list_all_iff)+
  ultimately show ?thesis
    using c assms(1) by (auto simp: lc lex.simps(2))
qed

lemma lex_punct: "punct c = Some t \<Longrightarrow> lex (c # r) = map_option ((#) t) (lex r)"
  by (auto simp: lex.simps(2) json_space_def punct_def split: if_splits)

lemma lex_quote: "lex (quote s @ r) = map_option ((#) (TStr (coerce_utf8 s))) (lex r)"
  by (simp add: quote_def lex.simps(2) json_space_def punct_def lex_str_quote_body)

lemma lex_word:
  "lex (''true'' @ r) = map_option ((#) TTrue) (lex r)"
  "lex (''false'' @ r) = map_option ((#) TFalse) (lex r)"
  "lex (''null'' @ r) = map_option ((#) TNull) (lex r)"
  by (simp_all add: lex.simps(2) json_space_def punct_def is_digit_def)

text \<open>A comma-separated list, from its printed elements to their tokens.\<close>

lemma lex_join:
  assumes "\<And>x r. \<lbrakk>x \<in> set xs; delim r\<rbrakk> \<Longrightarrow> lex (f x @ r) = map_option ((@) (g x)) (lex r)" "delim r"
  shows "lex (join '','' (map f xs) @ r) = map_option ((@) (sep (map g xs))) (lex r)"
proof -
  have comma: "lex (CHR '','' # s) = map_option ((#) TComma) (lex s)" for s
    by (rule lex_punct) (simp add: punct_def)
  have tail: "set ys \<subseteq> set xs \<Longrightarrow>
      lex (concat (map (\<lambda>x. '','' @ f x) ys) @ r) =
        map_option ((@) (concat (map (\<lambda>x. TComma # g x) ys))) (lex r) \<and>
      delim (concat (map (\<lambda>x. '','' @ f x) ys) @ r)" for ys
  proof (induction ys)
    case Nil
    show ?case using assms(2) by (cases "lex r") simp_all
  next
    case (Cons y ys)
    let ?t = "concat (map (\<lambda>x. '','' @ f x) ys) @ r"
    have ih: "lex ?t = map_option ((@) (concat (map (\<lambda>x. TComma # g x) ys))) (lex r)" "delim ?t"
      using Cons.IH Cons.prems by simp_all
    have "lex (f y @ ?t) = map_option ((@) (g y)) (lex ?t)"
      using Cons.prems by (intro assms(1) ih(2)) simp
    then show ?case
      using ih by (cases "lex r") (simp_all add: comma delim_def num_char_def is_digit_def)
  qed
  show ?thesis
  proof (cases xs)
    case Nil
    then show ?thesis by (cases "lex r") (simp_all add: join_def sep_def)
  next
    case (Cons x ys)
    let ?t = "concat (map (\<lambda>x. '','' @ f x) ys) @ r"
    have "set ys \<subseteq> set xs" "x \<in> set xs" using Cons by auto
    then have "lex (f x @ ?t) = map_option ((@) (g x)) (lex ?t)"
      "lex ?t = map_option ((@) (concat (map (\<lambda>x. TComma # g x) ys))) (lex r)"
      using tail [of ys] assms(1) [of x ?t] by blast+
    then show ?thesis
      using Cons by (cases "lex r") (simp_all add: join_def sep_def comp_def)
  qed
qed

lemma lex_Marshal:
  "\<lbrakk>nums_ok fl v; delim r\<rbrakk> \<Longrightarrow> lex (Marshal v @ r) = map_option ((@) (toks v)) (lex r)"
proof (induction v arbitrary: r)
  case JNull
  then show ?case using lex_word [of r] by (simp add: comp_def)
next
  case (JBool b)
  then show ?case using lex_word [of r] by (cases b) (simp_all add: comp_def)
next
  case (JNum l)
  then show ?case using lex_number [of l r] by simp
next
  case (JStr s)
  then show ?case by (simp add: lex_quote)
next
  case (JArr vs)
  have d: "delim (CHR '']'' # r)" by (simp add: delim_def num_char_def is_digit_def)
  have "lex (join '','' (map Marshal vs) @ CHR '']'' # r) =
      map_option ((@) (sep (map toks vs))) (lex (CHR '']'' # r))"
    by (rule lex_join [OF _ d]) (use JArr in auto)
  then show ?case
    by (simp add: lex_punct punct_def option.map_comp comp_def)
next
  case (JObj kvs)
  have d: "delim (CHR ''}'' # r)" by (simp add: delim_def num_char_def is_digit_def)
  have "lex (join '','' (map (\<lambda>(k, v). quote k @ '':'' @ Marshal v) kvs) @ CHR ''}'' # r) =
      map_option ((@) (sep (map (\<lambda>(k, v). TStr (coerce_utf8 k) # TColon # toks v) kvs)))
        (lex (CHR ''}'' # r))"
  proof (rule lex_join [OF _ d], clarify)
    fix k v s assume kv: "(k, v) \<in> set kvs" and s: "delim s"
    then have "lex (Marshal v @ s) = map_option ((@) (toks v)) (lex s)"
      using JObj.IH [of "(k, v)" v s] JObj.prems(1) by auto
    then show "lex ((quote k @ '':'' @ Marshal v) @ s) =
        map_option ((@) (TStr (coerce_utf8 k) # TColon # toks v)) (lex s)"
      using lex_quote [of k "'':'' @ Marshal v @ s"]
      by (cases "lex s") (simp_all add: lex_punct punct_def)
  qed
  then show ?case
    by (simp add: lex_punct punct_def option.map_comp comp_def)
qed

subsection \<open>The machine rebuilds the value from its tokens\<close>

lemma fold_max_le: "x \<in> set xs \<Longrightarrow> x \<le> fold max xs (a::nat)"
proof (induction xs arbitrary: a)
  case (Cons y ys)
  have "b \<le> fold max zs b" for zs and b :: nat
    by (induction zs arbitrary: b) (auto intro: le_trans [OF max.cobounded2])
  from this [of "max y a" ys] Cons show ?case by auto
qed simp

definition value_mode :: "mode \<Rightarrow> bool" where
  "value_mode m = (m = Val \<or> m = ArrFirst)"

lemma json_step_value:
  "\<lbrakk>value_mode m; t \<noteq> TRBrack\<rbrakk> \<Longrightarrow> json_step fl t (st, m) = value_step fl t st"
  by (cases t; cases st; cases "hd st") (auto simp: value_mode_def)

lemma toks_not_RBrack: "\<exists>t ts. toks v = t # ts \<and> t \<noteq> TRBrack"
  by (cases v) auto

lemma run_elems:
  assumes "\<And>v st ts m. \<lbrakk>v \<in> set vs; length st = n; value_mode m\<rbrakk> \<Longrightarrow>
      json_run fl (toks v @ ts) (st, m) = json_run fl ts (complete (normal v) st)"
    and "length (FArr acc # st) = n"
  shows "json_run fl (concat (map (\<lambda>z. TComma # z) (map toks vs)) @ TRBrack # ts) (FArr acc # st, Next) =
    json_run fl ts (complete (JArr (rev acc @ map normal vs)) st)"
  using assms
proof (induction vs arbitrary: acc)
  case Nil
  then show ?case by simp
next
  case (Cons v vs)
  have "json_run fl (toks v @ x) (FArr acc # st, Val) = json_run fl x (FArr (normal v # acc) # st, Next)" for x
    using Cons.prems by (simp add: value_mode_def)
  then show ?case using Cons.IH [of "normal v # acc"] Cons.prems by simp
qed

lemma run_fields:
  assumes "\<And>k v st ts m. \<lbrakk>(k, v) \<in> set kvs; length st = n; value_mode m\<rbrakk> \<Longrightarrow>
      json_run fl (toks v @ ts) (st, m) = json_run fl ts (complete (normal v) st)"
    and "length (FObj acc k0 # st) = n"
  shows "json_run fl
      (concat (map (\<lambda>z. TComma # z) (map (\<lambda>(k, v). TStr (coerce_utf8 k) # TColon # toks v) kvs)) @
        TRBrace # ts) (FObj acc k0 # st, Next) =
    json_run fl ts (complete (JObj (foldl (\<lambda>a (k, v). put (coerce_utf8 k) v a) acc
      (map (\<lambda>(k, v). (k, normal v)) kvs))) st)"
  using assms
proof (induction kvs arbitrary: acc k0)
  case Nil
  then show ?case by simp
next
  case (Cons kv kvs)
  obtain k v where kv: "kv = (k, v)" by fastforce
  let ?k = "coerce_utf8 k"
  have "json_run fl (toks v @ x) (FObj acc ?k # st, Val) =
      json_run fl x (FObj (put ?k (normal v) acc) ?k # st, Next)" for x
    using Cons.prems(1) [of k v "FObj acc ?k # st" Val x] Cons.prems(2) kv by (simp add: value_mode_def)
  moreover have "json_run fl
      (concat (map (\<lambda>z. TComma # z) (map (\<lambda>(k, v). TStr (coerce_utf8 k) # TColon # toks v) kvs)) @
        TRBrace # ts) (FObj (put ?k (normal v) acc) ?k # st, Next) =
    json_run fl ts (complete (JObj (foldl (\<lambda>a (k, v). put (coerce_utf8 k) v a) (put ?k (normal v) acc)
      (map (\<lambda>(k, v). (k, normal v)) kvs))) st)"
    by (rule Cons.IH, rule Cons.prems(1)) (use Cons.prems(2) in auto)
  ultimately show ?case using kv by simp
qed

lemma run_toks:
  "\<lbrakk>nums_ok fl v; length st + depth v \<le> max_depth; value_mode m\<rbrakk> \<Longrightarrow>
    json_run fl (toks v @ ts) (st, m) = json_run fl ts (complete (normal v) st)"
proof (induction v arbitrary: st ts m)
  case (JArr vs)
  have open_ok: "open_frame (FArr []) ArrFirst st = Some (FArr [] # st, ArrFirst)"
    using JArr.prems(2) by (simp add: open_frame_def)
  have el: "json_run fl (toks v @ ts) (st', m) = json_run fl ts (complete (normal v) st')"
    if "v \<in> set vs" "length st' = Suc (length st)" "value_mode m" for v st' ts m
  proof (rule JArr.IH)
    show "length st' + depth v \<le> max_depth"
      using JArr.prems(2) that fold_max_le [of "depth v" "map depth vs" 0] by simp
  qed (use JArr.prems that in auto)
  show ?case
  proof (cases vs)
    case Nil
    then show ?thesis
      using JArr.prems open_ok by (simp add: json_step_value value_step_def sep_def)
  next
    case (Cons v ws)
    have "json_run fl (toks v @ x) (FArr [] # st, ArrFirst) = json_run fl x (FArr [normal v] # st, Next)" for x
      using el [of v "FArr [] # st" ArrFirst x] Cons by (simp add: value_mode_def)
    moreover have "json_run fl (concat (map (\<lambda>z. TComma # z) (map toks ws)) @ TRBrack # ts)
        (FArr [normal v] # st, Next) = json_run fl ts (complete (JArr (rev [normal v] @ map normal ws)) st)"
      by (rule run_elems [where n = "Suc (length st)"]) (use el Cons in auto)
    ultimately show ?thesis
      using JArr.prems open_ok Cons by (simp add: json_step_value value_step_def sep_def comp_def)
  qed
next
  case (JObj kvs)
  have open_ok: "open_frame (FObj [] []) ObjFirst st = Some (FObj [] [] # st, ObjFirst)"
    using JObj.prems(2) by (simp add: open_frame_def)
  have el: "json_run fl (toks v @ ts) (st', m) = json_run fl ts (complete (normal v) st')"
    if "(k, v) \<in> set kvs" "length st' = Suc (length st)" "value_mode m" for k v st' ts m
  proof (rule JObj.IH [OF that(1)])
    show "length st' + depth v \<le> max_depth"
      using JObj.prems(2) that fold_max_le [of "depth v" "map (\<lambda>kv. depth (snd kv)) kvs" 0]
      by force
  qed (use JObj.prems that in auto)
  show ?case
  proof (cases kvs)
    case Nil
    then show ?thesis
      using JObj.prems open_ok by (simp add: json_step_value value_step_def sep_def)
  next
    case (Cons kv ws)
    obtain k v where kv: "kv = (k, v)" by fastforce
    let ?k = "coerce_utf8 k"
    have "json_run fl (toks v @ x) (FObj [] ?k # st, Val) =
        json_run fl x (FObj (put ?k (normal v) []) ?k # st, Next)" for x
      using el [of k v "FObj [] ?k # st" Val x] Cons kv by (simp add: value_mode_def)
    moreover have "json_run fl
        (concat (map (\<lambda>z. TComma # z) (map (\<lambda>(k, v). TStr (coerce_utf8 k) # TColon # toks v) ws)) @
          TRBrace # ts) (FObj (put ?k (normal v) []) ?k # st, Next) =
      json_run fl ts (complete (JObj (foldl (\<lambda>a (k, v). put (coerce_utf8 k) v a) (put ?k (normal v) [])
        (map (\<lambda>(k, v). (k, normal v)) ws))) st)"
      by (rule run_fields [where n = "Suc (length st)"], rule el) (use Cons in auto)
    ultimately show ?thesis
      using JObj.prems open_ok Cons kv
      by (simp add: json_step_value value_step_def sep_def comp_def)
  qed
qed (auto simp: json_step_value value_step_def)

lemma Unmarshal_Marshal:
  assumes "nums_ok fl v" "depth v \<le> max_depth"
  shows "Unmarshal fl (Marshal v) = Some (normal v)"
proof -
  have "lex (Marshal v) = Some (toks v)"
    using lex_Marshal [OF assms(1), of "[]"] by (simp add: delim_def)
  moreover have "json_run fl (toks v @ []) ([], Val) = json_run fl [] (complete (normal v) [])"
    using run_toks [OF assms(1), of "[]" Val "[]"] assms(2) by (simp add: value_mode_def)
  ultimately show ?thesis by (simp add: Unmarshal_def)
qed

section \<open>Objects as maps\<close>

lemma map_of_put [simp]: "map_of (put k v al) = (map_of al)(k \<mapsto> v)"
  by (induction al rule: put.induct) auto

lemma coerce_utf8_ascii: "list_all (\<lambda>c. ord c < 0x80) s \<Longrightarrow> coerce_utf8 s = s"
proof (induction s)
  case (Cons c s)
  then show ?case by (simp add: coerce_utf8.simps(2) Let_def)
qed simp

text \<open>What an object holds under a key after it was printed and read back, for a key that occurs
  once: the value that was printed.\<close>

lemma normal_get_absent:
  assumes "\<forall>kv \<in> set kvs. coerce_utf8 (fst kv) \<noteq> k"
  shows "map_of (foldl (\<lambda>a (k, v). put (coerce_utf8 k) v a) al (map (\<lambda>(k, v). (k, normal v)) kvs)) k =
    map_of al k"
  using assms by (induction kvs arbitrary: al) auto

lemma normal_get:
  assumes "list_all (\<lambda>kv. list_all (\<lambda>c. ord c < 0x80) (fst kv)) kvs" "distinct (map fst kvs)"
    "(k, v) \<in> set kvs"
  shows "map_of (foldl (\<lambda>a (k, v). put (coerce_utf8 k) v a) al (map (\<lambda>(k, v). (k, normal v)) kvs)) k =
    Some (normal v)"
  using assms
proof (induction kvs arbitrary: al)
  case (Cons kv kvs)
  obtain k' v' where kv: "kv = (k', v')" by fastforce
  have k': "coerce_utf8 k' = k'" using Cons.prems(1) kv by (simp add: coerce_utf8_ascii)
  show ?case
  proof (cases "kv = (k, v)")
    case True
    have "\<forall>x \<in> set kvs. coerce_utf8 (fst x) \<noteq> k"
      using Cons.prems True by (auto simp: list_all_iff coerce_utf8_ascii)
    then show ?thesis using normal_get_absent [of kvs k] True k' kv by simp
  next
    case False
    then show ?thesis using Cons kv by auto
  qed
qed simp

lemma valid_number_Itoa: "valid_number (Itoa i)"
proof -
  have digits: "valid_number (show_nat n)" "valid_number (CHR ''-'' # show_nat n)" for n
  proof -
    obtain c r where s: "show_nat n = c # r" using show_nat_digits [of n] by (cases "show_nat n") auto
    have d: "is_digit c" "\<forall>x \<in> set r. is_digit x" using show_nat_digits [of n] s by auto
    have c: "c = CHR ''0'' \<Longrightarrow> r = []" using show_nat_lead [of n] s by (cases "n = 0") (auto simp: show_nat.simps [of 0])
    have "c \<noteq> CHR ''-''" using d(1) by (auto simp: is_digit_def)
    moreover have "dropWhile is_digit r = []" using d(2) by (simp add: dropWhile_eq_Nil_conv)
    ultimately show "valid_number (show_nat n)" "valid_number (CHR ''-'' # show_nat n)"
      using c d(1) by (auto simp: s valid_number_def valid_frac_def simp del: dropWhile_eq_Nil_conv)
  qed
  then show ?thesis by (simp add: Itoa_def)
qed


lemma FormatUint16_ascii: "list_all (\<lambda>c. ord c < 0x80) (FormatUint16 n)"
proof (induction n rule: FormatUint16.induct)
  case (1 n)
  have "ord (hex_char d) < 0x80" if "d < 16" for d using that by (auto simp: hex_char_def)
  then show ?case using 1 by (simp add: FormatUint16.simps [of n])
qed

end
