(* ===== verification/Util.thy ===== *)
theory Util
  imports GoJson GoTime
begin

text \<open>
  \<open>pkg/util\<close>: string helpers, the parser of node selectors, the domain name check, and the
  decision whether a node belongs to the exported list. The fields of \<open>v1.Node\<close> are those the
  exporter reads. A \<open>*v1.Node\<close> may be nil, so it is an option, and dereferencing nil panics.
\<close>

section \<open>Kubernetes nodes\<close>

record NodeCondition =
  cond_type :: string
  cond_status :: string

record NodeAddress =
  addr_type :: string
  addr_address :: string

record Node =
  node_name :: string
  node_labels :: "string \<rightharpoonup> string"
  node_annotations :: "string \<rightharpoonup> string"
  unschedulable :: bool
  conditions :: "NodeCondition list"
  addresses :: "NodeAddress list"

definition NodeReady :: string where "NodeReady = ''Ready''"
definition ConditionTrue :: string where "ConditionTrue = ''True''"
definition NodeInternalIP :: string where "NodeInternalIP = ''InternalIP''"

definition NodeAnnotationPretendReadyUntil :: string where
  "NodeAnnotationPretendReadyUntil = ''kube-service-exporter.github.com/pretend-ready-until''"

section \<open>util.go\<close>

fun StringInSlice :: "string \<Rightarrow> string list \<Rightarrow> bool" where
  "StringInSlice str [] = False"
| "StringInSlice str (s # strs) = (if s = str then True else StringInSlice str strs)"

definition ParseNodeSelectors :: "(string \<Rightarrow> string option) \<Rightarrow> string \<Rightarrow> string list result" where
  "ParseNodeSelectors fl s =
     (let selectors = TrimSpace s in
      if length selectors = 0 then Inl (New ''no node selector provided'')
      else if prefix ''['' selectors then
        (case Unmarshal_strings fl selectors of
           Inl e \<Rightarrow> Inl (Wrap e ''error parsing node selectors'')
         | Inr parsed \<Rightarrow> Inr parsed)
      else Inr [selectors])"

text \<open>
  \<open>IsDomainName\<close> walks over the bytes with the previous byte, a flag that a letter or hyphen was
  seen, and the length of the current label.
\<close>

definition is_letter :: "char \<Rightarrow> bool" where
  "is_letter c = (97 \<le> ord c \<and> ord c \<le> 122 \<or> 65 \<le> ord c \<and> ord c \<le> 90 \<or> c = CHR ''_'')"

fun domain_loop :: "string \<Rightarrow> char \<Rightarrow> bool \<Rightarrow> nat \<Rightarrow> bool" where
  "domain_loop [] lastc nonNumeric partlen =
     (if lastc = CHR ''-'' \<or> 63 < partlen then False else nonNumeric)"
| "domain_loop (c # cs) lastc nonNumeric partlen =
     (if is_letter c then domain_loop cs c True (Suc partlen)
      else if is_digit c then domain_loop cs c nonNumeric (Suc partlen)
      else if c = CHR ''-'' then
        if lastc = CHR ''.'' then False else domain_loop cs c True (Suc partlen)
      else if c = CHR ''.'' then
        if lastc = CHR ''.'' \<or> lastc = CHR ''-'' then False
        else if 63 < partlen \<or> partlen = 0 then False
        else domain_loop cs c nonNumeric 0
      else False)"

definition IsDomainName :: "string \<Rightarrow> bool" where
  "IsDomainName s =
     (if s = ''.'' then True
      else let l = length s in
        if l = 0 \<or> 254 < l \<or> l = 254 \<and> s ! (l - 1) \<noteq> CHR ''.'' then False
        else domain_loop s (CHR ''.'') False 0)"

fun GetNodeCondition_loop :: "NodeCondition list \<Rightarrow> string \<Rightarrow> NodeCondition \<times> bool" where
  "GetNodeCondition_loop [] conditionType = (\<lparr>cond_type = [], cond_status = []\<rparr>, False)"
| "GetNodeCondition_loop (condition # cs) conditionType =
     (if cond_type condition = conditionType then (condition, True)
      else GetNodeCondition_loop cs conditionType)"

definition GetNodeCondition :: "Node \<Rightarrow> string \<Rightarrow> NodeCondition \<times> bool" where
  "GetNodeCondition node conditionType = GetNodeCondition_loop (conditions node) conditionType"

section \<open>node\_ready\_checker.go\<close>

definition isReadyAndSchedulable :: "Node \<Rightarrow> bool" where
  "isReadyAndSchedulable node =
     (if unschedulable node then False
      else let (condition, found) = GetNodeCondition node NodeReady in
        if \<not> found then False
        else if cond_status condition = ConditionTrue then True
        else False)"

definition ShouldInclude :: "int \<Rightarrow> Node option \<Rightarrow> (bool \<times> int) go" where
  "ShouldInclude now node_ptr =
     (case node_ptr of
        None \<Rightarrow> Panic ''nil pointer dereference''
      | Some node \<Rightarrow>
          (case Option.bind (node_annotations node NodeAnnotationPretendReadyUntil) ParseRFC3339 of
             Some pretendReadyUntil \<Rightarrow>
               if now < pretendReadyUntil then Ret (True, Sub pretendReadyUntil now)
               else Ret (isReadyAndSchedulable node, 0)
           | None \<Rightarrow> Ret (isReadyAndSchedulable node, 0)))"

section \<open>Domain names by their labels\<close>

text \<open>
  What the loop decides, stated on the labels between the dots: every label is made of letters,
  digits, underscores and hyphens, has at most 63 bytes and neither starts nor ends with a hyphen;
  only the last may be empty; and some label has a byte that is not a digit.
\<close>

fun labels :: "string \<Rightarrow> string list" where
  "labels [] = [[]]"
| "labels (c # cs) = (if c = CHR ''.'' then [] # labels cs else (c # hd (labels cs)) # tl (labels cs))"

definition label_char :: "char \<Rightarrow> bool" where
  "label_char c = (is_letter c \<or> is_digit c \<or> c = CHR ''-'')"

definition label_ok :: "string \<Rightarrow> bool" where
  "label_ok l = (list_all label_char l \<and> length l \<le> 63 \<and>
     (l \<noteq> [] \<longrightarrow> hd l \<noteq> CHR ''-'' \<and> last l \<noteq> CHR ''-''))"

definition domain_ok :: "string \<Rightarrow> bool" where
  "domain_ok s = (list_all label_ok (labels s) \<and> list_all (\<lambda>l. l \<noteq> []) (butlast (labels s)) \<and>
     (\<exists>l \<in> set (labels s). \<exists>c \<in> set l. \<not> is_digit c))"

text \<open>The loop in the middle of a label: \<open>p\<close> are the label's bytes read so far.\<close>

definition rest_ok :: "string \<Rightarrow> string list \<Rightarrow> bool \<Rightarrow> bool" where
  "rest_ok p ls nn =
     (let l = p @ hd ls in
      list_all label_char l \<and> length l \<le> 63 \<and>
      (l \<noteq> [] \<longrightarrow> hd l \<noteq> CHR ''-'' \<and> last l \<noteq> CHR ''-'') \<and>
      list_all label_ok (tl ls) \<and> list_all (\<lambda>l. l \<noteq> []) (butlast (l # tl ls)) \<and>
      (nn \<or> (\<exists>l \<in> set ls. \<exists>c \<in> set l. \<not> is_digit c)))"

lemma labels_nonempty [simp]: "labels s \<noteq> []"
  by (cases s) auto

lemma class_disjoint:
  "is_letter c \<Longrightarrow> \<not> is_digit c \<and> c \<noteq> CHR ''-'' \<and> c \<noteq> CHR ''.''"
  "is_digit c \<Longrightarrow> c \<noteq> CHR ''-'' \<and> c \<noteq> CHR ''.''"
  "\<not> is_digit CHR ''-''" "\<not> is_letter CHR ''.''" "\<not> is_digit CHR ''.''"
  by (auto simp: is_letter_def is_digit_def)

lemma rest_ok_start: "rest_ok [] (labels s) False \<longleftrightarrow> domain_ok s"
proof -
  obtain l ls where "labels s = l # ls" by (cases "labels s") auto
  then show ?thesis by (auto simp: rest_ok_def domain_ok_def label_ok_def Let_def)
qed

text \<open>One byte of a label moves from the labels to come to the label read so far.\<close>

lemma rest_ok_byte:
  assumes "label_char c" "c \<noteq> CHR ''.''"
  shows "rest_ok p (labels (c # cs)) nn = rest_ok (p @ [c]) (labels cs) (nn \<or> \<not> is_digit c)"
proof -
  obtain l ls where "labels cs = l # ls" by (cases "labels cs") auto
  then show ?thesis using assms by (auto simp: rest_ok_def Let_def)
qed

lemma rest_ok_dot:
  assumes "list_all label_char p" "p \<noteq> [] \<longrightarrow> hd p \<noteq> CHR ''-''"
  shows "rest_ok p (labels (CHR ''.'' # cs)) nn \<longleftrightarrow>
    p \<noteq> [] \<and> last p \<noteq> CHR ''-'' \<and> length p \<le> 63 \<and> rest_ok [] (labels cs) nn"
proof -
  obtain l ls where "labels cs = l # ls" by (cases "labels cs") auto
  then show ?thesis using assms by (auto simp: rest_ok_def Let_def label_ok_def)
qed

lemma rest_ok_bad: "\<not> label_char c \<Longrightarrow> c \<noteq> CHR ''.'' \<Longrightarrow> \<not> rest_ok p (labels (c # cs)) nn"
  by (auto simp: rest_ok_def Let_def)

definition prev :: "string \<Rightarrow> char" where
  "prev p = (if p = [] then CHR ''.'' else last p)"

lemma prev_snoc [simp]: "prev (p @ [c]) = c"
  by (simp add: prev_def)

lemma domain_loop_labels:
  assumes "list_all label_char p" "p \<noteq> [] \<longrightarrow> hd p \<noteq> CHR ''-''"
  shows "domain_loop cs (prev p) nn (length p) = rest_ok p (labels cs) nn"
  using assms
proof (induction cs arbitrary: p nn)
  case Nil
  then show ?case by (auto simp: rest_ok_def Let_def prev_def)
next
  case (Cons c cs)
  have dot: "prev p = CHR ''.'' \<longleftrightarrow> p = []"
  proof -
    have "\<not> label_char CHR ''.''" by (simp add: label_char_def class_disjoint)
    then show ?thesis using Cons.prems(1) by (metis last_in_set list_all_iff prev_def)
  qed
  have IH: "label_char c \<Longrightarrow> (p = [] \<longrightarrow> c \<noteq> CHR ''-'') \<Longrightarrow>
      domain_loop cs c m (Suc (length p)) = rest_ok (p @ [c]) (labels cs) m" for m
    using Cons.IH [of "p @ [c]" m] Cons.prems by (cases p) (auto simp: prev_def)
  consider "is_letter c" | "is_digit c" | "c = CHR ''-''" | "c = CHR ''.''"
    | "\<not> label_char c" "c \<noteq> CHR ''.''" by (auto simp: label_char_def)
  then show ?case
  proof cases
    case 1
    then have "label_char c" "c \<noteq> CHR ''.''" using class_disjoint by (auto simp: label_char_def)
    then show ?thesis
      using 1 IH [of True] class_disjoint(1) [OF 1] by (simp add: rest_ok_byte del: labels.simps)
  next
    case 2
    then have "label_char c" "c \<noteq> CHR ''.''" using class_disjoint by (auto simp: label_char_def)
    then show ?thesis
      using 2 IH [of nn] class_disjoint(2) [OF 2] class_disjoint(1) [of c]
      by (auto simp: rest_ok_byte simp del: labels.simps)
  next
    case 3
    have lc: "label_char c" "c \<noteq> CHR ''.''" using 3 by (auto simp: label_char_def)
    have nl: "\<not> is_letter CHR ''-''" by (simp add: is_letter_def)
    have "\<not> rest_ok [c] (labels cs) m" for m using 3 by (simp add: rest_ok_def Let_def)
    then show ?thesis
      using 3 IH [of True] lc dot class_disjoint nl by (auto simp: rest_ok_byte simp del: labels.simps)
  next
    case 4
    have "prev p = CHR ''-'' \<longleftrightarrow> p \<noteq> [] \<and> last p = CHR ''-''" by (simp add: prev_def)
    moreover have "domain_loop cs (CHR ''.'') nn 0 = rest_ok [] (labels cs) nn"
      using Cons.IH [of "[]" nn] by (simp add: prev_def)
    ultimately show ?thesis
      using 4 rest_ok_dot [OF Cons.prems] dot class_disjoint by (auto simp del: labels.simps)
  next
    case 5
    then show ?thesis
      using rest_ok_bad [of c p cs nn] by (auto simp: label_char_def simp del: labels.simps)
  qed
qed

lemma domain_loop_ok: "domain_loop s (CHR ''.'') False 0 = domain_ok s"
  using domain_loop_labels [of "[]" s False] by (simp add: prev_def rest_ok_start)

section \<open>Properties\<close>

text \<open>C35: \<open>IsDomainName\<close> accepts exactly the root and the strings of at most 253 bytes (254 with a
  trailing dot) whose dot-separated labels are well formed: at most 63 letters, digits,
  underscores or hyphens, no hyphen at either end, no empty label but a last one, and not
  digits only.\<close>

theorem IsDomainName_spec:
  "IsDomainName s \<longleftrightarrow>
     s = ''.'' \<or> (s \<noteq> [] \<and> (length s \<le> 253 \<or> length s = 254 \<and> last s = CHR ''.'') \<and> domain_ok s)"
  unfolding IsDomainName_def domain_loop_ok
  by (cases "length s = 254"; cases "s = []") (auto simp: Let_def last_conv_nth)

lemma GetNodeCondition_find:
  "GetNodeCondition node t =
     (case List.find (\<lambda>c. cond_type c = t) (conditions node) of
        Some c \<Rightarrow> (c, True) | None \<Rightarrow> (\<lparr>cond_type = [], cond_status = []\<rparr>, False))"
proof -
  have "GetNodeCondition_loop cs t =
      (case List.find (\<lambda>c. cond_type c = t) cs of
         Some c \<Rightarrow> (c, True) | None \<Rightarrow> (\<lparr>cond_type = [], cond_status = []\<rparr>, False))" for cs
    by (induction cs) auto
  then show ?thesis by (simp add: GetNodeCondition_def)
qed

text \<open>When a node's grace period is still running at an instant.\<close>

definition grace_until :: "Node \<Rightarrow> int option" where
  "grace_until node = Option.bind (node_annotations node NodeAnnotationPretendReadyUntil) ParseRFC3339"

definition in_grace :: "int \<Rightarrow> Node \<Rightarrow> bool" where
  "in_grace now node = (\<exists>t. grace_until node = Some t \<and> now < t)"

definition ready :: "Node \<Rightarrow> bool" where
  "ready node = (\<not> unschedulable node \<and>
     (\<exists>c. List.find (\<lambda>c. cond_type c = NodeReady) (conditions node) = Some c \<and> cond_status c = ConditionTrue))"

lemma ready_isReadyAndSchedulable: "isReadyAndSchedulable node = ready node"
  by (auto simp: isReadyAndSchedulable_def ready_def GetNodeCondition_find split: option.splits)

lemma ShouldInclude_eq:
  "ShouldInclude now (Some node) =
     Ret (in_grace now node \<or> ready node, if in_grace now node then Sub (the (grace_until node)) now else 0)"
  by (auto simp: ShouldInclude_def in_grace_def grace_until_def ready_isReadyAndSchedulable
      split: option.splits)

lemma grace_delay_pos: "in_grace now node \<Longrightarrow> 0 < Sub (the (grace_until node)) now"
  using Sub_pos by (auto simp: in_grace_def)

text \<open>A node is included exactly when its grace period is running or it is schedulable and its
  first Ready condition is true, and the delay that comes with the answer is positive exactly when
  the grace period is running. A nil node panics.\<close>

lemma ShouldInclude_spec:
  "ShouldInclude now None = Panic ''nil pointer dereference'' \<and>
   (\<exists>after. ShouldInclude now (Some node) = Ret (in_grace now node \<or> ready node, after) \<and>
      (0 < after \<longleftrightarrow> in_grace now node) \<and> 0 \<le> after)"
  using grace_delay_pos [of now node] unfolding ShouldInclude_eq by (auto simp: ShouldInclude_def)

lemma TrimSpace_id:
  assumes "leading_space s = None" "trailing_space s = None"
  shows "TrimSpace s = s"
  using assms by (simp add: TrimSpace_def TrimLeftSpace.simps [of s] TrimRightSpace.simps [of s])

lemma no_space_brackets:
  "leading_space (CHR ''['' # s) = None" "trailing_space (s @ [CHR '']'']) = None"
proof -
  have hd: "hd e \<noteq> CHR ''[''" and lst: "last e \<noteq> CHR '']''" if "e \<in> set space_encodings" for e
    using that by (auto simp: space_encodings_def char_of_eq_iff take_bit_eq_mod)
  show "leading_space (CHR ''['' # s) = None"
    unfolding leading_space_def find_None_iff
    using hd space_encodings_nonempty by (metis hd_append2 list.sel(1) prefix_def)
  show "trailing_space (s @ [CHR '']'']) = None"
    unfolding trailing_space_def find_None_iff
    using lst space_encodings_nonempty by (metis last_appendR last_snoc suffix_def)
qed

lemma json_strings_map: "json_strings (map (normal \<circ> JStr) ss) = Some (map coerce_utf8 ss)"
  by (induction ss) auto

text \<open>A list of selectors written as a JSON array is read back as that list (malformed UTF-8
  replaced), and a non-empty string that starts with neither a bracket nor a space and does not end with a space
  is read as the one selector it is.\<close>

lemma ParseNodeSelectors_roundtrip:
  "ParseNodeSelectors fl (Marshal (JArr (map JStr ss))) = Inr (map coerce_utf8 ss) \<and>
   (s \<noteq> [] \<and> leading_space s = None \<and> trailing_space s = None \<and> hd s \<noteq> CHR ''['' \<longrightarrow>
      ParseNodeSelectors fl s = Inr [s])"
proof
  let ?m = "Marshal (JArr (map JStr ss))"
  have "TrimSpace ?m = ?m"
    using no_space_brackets(1) no_space_brackets(2) [of "CHR ''['' # _"] by (intro TrimSpace_id) simp_all
  moreover have "depth (JArr (map JStr ss)) \<le> max_depth"
  proof -
    have "fold max (map (depth \<circ> JStr) ss) 0 = 0" by (induction ss) auto
    then show ?thesis by (simp add: max_depth_def)
  qed
  then have "Unmarshal fl ?m = Some (JArr (map (normal \<circ> JStr) ss))"
    using Unmarshal_Marshal [of fl "JArr (map JStr ss)"] by simp
  then have "Unmarshal_strings fl ?m = Inr (map coerce_utf8 ss)"
    by (simp add: Unmarshal_strings_def json_strings_map)
  ultimately show "ParseNodeSelectors fl ?m = Inr (map coerce_utf8 ss)"
    by (simp add: ParseNodeSelectors_def Let_def)
  show "s \<noteq> [] \<and> leading_space s = None \<and> trailing_space s = None \<and> hd s \<noteq> CHR ''['' \<longrightarrow>
      ParseNodeSelectors fl s = Inr [s]"
    by (cases s) (auto simp: ParseNodeSelectors_def TrimSpace_id)
qed

text \<open>The plain selector of the second part.\<close>

lemma ParseNodeSelectors_witness:
  "ParseNodeSelectors Some ''role=lb'' = Inr [''role=lb'']"
proof -
  have "leading_space ''role=lb'' = None" "trailing_space ''role=lb'' = None" by code_simp+
  then show ?thesis using ParseNodeSelectors_roundtrip [of Some "[]" "''role=lb''"] by simp
qed

end
