(* ===== verification/ExportedService.thy ===== *)
theory ExportedService
  imports Util "HOL-Library.Word"
begin

text \<open>
  \<open>pkg/controller/exportable\_service.go\<close>: how a Kubernetes Service becomes one exported service
  per port. The fields of \<open>v1.Service\<close> are those the exporter reads; the annotations are the
  entries of the map, and a nil map is told apart from an empty one, since the code does. Ports are \<open>int32\<close> and no arithmetic is done
  on them, so they are integers. The shared informer's indexer and \<open>hashstructure.Hash\<close> are
  third-party code and arguments of the definitions that use them.
\<close>

section \<open>Kubernetes Services\<close>

record ServicePort =
  port_name :: string
  port_port :: int
  port_nodePort :: int

record Service =
  svc_namespace :: string
  svc_name :: string
  svc_annotations :: "(string \<times> string) list option"
  svc_type :: string
  svc_ports :: "ServicePort list"

text \<open>An object of the informer's cache: a Service, or something else, with the key its metadata
  gives if it has any.\<close>

datatype kobject = KService Service | KOther "string option"

type_synonym indexer = "string \<Rightarrow> kobject option result"

definition annotation :: "Service \<Rightarrow> string \<Rightarrow> string option" where
  "annotation service k = Option.bind (svc_annotations service) (\<lambda>m. map_of m k)"

definition annotation_prefix :: string where
  "annotation_prefix = ''kube-service-exporter.github.com/''"

definition ServiceAnnotationExported :: string where
  "ServiceAnnotationExported = annotation_prefix @ ''exported''"
definition ServiceAnnotationProxyProtocol :: string where
  "ServiceAnnotationProxyProtocol = annotation_prefix @ ''load-balancer-proxy-protocol''"
definition ServiceAnnotationLoadBalancerClass :: string where
  "ServiceAnnotationLoadBalancerClass = annotation_prefix @ ''load-balancer-class''"
definition ServiceAnnotationLoadBalancerBEProtocol :: string where
  "ServiceAnnotationLoadBalancerBEProtocol = annotation_prefix @ ''load-balancer-backend-protocol''"
definition ServiceAnnotationLoadBalancerListenPort :: string where
  "ServiceAnnotationLoadBalancerListenPort = annotation_prefix @ ''load-balancer-listen-port''"
definition ServiceAnnotationLoadBalancerHealthCheckPath :: string where
  "ServiceAnnotationLoadBalancerHealthCheckPath = annotation_prefix @ ''load-balancer-health-check-path''"
definition ServiceAnnotationLoadBalancerHealthCheckPort :: string where
  "ServiceAnnotationLoadBalancerHealthCheckPort = annotation_prefix @ ''load-balancer-health-check-port''"
definition ServiceAnnotationLoadBalancerServicePerCluster :: string where
  "ServiceAnnotationLoadBalancerServicePerCluster = annotation_prefix @ ''load-balancer-service-per-cluster''"
definition ServiceAnnotationLoadBalancerDNSName :: string where
  "ServiceAnnotationLoadBalancerDNSName = annotation_prefix @ ''load-balancer-dns-name''"
definition ServiceAnnotationCustomAttrs :: string where
  "ServiceAnnotationCustomAttrs = annotation_prefix @ ''custom-attrs''"
definition ServiceAnnotationIdPrefix :: string where
  "ServiceAnnotationIdPrefix = annotation_prefix @ ''id-prefix''"
definition ServiceAnnotationIngressServiceNamespace :: string where
  "ServiceAnnotationIngressServiceNamespace = annotation_prefix @ ''ingress-service-namespace''"
definition ServiceAnnotationIngressServiceName :: string where
  "ServiceAnnotationIngressServiceName = annotation_prefix @ ''ingress-service-name''"
definition ServiceAnnotationIngressServicePortName :: string where
  "ServiceAnnotationIngressServicePortName = annotation_prefix @ ''ingress-service-port-name''"

definition defaultPortLabel :: string where "defaultPortLabel = ''default''"
definition ServiceTypeLoadBalancer :: string where "ServiceTypeLoadBalancer = ''LoadBalancer''"
definition ServiceTypeNodePort :: string where "ServiceTypeNodePort = ''NodePort''"

section \<open>Exported services\<close>

record ExportedService =
  ClusterId :: string
  Namespace :: string
  Name :: string
  PortName :: string
  Port :: int
  DNSName :: string
  ServicePerCluster :: bool
  HealthCheckPath :: string
  HealthCheckPort :: int
  BackendProtocol :: string
  ProxyProtocol :: bool
  LoadBalancerClass :: string
  LoadBalancerListenPort :: int
  ingressServiceName :: string
  ingressServiceNamespace :: string
  ingressServicePortName :: string
  IngressSNI :: string
  CustomAttrs :: "(string \<times> json) list option"
  IdPrefix :: string
  Version :: int

definition Id :: "ExportedService \<Rightarrow> string" where
  "Id es =
     (if IdPrefix es \<noteq> [] then IdPrefix es @ ''-'' else []) @
     (if ServicePerCluster es then ClusterId es @ ''-'' else []) @
     Namespace es @ ''-'' @ Name es @ ''-'' @ PortName es"

text \<open>\<open>IsExportableService\<close> reads the annotations of its argument: a nil pointer panics.\<close>

definition IsExportableService :: "Service option \<Rightarrow> bool go" where
  "IsExportableService service_ptr =
     (case service_ptr of
        None \<Rightarrow> Panic ''nil pointer dereference''
      | Some service \<Rightarrow>
          Ret (case annotation service ServiceAnnotationExported of
                 None \<Rightarrow> False
               | Some val \<Rightarrow>
                   (case ParseBool val of
                      Inl _ \<Rightarrow> False
                    | Inr exported \<Rightarrow>
                        if \<not> exported then False
                        else svc_type service = ServiceTypeLoadBalancer \<or>
                             svc_type service = ServiceTypeNodePort)))"

fun merge_loop :: "ServicePort list \<Rightarrow> bool \<Rightarrow> ExportedService \<Rightarrow> bool \<times> ExportedService" where
  "merge_loop [] explicitHCPort es = (False, es)"
| "merge_loop (p # ps) explicitHCPort es =
     (if port_name p = ingressServicePortName es
      then (True, let es' = es\<lparr>Port := port_nodePort p\<rparr>
                  in if explicitHCPort then es' else es'\<lparr>HealthCheckPort := port_nodePort p\<rparr>)
      else merge_loop ps explicitHCPort es)"

definition MergeIngressService :: "Service \<Rightarrow> bool \<Rightarrow> ExportedService \<Rightarrow> bool \<times> ExportedService" where
  "MergeIngressService svc explicitHCPort es = merge_loop (svc_ports svc) explicitHCPort es"

definition ingress_name :: "ExportedService \<Rightarrow> string" where
  "ingress_name es =
     (if is_digit (hd (PortName es)) then defaultPortLabel else PortName es) @ ''.'' @
     Name es @ ''.'' @ Namespace es @ ''.local''"

definition setIngressSNI :: "ExportedService \<Rightarrow> ExportedService result go" where
  "setIngressSNI es =
     (if PortName es = [] then Panic ''index out of range''
      else if \<not> IsDomainName (ingress_name es)
      then Ret (Inl (New (''ingress_sni is not a valid domain name: '' @ ingress_name es)))
      else Ret (Inr (es\<lparr>IngressSNI := ingress_name es\<rparr>)))"

text \<open>
  \<open>NewExportedService\<close>, annotation by annotation in the order of the code. Each step takes the
  service built so far; the steps that parse a value can fail.
\<close>

definition setListenPort :: "Service \<Rightarrow> ExportedService \<Rightarrow> ExportedService result" where
  "setListenPort service es =
     (case annotation service ServiceAnnotationLoadBalancerListenPort of
        None \<Rightarrow> Inr es
      | Some val \<Rightarrow>
          (case ParseInt 32 val of
             Inl err \<Rightarrow> Inl (Wrap err ''error setting LoadBalancerListenPort'')
           | Inr n \<Rightarrow> Inr (es\<lparr>LoadBalancerListenPort := n\<rparr>)))"

definition setHealthCheckPort :: "Service \<Rightarrow> ExportedService \<Rightarrow> ExportedService result" where
  "setHealthCheckPort service es =
     (case annotation service ServiceAnnotationLoadBalancerHealthCheckPort of
        None \<Rightarrow> Inr es
      | Some val \<Rightarrow>
          (case ParseInt 32 val of
             Inl err \<Rightarrow> Inl (Wrap err ''error setting HealthCheckPort'')
           | Inr n \<Rightarrow> Inr (es\<lparr>HealthCheckPort := n\<rparr>)))"

definition setServicePerCluster :: "Service \<Rightarrow> ExportedService \<Rightarrow> ExportedService result" where
  "setServicePerCluster service es =
     (case annotation service ServiceAnnotationLoadBalancerServicePerCluster of
        None \<Rightarrow> Inr es
      | Some val \<Rightarrow>
          (case ParseBool val of
             Inl err \<Rightarrow> Inl (Wrap err ''Error setting ServicePerCluster'')
           | Inr parsed \<Rightarrow> Inr (es\<lparr>ServicePerCluster := parsed\<rparr>)))"

definition setCustomAttrs ::
  "(string \<Rightarrow> string option) \<Rightarrow> Service \<Rightarrow> ExportedService \<Rightarrow> ExportedService result" where
  "setCustomAttrs fl service es =
     (case annotation service ServiceAnnotationCustomAttrs of
        None \<Rightarrow> Inr (es\<lparr>CustomAttrs := Some []\<rparr>)
      | Some val \<Rightarrow>
          (case Unmarshal_map fl val of
             Inl err \<Rightarrow> Inl (Wrap err ''Error parsing customattrs JSON object'')
           | Inr attrs \<Rightarrow> Inr (es\<lparr>CustomAttrs := attrs\<rparr>)))"

definition or_else :: "string option \<Rightarrow> string \<Rightarrow> string" where
  "or_else v d = (case v of Some x \<Rightarrow> x | None \<Rightarrow> d)"

definition initial :: "Service \<Rightarrow> string \<Rightarrow> ServicePort \<Rightarrow> ExportedService" where
  "initial service clusterId p =
     \<lparr>ClusterId = clusterId, Namespace = svc_namespace service, Name = svc_name service,
      PortName = (if port_name p = [] then Itoa (port_port p) else port_name p),
      Port = port_nodePort p, DNSName = [], ServicePerCluster = True, HealthCheckPath = [],
      HealthCheckPort = port_nodePort p, BackendProtocol = ''http'', ProxyProtocol = False,
      LoadBalancerClass = [], LoadBalancerListenPort = 0, ingressServiceName = [],
      ingressServiceNamespace = [], ingressServicePortName = [], IngressSNI = [],
      CustomAttrs = None, IdPrefix = [], Version = 1\<rparr>"

text \<open>The annotations that are copied, before the first and after the last one that is parsed.\<close>

definition setNames :: "Service \<Rightarrow> ExportedService \<Rightarrow> ExportedService" where
  "setNames service es =
     es\<lparr>DNSName := or_else (annotation service ServiceAnnotationLoadBalancerDNSName) (DNSName es),
        ProxyProtocol := (annotation service ServiceAnnotationProxyProtocol = Some ''*'' \<or> ProxyProtocol es),
        LoadBalancerClass := or_else (annotation service ServiceAnnotationLoadBalancerClass) (LoadBalancerClass es),
        BackendProtocol := (if annotation service ServiceAnnotationLoadBalancerBEProtocol = Some ''tcp''
                            then ''tcp'' else BackendProtocol es)\<rparr>"

definition setHealthCheckPath :: "Service \<Rightarrow> ExportedService \<Rightarrow> ExportedService" where
  "setHealthCheckPath service es =
     es\<lparr>HealthCheckPath := or_else (annotation service ServiceAnnotationLoadBalancerHealthCheckPath) (HealthCheckPath es)\<rparr>"

definition setIngress :: "Service \<Rightarrow> ExportedService \<Rightarrow> ExportedService" where
  "setIngress service es =
     es\<lparr>IdPrefix := or_else (annotation service ServiceAnnotationIdPrefix) (IdPrefix es),
        ingressServiceNamespace := or_else (annotation service ServiceAnnotationIngressServiceNamespace) (ingressServiceNamespace es),
        ingressServiceName := or_else (annotation service ServiceAnnotationIngressServiceName) (ingressServiceName es),
        ingressServicePortName := or_else (annotation service ServiceAnnotationIngressServicePortName) (ingressServicePortName es)\<rparr>"

definition NewExportedService ::
  "(string \<Rightarrow> string option) \<Rightarrow> Service \<Rightarrow> string \<Rightarrow> nat \<Rightarrow> ExportedService result go" where
  "NewExportedService fl service clusterId portIdx =
     (if clusterId = [] then Ret (Inl (New ''no clusterId specified''))
      else if length (svc_ports service) \<le> portIdx then Panic ''index out of range''
      else let es = initial service clusterId (svc_ports service ! portIdx) in
        if svc_annotations service = None then Ret (Inr es)
        else bindR (Ret (setListenPort service (setNames service es))) (\<lambda>es.
             bindR (Ret (setHealthCheckPort service (setHealthCheckPath service es))) (\<lambda>es.
             bindR (Ret (setServicePerCluster service es)) (\<lambda>es.
             bindR (Ret (setCustomAttrs fl service es)) (\<lambda>es.
             Ret (Inr (setIngress service es)))))))"

fun new_loop ::
  "(string \<Rightarrow> string option) \<Rightarrow> Service \<Rightarrow> string \<Rightarrow> nat list \<Rightarrow> ExportedService list result go" where
  "new_loop fl service clusterId [] = Ret (Inr [])"
| "new_loop fl service clusterId (i # is) =
     bindR (NewExportedService fl service clusterId i) (\<lambda>es.
     bindR (new_loop fl service clusterId is) (\<lambda>ess. Ret (Inr (es # ess))))"

text \<open>Merging the ingress Service into one exported service: the body of the second loop.\<close>

definition merge_ingress :: "indexer \<Rightarrow> Service \<Rightarrow> ExportedService \<Rightarrow> ExportedService result go" where
  "merge_ingress indexer service es =
     (if ingressServiceNamespace es = [] \<or> ingressServiceName es = [] \<or> ingressServicePortName es = []
      then Ret (Inr es)
      else (case indexer (ingressServiceNamespace es @ ''/'' @ ingressServiceName es) of
              Inl err \<Rightarrow> Ret (Inl (Wrap err
                (''error looking up service '' @ ingressServiceNamespace es @ ''/'' @ ingressServiceName es)))
            | Inr None \<Rightarrow> Ret (Inl (New
                (''ingress service '' @ ingressServiceNamespace es @ ''/'' @ ingressServiceName es @
                 '' not found for service '' @ Namespace es @ ''/'' @ Name es @ '', skipping'')))
            | Inr (Some (KOther _)) \<Rightarrow> Ret (Inl (New
                (''ingress service '' @ ingressServiceNamespace es @ ''/'' @ ingressServiceName es @
                 '' is not a v1.Service, skipping'')))
            | Inr (Some (KService ingressSvc)) \<Rightarrow>
                (let explicitHCPort =
                       (annotation service ServiceAnnotationLoadBalancerHealthCheckPort \<noteq> None);
                     (merged, es') = MergeIngressService ingressSvc explicitHCPort es
                 in if \<not> merged then Ret (Inr es')
                    else (case setIngressSNI es' of
                            Panic s \<Rightarrow> Panic s
                          | Ret (Inl err) \<Rightarrow> Ret (Inl (Wrap err
                              (''error setting IngressSNI for service '' @ Namespace es @ ''/'' @ Name es)))
                          | Ret (Inr es'') \<Rightarrow> Ret (Inr es'')))))"

fun merge_all :: "indexer \<Rightarrow> Service \<Rightarrow> ExportedService list \<Rightarrow> ExportedService list result go" where
  "merge_all indexer service [] = Ret (Inr [])"
| "merge_all indexer service (es # ess) =
     bindR (merge_ingress indexer service es) (\<lambda>es'.
     bindR (merge_all indexer service ess) (\<lambda>ess'. Ret (Inr (es' # ess'))))"

definition NewExportedServicesFromKubeService ::
  "(string \<Rightarrow> string option) \<Rightarrow> indexer \<Rightarrow> Service option \<Rightarrow> string \<Rightarrow> ExportedService list result go" where
  "NewExportedServicesFromKubeService fl indexer service_ptr clusterId =
     (case (IsExportableService service_ptr, service_ptr) of
        (Ret True, Some service) \<Rightarrow>
          bindR (new_loop fl service clusterId [0 ..< length (svc_ports service)])
            (merge_all indexer service)
      | (Panic s, _) \<Rightarrow> Panic s
      | _ \<Rightarrow> Ret (Inr []))"

section \<open>Hash and JSON\<close>

definition Hash :: "(ExportedService \<Rightarrow> 64 word result) \<Rightarrow> ExportedService \<Rightarrow> string result" where
  "Hash hashstructure es =
     (case hashstructure es of Inl err \<Rightarrow> Inl err | Inr h \<Rightarrow> Inr (FormatUint16 (unat h)))"

definition omitempty :: "string \<Rightarrow> bool \<Rightarrow> json \<Rightarrow> (string \<times> json) list" where
  "omitempty k is_empty v = (if is_empty then [] else [(k, v)])"

definition es_fields :: "string \<Rightarrow> ExportedService \<Rightarrow> (string \<times> json) list" where
  "es_fields hash es =
     [(''hash'', JStr hash), (''ClusterName'', JStr (ClusterId es)), (''port'', JNum (Itoa (Port es)))] @
     omitempty ''dns_name'' (DNSName es = []) (JStr (DNSName es)) @
     omitempty ''service_per_cluster'' (\<not> ServicePerCluster es) (JBool True) @
     omitempty ''health_check_path'' (HealthCheckPath es = []) (JStr (HealthCheckPath es)) @
     omitempty ''health_check_port'' (HealthCheckPort es = 0) (JNum (Itoa (HealthCheckPort es))) @
     omitempty ''backend_protocol'' (BackendProtocol es = []) (JStr (BackendProtocol es)) @
     omitempty ''proxy_protocol'' (\<not> ProxyProtocol es) (JBool True) @
     omitempty ''load_balancer_class'' (LoadBalancerClass es = []) (JStr (LoadBalancerClass es)) @
     omitempty ''load_balancer_listen_port'' (LoadBalancerListenPort es = 0) (JNum (Itoa (LoadBalancerListenPort es))) @
     omitempty ''ingress_sni'' (IngressSNI es = []) (JStr (IngressSNI es)) @
     [(''custom_attrs'', case CustomAttrs es of None \<Rightarrow> JNull | Some kvs \<Rightarrow> JObj kvs)]"

definition MarshalJSON :: "(ExportedService \<Rightarrow> 64 word result) \<Rightarrow> ExportedService \<Rightarrow> string result" where
  "MarshalJSON hashstructure es =
     (case Hash hashstructure es of
        Inl err \<Rightarrow> Inl (Wrap err ''Error generating hash during JSON Marshaling'')
      | Inr hash \<Rightarrow> Inr (Marshal (JObj (es_fields hash es))))"

section \<open>What the annotations decide\<close>

text \<open>The label of a port: its name, or the decimal number of the container port.\<close>

definition port_label :: "ServicePort \<Rightarrow> string" where
  "port_label p = (if port_name p = [] then Itoa (port_port p) else port_name p)"

lemma port_label_nonempty [simp]: "port_label p \<noteq> []"
  using show_nat_digits by (auto simp: port_label_def Itoa_def)

definition parses :: "(string \<Rightarrow> 'a result) \<Rightarrow> string option \<Rightarrow> bool" where
  "parses f v = (case v of None \<Rightarrow> True | Some s \<Rightarrow> \<exists>x. f s = Inr x)"

definition parsed_or :: "'a \<Rightarrow> (string \<Rightarrow> 'a result) \<Rightarrow> string option \<Rightarrow> 'a" where
  "parsed_or d f v = (case v of None \<Rightarrow> d | Some s \<Rightarrow> projr (f s))"

definition annotations_ok :: "(string \<Rightarrow> string option) \<Rightarrow> Service \<Rightarrow> bool" where
  "annotations_ok fl service =
     (parses (ParseInt 32) (annotation service ServiceAnnotationLoadBalancerListenPort) \<and>
      parses (ParseInt 32) (annotation service ServiceAnnotationLoadBalancerHealthCheckPort) \<and>
      parses ParseBool (annotation service ServiceAnnotationLoadBalancerServicePerCluster) \<and>
      parses (Unmarshal_map fl) (annotation service ServiceAnnotationCustomAttrs))"

text \<open>The exported service that the annotations of a Service describe.\<close>

definition described :: "(string \<Rightarrow> string option) \<Rightarrow> Service \<Rightarrow> string \<Rightarrow> ServicePort \<Rightarrow> ExportedService" where
  "described fl service clusterId p =
     (let a = annotation service in
      \<lparr>ClusterId = clusterId, Namespace = svc_namespace service, Name = svc_name service,
       PortName = port_label p, Port = port_nodePort p,
       DNSName = or_else (a ServiceAnnotationLoadBalancerDNSName) [],
       ServicePerCluster = parsed_or True ParseBool (a ServiceAnnotationLoadBalancerServicePerCluster),
       HealthCheckPath = or_else (a ServiceAnnotationLoadBalancerHealthCheckPath) [],
       HealthCheckPort = parsed_or (port_nodePort p) (ParseInt 32) (a ServiceAnnotationLoadBalancerHealthCheckPort),
       BackendProtocol = (if a ServiceAnnotationLoadBalancerBEProtocol = Some ''tcp'' then ''tcp'' else ''http''),
       ProxyProtocol = (a ServiceAnnotationProxyProtocol = Some ''*''),
       LoadBalancerClass = or_else (a ServiceAnnotationLoadBalancerClass) [],
       LoadBalancerListenPort = parsed_or 0 (ParseInt 32) (a ServiceAnnotationLoadBalancerListenPort),
       ingressServiceName = or_else (a ServiceAnnotationIngressServiceName) [],
       ingressServiceNamespace = or_else (a ServiceAnnotationIngressServiceNamespace) [],
       ingressServicePortName = or_else (a ServiceAnnotationIngressServicePortName) [],
       IngressSNI = [],
       CustomAttrs = (if svc_annotations service = None then None
                      else parsed_or (Some []) (Unmarshal_map fl) (a ServiceAnnotationCustomAttrs)),
       IdPrefix = or_else (a ServiceAnnotationIdPrefix) [], Version = 1\<rparr>)"

lemmas step_defs = setListenPort_def setHealthCheckPort_def setServicePerCluster_def setCustomAttrs_def
  setNames_def setHealthCheckPath_def setIngress_def initial_def

lemma bind_Ret_ok:
  "(\<exists>y. bindR (Ret r) f = Ret (Inr y)) \<longleftrightarrow> (\<exists>x. r = Inr x \<and> (\<exists>y. f x = Ret (Inr y)))"
  by (cases r) auto

lemma annotation_None: "svc_annotations service = None \<Longrightarrow> annotation service k = None"
  by (simp add: annotation_def)

text \<open>Each parsing step succeeds exactly when its annotation is absent or parses.\<close>

lemma parse_steps:
  "parses (ParseInt 32) (annotation service ServiceAnnotationLoadBalancerListenPort) \<Longrightarrow>
     setListenPort service es = Inr (es\<lparr>LoadBalancerListenPort :=
       parsed_or (LoadBalancerListenPort es) (ParseInt 32) (annotation service ServiceAnnotationLoadBalancerListenPort)\<rparr>)"
  "parses (ParseInt 32) (annotation service ServiceAnnotationLoadBalancerHealthCheckPort) \<Longrightarrow>
     setHealthCheckPort service es = Inr (es\<lparr>HealthCheckPort :=
       parsed_or (HealthCheckPort es) (ParseInt 32) (annotation service ServiceAnnotationLoadBalancerHealthCheckPort)\<rparr>)"
  "parses ParseBool (annotation service ServiceAnnotationLoadBalancerServicePerCluster) \<Longrightarrow>
     setServicePerCluster service es = Inr (es\<lparr>ServicePerCluster :=
       parsed_or (ServicePerCluster es) ParseBool (annotation service ServiceAnnotationLoadBalancerServicePerCluster)\<rparr>)"
  "parses (Unmarshal_map fl) (annotation service ServiceAnnotationCustomAttrs) \<Longrightarrow>
     setCustomAttrs fl service es = Inr (es\<lparr>CustomAttrs :=
       parsed_or (Some []) (Unmarshal_map fl) (annotation service ServiceAnnotationCustomAttrs)\<rparr>)"
  by (auto simp: step_defs parses_def parsed_or_def split: option.splits sum.splits)

lemma parse_step_fails:
  "\<not> parses (ParseInt 32) (annotation service ServiceAnnotationLoadBalancerListenPort) \<Longrightarrow>
     \<exists>e. setListenPort service es = Inl e"
  "\<not> parses (ParseInt 32) (annotation service ServiceAnnotationLoadBalancerHealthCheckPort) \<Longrightarrow>
     \<exists>e. setHealthCheckPort service es = Inl e"
  "\<not> parses ParseBool (annotation service ServiceAnnotationLoadBalancerServicePerCluster) \<Longrightarrow>
     \<exists>e. setServicePerCluster service es = Inl e"
  "\<not> parses (Unmarshal_map fl) (annotation service ServiceAnnotationCustomAttrs) \<Longrightarrow>
     \<exists>e. setCustomAttrs fl service es = Inl e"
  by (auto simp: step_defs parses_def split: option.splits sum.splits)

lemma NewExportedService_described:
  assumes "clusterId \<noteq> []" "i < length (svc_ports service)" "annotations_ok fl service"
  shows "NewExportedService fl service clusterId i =
    Ret (Inr (described fl service clusterId (svc_ports service ! i)))"
proof (cases "svc_annotations service")
  case None
  then show ?thesis
    using assms annotation_None [OF None]
    by (simp add: NewExportedService_def Let_def described_def initial_def port_label_def or_else_def
        parsed_or_def)
next
  case (Some m)
  then show ?thesis
    using assms by (simp add: NewExportedService_def Let_def annotations_ok_def parse_steps)
      (simp add: described_def setNames_def setHealthCheckPath_def setIngress_def initial_def
        port_label_def Let_def)
qed

text \<open>A chain of steps fails when its first step fails, or when whatever follows fails.\<close>

lemma bindR_fails:
  "\<exists>e. r = Inl e \<Longrightarrow> \<exists>e. bindR (Ret r) f = Ret (Inl e)"
  "(\<And>x. \<exists>e. f x = Ret (Inl e)) \<Longrightarrow> \<exists>e. bindR (Ret r) f = Ret (Inl e)"
  by auto (cases r; auto)

lemma annotations_ok_nil: "svc_annotations service = None \<Longrightarrow> annotations_ok fl service"
  by (simp add: annotations_ok_def parses_def annotation_None)

lemma NewExportedService_rejected:
  assumes "clusterId = [] \<or> i < length (svc_ports service) \<and> \<not> annotations_ok fl service"
  shows "\<exists>e. NewExportedService fl service clusterId i = Ret (Inl e)"
proof (cases "clusterId = []")
  case True
  then show ?thesis by (simp add: NewExportedService_def)
next
  case False
  with assms have i: "i < length (svc_ports service)" and bad: "\<not> annotations_ok fl service" by auto
  have "svc_annotations service \<noteq> None" using bad annotations_ok_nil by blast
  then have *: "NewExportedService fl service clusterId i =
      bindR (Ret (setListenPort service (setNames service (initial service clusterId (svc_ports service ! i))))) (\<lambda>es.
      bindR (Ret (setHealthCheckPort service (setHealthCheckPath service es))) (\<lambda>es.
      bindR (Ret (setServicePerCluster service es)) (\<lambda>es.
      bindR (Ret (setCustomAttrs fl service es)) (\<lambda>es. Ret (Inr (setIngress service es))))))"
    using False i by (auto simp: NewExportedService_def Let_def)
  show ?thesis
    using bad unfolding * annotations_ok_def de_Morgan_conj
    by (elim disjE) (blast intro: bindR_fails parse_step_fails)+
qed

section \<open>The export of a Service\<close>

lemma new_loop_ok:
  assumes "clusterId \<noteq> []" "annotations_ok fl service" "\<forall>i \<in> set is. i < length (svc_ports service)"
  shows "new_loop fl service clusterId is =
    Ret (Inr (map (\<lambda>i. described fl service clusterId (svc_ports service ! i)) is))"
  using assms(3) by (induction "is") (simp_all add: NewExportedService_described assms)

lemma new_loop_err:
  assumes "clusterId = [] \<or> \<not> annotations_ok fl service" "is \<noteq> []"
    "\<forall>i \<in> set is. i < length (svc_ports service)"
  shows "\<exists>e. new_loop fl service clusterId is = Ret (Inl e)"
proof -
  obtain j js where "is = j # js" using assms(2) by (cases "is") auto
  moreover have "\<exists>e. NewExportedService fl service clusterId j = Ret (Inl e)"
    using NewExportedService_rejected [of clusterId j service fl] assms calculation by auto
  ultimately show ?thesis by auto
qed

lemma merge_loop_find:
  "merge_loop ps h es =
     (case List.find (\<lambda>p. port_name p = ingressServicePortName es) ps of
        None \<Rightarrow> (False, es)
      | Some p \<Rightarrow> (True, es\<lparr>Port := port_nodePort p,
                          HealthCheckPort := (if h then HealthCheckPort es else port_nodePort p)\<rparr>))"
  by (induction ps) auto

text \<open>
  What the second loop may do to an exported service: nothing, or take over the node port of the
  first port of the ingress Service that has the annotated name, and get its server name.
\<close>

definition merged_with :: "indexer \<Rightarrow> bool \<Rightarrow> ExportedService \<Rightarrow> ExportedService \<Rightarrow> bool" where
  "merged_with indexer explicit es es' =
     (\<exists>ingress p.
        ingressServiceNamespace es \<noteq> [] \<and> ingressServiceName es \<noteq> [] \<and> ingressServicePortName es \<noteq> [] \<and>
        indexer (ingressServiceNamespace es @ ''/'' @ ingressServiceName es) = Inr (Some (KService ingress)) \<and>
        List.find (\<lambda>p. port_name p = ingressServicePortName es) (svc_ports ingress) = Some p \<and>
        IsDomainName (IngressSNI es') \<and>
        es' = es\<lparr>Port := port_nodePort p,
                 HealthCheckPort := (if explicit then HealthCheckPort es else port_nodePort p),
                 IngressSNI := (if is_digit (hd (PortName es)) then defaultPortLabel else PortName es) @ ''.'' @
                   Name es @ ''.'' @ Namespace es @ ''.local''\<rparr>)"

lemma merge_ingress_ok:
  assumes "merge_ingress indexer service es = Ret (Inr es')"
  shows "es' = es \<or> merged_with indexer
    (annotation service ServiceAnnotationLoadBalancerHealthCheckPort \<noteq> None) es es'"
  using assms unfolding merge_ingress_def MergeIngressService_def merge_loop_find
  by (auto simp: merged_with_def setIngressSNI_def ingress_name_def Let_def
      split: if_splits sum.splits option.splits kobject.splits go.splits)

lemma merge_ingress_no_panic: "PortName es \<noteq> [] \<Longrightarrow> \<not> is_panic (merge_ingress indexer service es)"
  unfolding merge_ingress_def MergeIngressService_def merge_loop_find
  by (auto simp: setIngressSNI_def split: sum.splits option.splits kobject.splits go.splits if_splits)

lemma merge_all_no_panic:
  "\<forall>es \<in> set ess. PortName es \<noteq> [] \<Longrightarrow> \<not> is_panic (merge_all indexer service ess)"
  by (induction ess) (auto simp: bindR_panic merge_ingress_no_panic)

lemma merge_all_ok:
  "merge_all indexer service ess = Ret (Inr ess') \<Longrightarrow>
     list_all2 (\<lambda>es es'. merge_ingress indexer service es = Ret (Inr es')) ess ess'"
  by (induction ess arbitrary: ess') (auto simp: bindR_ok)

lemma export_nil [simp]:
  "NewExportedServicesFromKubeService fl indexer None clusterId = Panic ''nil pointer dereference''"
  by (simp add: NewExportedServicesFromKubeService_def IsExportableService_def)

lemma map_nth_upt: "map (\<lambda>i. f (xs ! i)) [0..<length xs] = map f xs"
  by (rule nth_equalityI) simp_all

lemma export_ok:
  assumes "NewExportedServicesFromKubeService fl indexer (Some service) clusterId = Ret (Inr ess)"
    "IsExportableService (Some service) = Ret True"
  shows "list_all2 (\<lambda>p es. merge_ingress indexer service (described fl service clusterId p) = Ret (Inr es))
    (svc_ports service) ess"
proof (cases "svc_ports service = []")
  case True
  then show ?thesis using assms by (simp add: NewExportedServicesFromKubeService_def)
next
  case False
  let ?is = "[0..<length (svc_ports service)]"
  obtain xs where xs: "new_loop fl service clusterId ?is = Ret (Inr xs)"
    and m: "merge_all indexer service xs = Ret (Inr ess)"
    using assms by (auto simp: NewExportedServicesFromKubeService_def bindR_ok)
  have "clusterId \<noteq> [] \<and> annotations_ok fl service"
    using new_loop_err [of clusterId fl service ?is] False xs by auto
  then have "xs = map (described fl service clusterId) (svc_ports service)"
    using new_loop_ok [of clusterId fl service ?is] xs
      map_nth_upt [of "described fl service clusterId" "svc_ports service"] by auto
  then show ?thesis
    using merge_all_ok [OF m] by (simp add: list_all2_map1)
qed

lemma described_fields [simp]:
  "ClusterId (described fl service clusterId p) = clusterId"
  "Namespace (described fl service clusterId p) = svc_namespace service"
  "Name (described fl service clusterId p) = svc_name service"
  "PortName (described fl service clusterId p) = port_label p"
  "Port (described fl service clusterId p) = port_nodePort p"
  by (simp_all add: described_def Let_def)

text \<open>The merge leaves the fields alone that the Id is made of.\<close>

lemma merge_ingress_keeps:
  assumes "merge_ingress indexer service es = Ret (Inr es')"
  shows "ClusterId es' = ClusterId es" "Namespace es' = Namespace es" "Name es' = Name es"
    "PortName es' = PortName es" "IdPrefix es' = IdPrefix es"
    "ServicePerCluster es' = ServicePerCluster es" "LoadBalancerListenPort es' = LoadBalancerListenPort es"
    "CustomAttrs es' = CustomAttrs es" "Id es' = Id es"
  using merge_ingress_ok [OF assms] by (auto simp: merged_with_def Id_def)

lemma described_Id: "Id (described fl service clusterId p) = Id (described fl service clusterId q) \<longleftrightarrow>
    port_label p = port_label q"
  by (simp add: Id_def) (simp add: described_def Let_def)

definition int32 :: "int \<Rightarrow> bool" where
  "int32 n = (- (2 ^ 31) \<le> n \<and> n < 2 ^ 31)"

definition int32_ports :: "Service \<Rightarrow> bool" where
  "int32_ports service = list_all (\<lambda>p. int32 (port_port p) \<and> int32 (port_nodePort p)) (svc_ports service)"

definition int32_fields :: "ExportedService \<Rightarrow> bool" where
  "int32_fields es = (int32 (Port es) \<and> int32 (HealthCheckPort es) \<and> int32 (LoadBalancerListenPort es))"

lemma ParseInt_int32: "ParseInt 32 s = Inr n \<Longrightarrow> int32 n"
  using ParseInt_bounds [of 32 s n] by (simp add: int32_def)

lemma parsed_int32: "\<lbrakk>int32 d; parses (ParseInt 32) v\<rbrakk> \<Longrightarrow> int32 (parsed_or d (ParseInt 32) v)"
  by (auto simp: parses_def parsed_or_def intro: ParseInt_int32 split: option.splits)

lemma described_int32:
  assumes "annotations_ok fl service" "int32 (port_nodePort p)"
  shows "int32_fields (described fl service clusterId p)"
proof -
  have "int32 0" by (simp add: int32_def)
  then show ?thesis
    using assms parsed_int32 by (simp add: int32_fields_def described_def Let_def annotations_ok_def)
qed

lemma export_total: "\<not> is_panic (NewExportedServicesFromKubeService fl indexer (Some service) clusterId)"
proof -
  let ?is = "[0..<length (svc_ports service)]"
  consider "?is = []" | "clusterId = [] \<or> \<not> annotations_ok fl service" "?is \<noteq> []"
    | "clusterId \<noteq> []" "annotations_ok fl service" by blast
  then have "\<not> is_panic (bindR (new_loop fl service clusterId ?is) (merge_all indexer service))"
  proof cases
    case 2
    then show ?thesis using new_loop_err [of clusterId fl service ?is] by auto
  next
    case 3
    then show ?thesis using new_loop_ok [of clusterId fl service ?is] by (simp add: merge_all_no_panic)
  qed simp
  then show ?thesis
    by (auto simp: NewExportedServicesFromKubeService_def IsExportableService_def split: option.splits
        sum.splits go.splits bool.splits)
qed

section \<open>Reading an exported service back\<close>

text \<open>
  The numbers of the JSON text go through \<open>float64\<close> when they are read: the 32-bit ports must come
  back as they are, and so must the numbers in the custom attributes.
\<close>

definition fl_int32 :: "(string \<Rightarrow> string option) \<Rightarrow> bool" where
  "fl_int32 fl = (\<forall>n. int32 n \<longrightarrow> fl (Itoa n) = Some (Itoa n))"

definition attrs_ok :: "(string \<Rightarrow> string option) \<Rightarrow> ExportedService \<Rightarrow> bool" where
  "attrs_ok fl es =
     (case CustomAttrs es of None \<Rightarrow> True | Some kvs \<Rightarrow> nums_ok fl (JObj kvs) \<and> depth (JObj kvs) < max_depth)"

lemma es_fields_keys:
  "distinct (map fst (es_fields h es))"
  "list_all (\<lambda>kv. list_all (\<lambda>c. ord c < 0x80) (fst kv)) (es_fields h es)"
  by (simp_all add: es_fields_def omitempty_def)

lemma es_fields_nums:
  assumes "fl_int32 fl" "int32_fields es" "attrs_ok fl es"
  shows "nums_ok fl (JObj (es_fields h es))"
  using assms
  by (auto simp: es_fields_def omitempty_def fl_int32_def int32_fields_def attrs_ok_def valid_number_Itoa
      split: option.splits if_splits)

lemma fold_max_bound: "\<forall>x \<in> set xs. x \<le> m \<Longrightarrow> a \<le> m \<Longrightarrow> fold max xs a \<le> (m::nat)"
  by (induction xs arbitrary: a) auto

lemma list_all_omitempty [simp]: "list_all P (omitempty k b v) = (b \<or> P (k, v))"
  by (simp add: omitempty_def)

lemma es_fields_depth:
  assumes "attrs_ok fl es"
  shows "depth (JObj (es_fields h es)) \<le> max_depth"
proof -
  have "0 < max_depth" by (simp add: max_depth_def)
  then have "list_all (\<lambda>kv. depth (snd kv) < max_depth) (es_fields h es)"
    using assms by (simp add: es_fields_def list_all_omitempty attrs_ok_def split: option.splits)
  then have "fold max (map (\<lambda>kv. depth (snd kv)) (es_fields h es)) 0 \<le> max_depth - 1"
    by (intro fold_max_bound) (auto simp: list_all_iff)
  then show ?thesis by (simp add: max_depth_def)
qed

lemma MarshalJSON_read:
  assumes "fl_int32 fl" "int32_fields es" "attrs_ok fl es"
    "MarshalJSON hashstructure es = Inr s" "Hash hashstructure es = Inr h"
  obtains kvs where "Unmarshal_map fl s = Inr (Some kvs)"
    "\<And>k v. (k, v) \<in> set (es_fields h es) \<Longrightarrow> map_of kvs k = Some (normal v)"
proof -
  have s: "s = Marshal (JObj (es_fields h es))" using assms(4,5) by (simp add: MarshalJSON_def)
  let ?kvs = "foldl (\<lambda>a (k, v). put (coerce_utf8 k) v a) [] (map (\<lambda>(k, v). (k, normal v)) (es_fields h es))"
  have "Unmarshal fl s = Some (JObj ?kvs)"
    using Unmarshal_Marshal [OF es_fields_nums [OF assms(1-3)] es_fields_depth [OF assms(3)]] s
    by simp
  then have "Unmarshal_map fl s = Inr (Some ?kvs)" by (simp add: Unmarshal_map_def)
  then show thesis
    by (rule that) (rule normal_get [OF es_fields_keys(2,1)])
qed

lemma Hash_ascii: "Hash hashstructure es = Inr h \<Longrightarrow> coerce_utf8 h = h"
  by (auto simp: Hash_def coerce_utf8_ascii FormatUint16_ascii split: sum.splits)

lemma MarshalJSON_hash:
  assumes "fl_int32 fl" "int32_fields es" "attrs_ok fl es"
    "MarshalJSON hashstructure es = Inr s" "Hash hashstructure es = Inr h"
  shows "\<exists>kvs. Unmarshal_map fl s = Inr (Some kvs) \<and> map_of kvs ''hash'' = Some (JStr h) \<and>
    map_of kvs ''ClusterName'' = Some (JStr (coerce_utf8 (ClusterId es))) \<and>
    map_of kvs ''port'' = Some (JNum (Itoa (Port es)))"
proof -
  obtain kvs where u: "Unmarshal_map fl s = Inr (Some kvs)"
    and get: "\<And>k v. (k, v) \<in> set (es_fields h es) \<Longrightarrow> map_of kvs k = Some (normal v)"
    by (rule MarshalJSON_read [OF assms]) blast
  have "(''hash'', JStr h) \<in> set (es_fields h es)"
    "(''ClusterName'', JStr (ClusterId es)) \<in> set (es_fields h es)"
    "(''port'', JNum (Itoa (Port es))) \<in> set (es_fields h es)"
    by (simp_all add: es_fields_def)
  from this [THEN get] u show ?thesis using Hash_ascii [OF assms(5)] by simp
qed

section \<open>Properties\<close>

text \<open>C27: building one exported service. It is refused exactly when the cluster id is empty or an
  annotation that holds a port, a boolean or a JSON object does not parse; otherwise every field
  has the value its annotation gives, or its default.\<close>

theorem NewExportedService_spec:
  assumes "i < length (svc_ports service)"
  shows "if clusterId = [] \<or> \<not> annotations_ok fl service
    then \<exists>e. NewExportedService fl service clusterId i = Ret (Inl e)
    else NewExportedService fl service clusterId i =
      Ret (Inr (described fl service clusterId (svc_ports service ! i)))"
  using NewExportedService_described [OF _ assms] NewExportedService_rejected [of clusterId i service fl] assms
  by auto

definition demo_port :: ServicePort where
  "demo_port = \<lparr>port_name = [], port_port = 80, port_nodePort = 32001\<rparr>"

definition demo_service :: Service where
  "demo_service = \<lparr>svc_namespace = ''default'', svc_name = ''web'',
     svc_annotations = Some [(ServiceAnnotationExported, ''true''),
                             (ServiceAnnotationLoadBalancerListenPort, ''8080'')],
     svc_type = ServiceTypeNodePort, svc_ports = [demo_port]\<rparr>"

theorem NewExportedService_spec_witness:
  "NewExportedService Some demo_service ''c1'' 0 = Ret (Inr (described Some demo_service ''c1'' demo_port)) \<and>
   LoadBalancerListenPort (described Some demo_service ''c1'' demo_port) = 8080 \<and>
   PortName (described Some demo_service ''c1'' demo_port) = ''80''"
proof -
  have "ParseInt 32 ''8080'' = Inr 8080"
    by (simp add: ParseInt_def parse_uint_def is_digit_def digit_val_def)
  then have "annotations_ok Some demo_service" "LoadBalancerListenPort (described Some demo_service ''c1'' demo_port) = 8080"
    by (simp_all add: annotations_ok_def parses_def described_def Let_def parsed_or_def annotation_def
        annotation_prefix_def demo_service_def ServiceAnnotationExported_def ServiceAnnotationLoadBalancerListenPort_def
        ServiceAnnotationLoadBalancerHealthCheckPort_def ServiceAnnotationLoadBalancerServicePerCluster_def
        ServiceAnnotationCustomAttrs_def)
  moreover have "port_label demo_port = ''80''"
    by (simp add: port_label_def demo_port_def Itoa_def show_nat.simps digit_char_def char_of_eq_iff
        take_bit_eq_mod)
  ultimately show ?thesis
    using NewExportedService_spec [of 0 demo_service "''c1''" Some] by (simp add: demo_service_def)
qed

text \<open>Exporting a Service that exists never panics, whatever its annotations, its ports and the
  state of the informer's cache; exporting a nil Service does.\<close>

lemma export_no_panic:
  "is_panic (NewExportedServicesFromKubeService fl indexer service_ptr clusterId) \<longleftrightarrow> service_ptr = None"
  using export_total [of fl indexer _ clusterId] by (cases service_ptr) auto

text \<open>C21: a Service that is exported yields one exported service per port, in the order of the
  ports, each with the identity of the Service and the label of its port. It is what the
  annotations describe, or that merged with the first port of the ingress Service that has the
  annotated name; a health check port that was given explicitly survives the merge, and the server
  name it gets is a domain name.\<close>

theorem export_per_port:
  assumes "NewExportedServicesFromKubeService fl indexer (Some service) clusterId = Ret (Inr ess)"
  shows "if IsExportableService (Some service) = Ret True
    then list_all2 (\<lambda>p es.
        ClusterId es = clusterId \<and> Namespace es = svc_namespace service \<and> Name es = svc_name service \<and>
        PortName es = port_label p \<and>
        (es = described fl service clusterId p \<or>
         merged_with indexer (annotation service ServiceAnnotationLoadBalancerHealthCheckPort \<noteq> None)
           (described fl service clusterId p) es))
      (svc_ports service) ess
    else ess = []"
proof (cases "IsExportableService (Some service) = Ret True")
  case True
  show ?thesis
    using list_all2_mono [OF export_ok [OF assms True]] True merge_ingress_keeps merge_ingress_ok
    by (simp add: list_all2_mono)
next
  case False
  then show ?thesis
    using assms by (auto simp: NewExportedServicesFromKubeService_def split: go.splits bool.splits)
qed

lemma demo_exportable: "IsExportableService (Some demo_service) = Ret True"
proof -
  have "ParseBool ''true'' = Inr True" by (simp add: ParseBool_def)
  then show ?thesis
    by (simp add: IsExportableService_def annotation_def demo_service_def ServiceAnnotationExported_def
        ServiceAnnotationLoadBalancerListenPort_def ServiceTypeNodePort_def annotation_prefix_def)
qed

lemma demo_export_any:
  "NewExportedServicesFromKubeService Some ix (Some demo_service) ''c1'' =
     Ret (Inr [described Some demo_service ''c1'' demo_port])"
proof -
  have ok: "annotations_ok Some demo_service"
    by (simp add: annotations_ok_def parses_def annotation_def annotation_prefix_def demo_service_def
        ServiceAnnotationExported_def ServiceAnnotationLoadBalancerListenPort_def
        ServiceAnnotationLoadBalancerHealthCheckPort_def ServiceAnnotationLoadBalancerServicePerCluster_def
        ServiceAnnotationCustomAttrs_def ParseInt_def parse_uint_def is_digit_def digit_val_def)
  have ports: "svc_ports demo_service = [demo_port]" by (simp add: demo_service_def)
  have "ingressServiceNamespace (described Some demo_service ''c1'' demo_port) = []"
    by (simp add: described_def Let_def or_else_def annotation_def annotation_prefix_def demo_service_def
        ServiceAnnotationExported_def ServiceAnnotationLoadBalancerListenPort_def
        ServiceAnnotationIngressServiceNamespace_def)
  then show ?thesis
    using NewExportedService_described [of "''c1''" 0 demo_service Some] ok ports demo_exportable
    by (simp add: NewExportedServicesFromKubeService_def merge_ingress_def)
qed

lemma demo_export:
  "NewExportedServicesFromKubeService Some (\<lambda>_. Inr None) (Some demo_service) ''c1'' =
     Ret (Inr [described Some demo_service ''c1'' demo_port])"
  by (rule demo_export_any)

theorem export_per_port_witness:
  "\<exists>es. NewExportedServicesFromKubeService Some (\<lambda>_. Inr None) (Some demo_service) ''c1'' = Ret (Inr [es]) \<and>
     Namespace es = ''default'' \<and> Name es = ''web'' \<and> Port es = 32001"
  using export_per_port [OF demo_export] demo_exportable
  by (simp add: demo_export) (simp add: demo_service_def demo_port_def)

text \<open>C33: the exported services of one Service have pairwise different Ids when its ports have
  pairwise different labels.\<close>

theorem export_Ids_distinct:
  assumes "NewExportedServicesFromKubeService fl indexer (Some service) clusterId = Ret (Inr ess)"
    "distinct (map port_label (svc_ports service))"
  shows "distinct (map Id ess)"
proof (cases "IsExportableService (Some service) = Ret True")
  case True
  have "list_all2 (\<lambda>p es. Id es = Id (described fl service clusterId p)) (svc_ports service) ess"
    by (rule list_all2_mono [OF export_ok [OF assms(1) True]]) (rule merge_ingress_keeps(9))
  then have "map Id ess = map (\<lambda>p. Id (described fl service clusterId p)) (svc_ports service)"
    by (simp add: list_all2_conv_all_nth list_eq_iff_nth_eq)
  then show ?thesis
    using assms(2) by (simp add: distinct_map inj_on_def described_Id)
next
  case False
  then show ?thesis
    using assms by (auto simp: NewExportedServicesFromKubeService_def split: go.splits bool.splits)
qed

theorem export_Ids_distinct_witness:
  "distinct (map Id [described Some demo_service ''c1'' demo_port])"
  by (rule export_Ids_distinct [OF demo_export]) (simp add: demo_service_def)

text \<open>Across Services the Id identifies nothing: the parts are joined by hyphens, which may occur
  in them, so Services of different namespaces and names share one Id.\<close>

lemma Id_collision:
  "\<exists>s t. (svc_namespace s, svc_name s) \<noteq> (svc_namespace t, svc_name t) \<and>
     Id (described fl s clusterId demo_port) = Id (described fl t clusterId demo_port)"
  by (rule exI [of _ "demo_service\<lparr>svc_namespace := ''a-b'', svc_name := ''c''\<rparr>"],
      rule exI [of _ "demo_service\<lparr>svc_namespace := ''a'', svc_name := ''b-c''\<rparr>"])
    (simp add: Id_def described_def Let_def annotation_def)



lemma demo_attrs:
  "int32_fields (described Some demo_service ''c1'' demo_port)"
  "attrs_ok Some (described Some demo_service ''c1'' demo_port)"
proof -
  have "ParseInt 32 ''8080'' = Inr 8080"
    by (simp add: ParseInt_def parse_uint_def is_digit_def digit_val_def)
  then show "int32_fields (described Some demo_service ''c1'' demo_port)"
    "attrs_ok Some (described Some demo_service ''c1'' demo_port)"
    by (simp_all add: int32_fields_def int32_def attrs_ok_def max_depth_def described_def Let_def parsed_or_def
        annotation_def annotation_prefix_def demo_service_def demo_port_def ServiceAnnotationExported_def
        ServiceAnnotationLoadBalancerListenPort_def ServiceAnnotationLoadBalancerHealthCheckPort_def
        ServiceAnnotationCustomAttrs_def)
qed



end
