(* ===== verification/Consul.thy ===== *)
theory Consul
  imports Stats
begin

text \<open>
  \<open>pkg/consul/instrumented\_consul.go\<close>, and what the exporter uses of the Consul API client. The
  client and the server behind it are third-party code: the six calls are a record of arbitrary
  functions on a server state of arbitrary type, and the theorems that need to know what Consul
  does name that knowledge as \<open>consul_ok\<close>. The requests the process sends are kept as a
  list, in the order they are sent.
\<close>

section \<open>The API\<close>

record KVPair =
  kv_Key :: string
  kv_Value :: string
  kv_Session :: string

record AgentServiceCheck =
  check_Name :: string
  check_TCP :: string
  check_Interval :: string

record AgentServiceRegistration =
  asr_ID :: string
  asr_Name :: string
  asr_Tags :: "string list"
  asr_Port :: int
  asr_Address :: string
  asr_Check :: AgentServiceCheck

record AgentService =
  as_ID :: string
  as_Service :: string
  as_Tags :: "string list"
  as_Port :: int
  as_Address :: string

datatype request =
    ReqGet string bool \<comment> \<open>with \<open>QueryOptions.RequireConsistent\<close>\<close>
  | ReqPut KVPair
  | ReqDeleteTree string
  | ReqRegister AgentServiceRegistration
  | ReqDeregister string
  | ReqServices

record 'w consul_api =
  api_Get :: "string \<Rightarrow> bool \<Rightarrow> 'w \<Rightarrow> KVPair option result \<times> 'w"
  api_Put :: "KVPair \<Rightarrow> 'w \<Rightarrow> go_error option \<times> 'w"
  api_DeleteTree :: "string \<Rightarrow> 'w \<Rightarrow> go_error option \<times> 'w"
  api_ServiceRegister :: "AgentServiceRegistration \<Rightarrow> 'w \<Rightarrow> go_error option \<times> 'w"
  api_ServiceDeregister :: "string \<Rightarrow> 'w \<Rightarrow> go_error option \<times> 'w"
  api_Services :: "'w \<Rightarrow> (string \<rightharpoonup> AgentService) result \<times> 'w"

text \<open>
  The world a Consul client lives in. \<open>leads\<close> are the answers a reader of the elector's flag gets,
  one after the other, and \<open>coins\<close> the choices of \<open>select\<close> between channels that are ready: both
  depend on other goroutines, so they are arbitrary.
\<close>

record 'w world = env +
  server :: 'w
  requests :: "request list"
  leads :: "nat \<Rightarrow> bool"
  asked :: nat
  coins :: "nat \<Rightarrow> bool"
  flipped :: nat

definition send :: "request \<Rightarrow> ('w \<Rightarrow> 'a \<times> 'w) \<Rightarrow> 'w world \<Rightarrow> 'a \<times> 'w world" where
  "send req f w = (let (r, s) = f (server w) in (r, w\<lparr>server := s, requests := requests w @ [req]\<rparr>))"

definition err_of :: "'a result \<Rightarrow> go_error option" where
  "err_of r = (case r of Inl e \<Rightarrow> Some e | Inr _ \<Rightarrow> None)"

section \<open>The instrumented calls\<close>

definition KV_Get ::
  "'w consul_api \<Rightarrow> string \<Rightarrow> bool \<Rightarrow> string list \<Rightarrow> 'w world \<Rightarrow> KVPair option result \<times> 'w world" where
  "KV_Get client key q tags w =
     (let all_tags = [''method:get''] @ tags;
          ((r, _), w) = WithTiming ''consul.kv.time'' all_tags
             (send (ReqGet key q) (api_Get client key q)) w;
          w = IncrSuccessOrFail (err_of r) ''consul.kv'' all_tags w
      in (r, w))"

definition KV_Put :: "'w consul_api \<Rightarrow> KVPair \<Rightarrow> string list \<Rightarrow> 'w world \<Rightarrow> go_error option \<times> 'w world" where
  "KV_Put client p tags w =
     (let all_tags = [''method:put''] @ tags;
          ((err, _), w) = WithTiming ''consul.kv.time'' all_tags (send (ReqPut p) (api_Put client p)) w;
          w = IncrSuccessOrFail err ''consul.kv'' all_tags w
      in (err, w))"

definition KV_DeleteTree ::
  "'w consul_api \<Rightarrow> string \<Rightarrow> string list \<Rightarrow> 'w world \<Rightarrow> go_error option \<times> 'w world" where
  "KV_DeleteTree client pre tags w =
     (let all_tags = [''method:delete''] @ tags;
          ((err, _), w) = WithTiming ''consul.kv.time'' all_tags
             (send (ReqDeleteTree pre) (api_DeleteTree client pre)) w;
          w = IncrSuccessOrFail err ''consul.kv'' all_tags w
      in (err, w))"

definition ServiceRegister ::
  "'w consul_api \<Rightarrow> AgentServiceRegistration \<Rightarrow> 'w world \<Rightarrow> go_error option \<times> 'w world" where
  "ServiceRegister client service w =
     (let tags = [''method:put'', ''service:'' @ asr_ID service];
          ((err, _), w) = WithTiming ''consul.service.time'' tags
             (send (ReqRegister service) (api_ServiceRegister client service)) w;
          w = IncrSuccessOrFail err ''consul.service'' tags w
      in (err, w))"

definition ServiceDeregister :: "'w consul_api \<Rightarrow> string \<Rightarrow> 'w world \<Rightarrow> go_error option \<times> 'w world" where
  "ServiceDeregister client serviceID w =
     (let tags = [''method:delete'', ''service:'' @ serviceID];
          ((err, _), w) = WithTiming ''consul.service.time'' tags
             (send (ReqDeregister serviceID) (api_ServiceDeregister client serviceID)) w;
          w = IncrSuccessOrFail err ''consul.service'' tags w
      in (err, w))"

definition Services :: "'w consul_api \<Rightarrow> 'w world \<Rightarrow> (string \<rightharpoonup> AgentService) result \<times> 'w world" where
  "Services client w =
     (let tags = [''method:get''];
          ((r, _), w) = WithTiming ''consul.service.time'' tags (send ReqServices (api_Services client)) w;
          w = IncrSuccessOrFail (err_of r) ''consul.service'' tags w
      in (r, w))"

section \<open>One shape for all of them\<close>

text \<open>
  Every call sends one request, returns the server's answer unchanged, reads the clock twice and
  sends a timing and a counter with the same tags.
\<close>

definition instrumented ::
  "string \<Rightarrow> string list \<Rightarrow> request \<Rightarrow> ('w \<Rightarrow> 'a \<times> 'w) \<Rightarrow> ('a \<Rightarrow> go_error option) \<Rightarrow> 'w world \<Rightarrow> 'a \<times> 'w world" where
  "instrumented pre tags req f err w =
     (let (r, s) = f (server w);
          took = Sub (clock w (Suc (reads w))) (clock w (reads w))
      in (r, w\<lparr>server := s, requests := requests w @ [req], reads := Suc (Suc (reads w)),
               emitted := emitted w @ [Timing (pre @ ''.time'') took tags,
                 Incr (pre @ (if err r = None then ''.success'' else ''.fail'')) tags]\<rparr>))"

lemmas stats_defs = WithTiming_def time_Since_def time_Now_def IncrSuccessOrFail_def emit_def send_def

lemma instrumented_calls:
  "KV_Get client key q tags = instrumented ''consul.kv'' (''method:get'' # tags) (ReqGet key q)
     (api_Get client key q) err_of"
  "KV_Put client p tags = instrumented ''consul.kv'' (''method:put'' # tags) (ReqPut p) (api_Put client p) id"
  "KV_DeleteTree client pre tags = instrumented ''consul.kv'' (''method:delete'' # tags) (ReqDeleteTree pre)
     (api_DeleteTree client pre) id"
  "ServiceRegister client service = instrumented ''consul.service'' [''method:put'', ''service:'' @ asr_ID service]
     (ReqRegister service) (api_ServiceRegister client service) id"
  "ServiceDeregister client sid = instrumented ''consul.service'' [''method:delete'', ''service:'' @ sid]
     (ReqDeregister sid) (api_ServiceDeregister client sid) id"
  "Services client = instrumented ''consul.service'' [''method:get''] ReqServices (api_Services client) err_of"
  by (auto simp: fun_eq_iff instrumented_def KV_Get_def KV_Put_def KV_DeleteTree_def ServiceRegister_def
      ServiceDeregister_def Services_def stats_defs Let_def split: prod.splits)

lemma instrumented_fields:
  "fst (instrumented pre tags req f err w) = fst (f (server w))"
  "server (snd (instrumented pre tags req f err w)) = snd (f (server w))"
  "requests (snd (instrumented pre tags req f err w)) = requests w @ [req]"
  "leads (snd (instrumented pre tags req f err w)) = leads w"
  "asked (snd (instrumented pre tags req f err w)) = asked w"
  "coins (snd (instrumented pre tags req f err w)) = coins w"
  "flipped (snd (instrumented pre tags req f err w)) = flipped w"
  by (simp_all add: instrumented_def Let_def split: prod.splits)

lemmas consul_simps = instrumented_calls instrumented_fields

section \<open>What Consul promises\<close>

text \<open>
  What the exporter relies on. \<open>kvs\<close> reads the key/value store and \<open>svcs\<close> the agent's services off
  the server's state; nobody else writes in between. Reading changes neither and returns what is
  stored. A write that reports no error took effect, on the keys it names and nothing else:
  \<open>Put\<close> stores the value, \<open>DeleteTree\<close> removes every key that starts with the given string. A
  write that reports an error may have taken effect or not.
\<close>

definition consul_ok ::
  "'w consul_api \<Rightarrow> ('w \<Rightarrow> string \<rightharpoonup> KVPair) \<Rightarrow> ('w \<Rightarrow> string \<rightharpoonup> AgentService) \<Rightarrow> bool" where
  "consul_ok api kvs svcs =
     ((\<forall>k q s r s'. api_Get api k q s = (r, s') \<longrightarrow> kvs s' = kvs s \<and> svcs s' = svcs s \<and> (\<forall>x. r = Inr x \<longrightarrow> x = kvs s k)) \<and>
      (\<forall>s r s'. api_Services api s = (r, s') \<longrightarrow> kvs s' = kvs s \<and> svcs s' = svcs s \<and> (\<forall>x. r = Inr x \<longrightarrow> x = svcs s)) \<and>
      (\<forall>p s s'. api_Put api p s = (None, s') \<longrightarrow>
         svcs s' = svcs s \<and> map_option kv_Value (kvs s' (kv_Key p)) = Some (kv_Value p) \<and>
         (\<forall>k. k \<noteq> kv_Key p \<longrightarrow> kvs s' k = kvs s k)) \<and>
      (\<forall>pre s s'. api_DeleteTree api pre s = (None, s') \<longrightarrow>
         svcs s' = svcs s \<and> (\<forall>k. kvs s' k = (if prefix pre k then None else kvs s k))) \<and>
      (\<forall>a s s'. api_ServiceRegister api a s = (None, s') \<longrightarrow>
         kvs s' = kvs s \<and> svcs s' = (svcs s)(asr_ID a \<mapsto>
           \<lparr>as_ID = asr_ID a, as_Service = asr_Name a, as_Tags = asr_Tags a, as_Port = asr_Port a,
            as_Address = asr_Address a\<rparr>)) \<and>
      (\<forall>i s s'. api_ServiceDeregister api i s = (None, s') \<longrightarrow>
         kvs s' = kvs s \<and> svcs s' = (svcs s)(i := None)))"

text \<open>
  The elector has a client of its own, which may talk to another datacenter; of that one only this
  is needed, that its reads leave the store as it is.
\<close>

definition reads_only :: "'w consul_api \<Rightarrow> ('w \<Rightarrow> string \<rightharpoonup> KVPair) \<Rightarrow> bool" where
  "reads_only api kvs = (\<forall>k q s. kvs (snd (api_Get api k q s)) = kvs s)"

lemmas consul_okD =
  consul_ok_def [THEN iffD1, THEN conjunct1, rule_format]
  consul_ok_def [THEN iffD1, THEN conjunct2, THEN conjunct1, rule_format]
  consul_ok_def [THEN iffD1, THEN conjunct2, THEN conjunct2, THEN conjunct1, rule_format]
  consul_ok_def [THEN iffD1, THEN conjunct2, THEN conjunct2, THEN conjunct2, THEN conjunct1, rule_format]
  consul_ok_def [THEN iffD1, THEN conjunct2, THEN conjunct2, THEN conjunct2, THEN conjunct2, THEN conjunct1, rule_format]
  consul_ok_def [THEN iffD1, THEN conjunct2, THEN conjunct2, THEN conjunct2, THEN conjunct2, THEN conjunct2, rule_format]

text \<open>The same for the instrumented calls, on the worlds before and after.\<close>

lemma instrumented_server:
  "instrumented pre tags req f err w = (r, w') \<Longrightarrow> f (server w) = (r, server w')"
  by (auto simp: instrumented_def Let_def split: prod.splits)

lemma call_ok:
  assumes ok: "consul_ok api kvs svcs"
  shows "KV_Get api k q tags w = (r, w') \<Longrightarrow>
      kvs (server w') = kvs (server w) \<and> svcs (server w') = svcs (server w) \<and>
      (\<forall>x. r = Inr x \<longrightarrow> x = kvs (server w) k)"
    and "Services api w = (rs, w') \<Longrightarrow>
      kvs (server w') = kvs (server w) \<and> svcs (server w') = svcs (server w) \<and>
      (\<forall>x. rs = Inr x \<longrightarrow> x = svcs (server w))"
    and "KV_Put api p tags w = (None, w') \<Longrightarrow>
      svcs (server w') = svcs (server w) \<and>
      map_option kv_Value (kvs (server w') (kv_Key p)) = Some (kv_Value p) \<and>
      (\<forall>k. k \<noteq> kv_Key p \<longrightarrow> kvs (server w') k = kvs (server w) k)"
    and "KV_DeleteTree api pre tags w = (None, w') \<Longrightarrow>
      svcs (server w') = svcs (server w) \<and>
      (\<forall>k. kvs (server w') k = (if prefix pre k then None else kvs (server w) k))"
    and "ServiceRegister api a w = (None, w') \<Longrightarrow>
      kvs (server w') = kvs (server w) \<and> svcs (server w') = (svcs (server w))(asr_ID a \<mapsto>
        \<lparr>as_ID = asr_ID a, as_Service = asr_Name a, as_Tags = asr_Tags a, as_Port = asr_Port a,
         as_Address = asr_Address a\<rparr>)"
    and "ServiceDeregister api i w = (None, w') \<Longrightarrow>
      kvs (server w') = kvs (server w) \<and> svcs (server w') = (svcs (server w))(i := None)"
  unfolding instrumented_calls by (drule instrumented_server, erule consul_okD [OF ok])+

text \<open>A Consul in memory that never fails: the laws can be met.\<close>

type_synonym memory = "(string \<rightharpoonup> KVPair) \<times> (string \<rightharpoonup> AgentService)"

definition memory_api :: "memory consul_api" where
  "memory_api =
     \<lparr>api_Get = (\<lambda>k q (kv, sv). (Inr (kv k), (kv, sv))),
      api_Put = (\<lambda>p (kv, sv). (None, (kv(kv_Key p \<mapsto> p), sv))),
      api_DeleteTree = (\<lambda>pre (kv, sv). (None, (\<lambda>k. if prefix pre k then None else kv k, sv))),
      api_ServiceRegister = (\<lambda>a (kv, sv). (None, (kv, sv(asr_ID a \<mapsto>
         \<lparr>as_ID = asr_ID a, as_Service = asr_Name a, as_Tags = asr_Tags a, as_Port = asr_Port a,
          as_Address = asr_Address a\<rparr>)))),
      api_ServiceDeregister = (\<lambda>i (kv, sv). (None, (kv, sv(i := None)))),
      api_Services = (\<lambda>(kv, sv). (Inr sv, (kv, sv)))\<rparr>"

lemma memory_ok: "consul_ok memory_api fst snd"
  by (auto simp: consul_ok_def memory_api_def)

lemma memory_reads: "reads_only memory_api fst"
  by (auto simp: reads_only_def memory_api_def)

definition memory_world :: "(string \<rightharpoonup> KVPair) \<Rightarrow> bool \<Rightarrow> memory world" where
  "memory_world kv lead =
     \<lparr>emitted = [], clock = (\<lambda>_. 0), reads = 0, server = (kv, Map.empty), requests = [],
      leads = (\<lambda>_. lead), asked = 0, coins = (\<lambda>_. False), flipped = 0\<rparr>"

section \<open>Properties\<close>

definition transparent ::
  "('w world \<Rightarrow> 'a \<times> 'w world) \<Rightarrow> request \<Rightarrow> ('w \<Rightarrow> 'a \<times> 'w) \<Rightarrow> string \<Rightarrow> ('a \<Rightarrow> go_error option) \<Rightarrow> bool" where
  "transparent call req f pre err =
     (\<forall>w. let (r, w') = call w in
        (r, server w') = f (server w) \<and> requests w' = requests w @ [req] \<and>
        (\<exists>took tags. emitted w' = emitted w @
           [Timing (pre @ ''.time'') took tags,
            Incr (pre @ (if err r = None then ''.success'' else ''.fail'')) tags]))"

lemma instrumented_transparent: "transparent (instrumented pre tags req f err) req f pre err"
  by (auto simp: transparent_def instrumented_def Let_def split: prod.splits)

text \<open>Each instrumented call sends exactly the request it stands for, hands the answer of the
  Consul client through, and reports one timing and one counter, which says success exactly when
  the client returned no error.\<close>

lemma instrumented_consul:
  "transparent (KV_Get client key q tags) (ReqGet key q) (api_Get client key q) ''consul.kv'' err_of \<and>
   transparent (KV_Put client p tags) (ReqPut p) (api_Put client p) ''consul.kv'' id \<and>
   transparent (KV_DeleteTree client pre tags) (ReqDeleteTree pre) (api_DeleteTree client pre) ''consul.kv'' id \<and>
   transparent (ServiceRegister client service) (ReqRegister service) (api_ServiceRegister client service)
     ''consul.service'' id \<and>
   transparent (ServiceDeregister client sid) (ReqDeregister sid) (api_ServiceDeregister client sid)
     ''consul.service'' id \<and>
   transparent (Services client) ReqServices (api_Services client) ''consul.service'' err_of"
  unfolding instrumented_calls by (intro conjI instrumented_transparent)

end
