(* ===== verification/Leader.thy ===== *)
theory Leader
  imports Consul
begin

text \<open>
  \<open>pkg/leader/consul\_leader\_elector.go\<close>: who may write the shared metadata. \<open>HasLeader\<close> and
  \<open>WaitForLeader\<close> are functions on the world of a Consul client; \<open>Run\<close>, which another goroutine
  executes, is a step relation on the elector's own state, one step per access to shared state, so
  that the readers of the flag may run between any two of them.
\<close>

section \<open>The interface\<close>

record 'w LeaderElector =
  el_IsLeader :: "'w world \<Rightarrow> bool \<times> 'w world"
  el_HasLeader :: "'w world \<Rightarrow> bool result \<times> 'w world"
  el_WaitForLeader :: "int \<Rightarrow> int \<Rightarrow> 'w world \<Rightarrow> go_error option \<times> 'w world"

text \<open>The requests that change what Consul stores.\<close>

fun is_write :: "request \<Rightarrow> bool" where
  "is_write (ReqGet k q) = False"
| "is_write ReqServices = False"
| "is_write _ = True"

definition writes :: "'w world \<Rightarrow> request list" where
  "writes w = filter is_write (requests w)"

text \<open>
  What a client of an elector relies on: asking changes nothing in Consul. The client's lemma is
  what an operation that first waits and then asks has done so far.
\<close>

locale leader_elector =
  fixes IsLeaderF :: "'w world \<Rightarrow> bool \<times> 'w world"
    and HasLeaderF :: "'w world \<Rightarrow> bool result \<times> 'w world"
    and WaitForLeaderF :: "int \<Rightarrow> int \<Rightarrow> 'w world \<Rightarrow> go_error option \<times> 'w world"
  assumes IsLeader_silent: "requests (snd (IsLeaderF w)) = requests w \<and> server (snd (IsLeaderF w)) = server w"
    and HasLeader_reads: "writes (snd (HasLeaderF w)) = writes w"
    and WaitForLeader_reads: "writes (snd (WaitForLeaderF wait tick w)) = writes w"
begin

lemma IsLeader_writes: "writes (snd (IsLeaderF w)) = writes w"
  using IsLeader_silent by (simp add: writes_def)

lemma wait_ask_writes:
  "WaitForLeaderF wait tick w = (err, w1) \<Longrightarrow> IsLeaderF w1 = (b, w2) \<Longrightarrow> writes w2 = writes w"
  using WaitForLeader_reads [of wait tick w] IsLeader_writes [of w1] by simp

end

section \<open>ConsulLeaderElector\<close>

record 'w ConsulLeaderElector =
  le_client :: "'w consul_api"
  le_clusterId :: string
  le_clientId :: string
  le_prefix :: string

definition leaderKey :: "'w ConsulLeaderElector \<Rightarrow> string" where
  "leaderKey le = le_prefix le @ ''/leadership/'' @ le_clusterId le @ ''-leader''"

definition IsLeader :: "'w ConsulLeaderElector \<Rightarrow> 'w world \<Rightarrow> bool \<times> 'w world" where
  "IsLeader le w = (leads w (asked w), w\<lparr>asked := Suc (asked w)\<rparr>)"

definition HasLeader :: "'w ConsulLeaderElector \<Rightarrow> 'w world \<Rightarrow> bool result \<times> 'w world" where
  "HasLeader le w =
     (let (r, w) = KV_Get (le_client le) (leaderKey le) True [''kv:leader''] w in
      case r of
        Inl err \<Rightarrow> (Inl (Wrap err ''In HasLeader''), w)
      | Inr None \<Rightarrow> (Inr False, w)
      | Inr (Some kvPair) \<Rightarrow> if kv_Session kvPair = [] then (Inr False, w) else (Inr True, w))"

text \<open>
  \<open>Duration.String\<close>: hours, minutes and seconds with a fraction, or a unit below one second.
\<close>

fun strip_zeros :: "string \<Rightarrow> string" where
  "strip_zeros s = (if s \<noteq> [] \<and> last s = CHR ''0'' then strip_zeros (butlast s) else s)"

declare strip_zeros.simps [simp del]

definition frac :: "nat \<Rightarrow> nat \<Rightarrow> string" where
  "frac digits n =
     (let d = show_nat n; s = strip_zeros (replicate (digits - length d) (CHR ''0'') @ d)
      in if s = [] then [] else CHR ''.'' # s)"

definition Duration_String :: "int \<Rightarrow> string" where
  "Duration_String d =
     (let u = nat \<bar>d\<bar>; sgn = (if d < 0 then ''-'' else []) in
      if u = 0 then ''0s''
      else if u < 1000 then sgn @ show_nat u @ ''ns''
      else if u < 1000000 then sgn @ show_nat (u div 1000) @ frac 3 (u mod 1000) @ [CHR 0xC2, CHR 0xB5] @ ''s''
      else if u < 1000000000 then sgn @ show_nat (u div 1000000) @ frac 6 (u mod 1000000) @ ''ms''
      else let s = u div 1000000000; f = frac 9 (u mod 1000000000)
           in sgn @ (if s < 60 then [] else
                     (if s < 3600 then [] else show_nat (s div 3600) @ ''h'') @
                     show_nat (s div 60 mod 60) @ ''m'') @
              show_nat (s mod 60) @ f @ ''s'')"

text \<open>
  \<open>WaitForLeader\<close> makes two timers. A timer fires once, so after its first tick the ticker's
  channel stays silent; when both channels are ready at the \<open>select\<close>, which one is taken is a
  coin. The flag says whether the ticker has yet to fire.
\<close>

function (sequential) wait_loop :: "'w ConsulLeaderElector \<Rightarrow> int \<Rightarrow> bool \<Rightarrow> 'w world \<Rightarrow> go_error option \<times> 'w world" where
  "wait_loop le wait False w = (Some (New (''no leader found after '' @ Duration_String wait)), w)"
| "wait_loop le wait True w =
     (if coins w (flipped w)
      then (Some (New (''no leader found after '' @ Duration_String wait)), w\<lparr>flipped := Suc (flipped w)\<rparr>)
      else let (ok, w) = HasLeader le (w\<lparr>flipped := Suc (flipped w)\<rparr>) in
           if ok = Inr True then (None, w) else wait_loop le wait False w)"
  by pat_completeness auto
termination
  by (relation "measure (\<lambda>(_, _, ticking, _). of_bool ticking)") auto

definition WaitForLeader ::
  "'w ConsulLeaderElector \<Rightarrow> int \<Rightarrow> int \<Rightarrow> 'w world \<Rightarrow> go_error option \<times> 'w world" where
  "WaitForLeader le wait tick w = wait_loop le wait True w"

definition elector_of :: "'w ConsulLeaderElector \<Rightarrow> 'w LeaderElector" where
  "elector_of le =
     \<lparr>el_IsLeader = IsLeader le, el_HasLeader = HasLeader le, el_WaitForLeader = WaitForLeader le\<rparr>"

lemma HasLeader_world:
  "requests (snd (HasLeader le w)) = requests w @ [ReqGet (leaderKey le) True]"
  "server (snd (HasLeader le w)) = snd (api_Get (le_client le) (leaderKey le) True (server w))"
  "leads (snd (HasLeader le w)) = leads w" "asked (snd (HasLeader le w)) = asked w"
  by (auto simp: HasLeader_def Let_def case_prod_beta consul_simps split: sum.split option.split)

lemma HasLeader_writes: "writes (snd (HasLeader le w)) = writes w"
  by (simp add: writes_def HasLeader_world)

lemma WaitForLeader_writes: "writes (snd (WaitForLeader le wait tick w)) = writes w"
  using HasLeader_writes [of le "w\<lparr>flipped := Suc (flipped w)\<rparr>"]
  by (auto simp: WaitForLeader_def Let_def case_prod_beta) (simp_all add: writes_def)

interpretation cle: leader_elector "IsLeader le" "HasLeader le" "WaitForLeader le"
  for le :: "'w ConsulLeaderElector"
  by unfold_locales (simp_all add: IsLeader_def HasLeader_writes WaitForLeader_writes)

section \<open>Run, as a state machine\<close>

text \<open>
  \<open>lock.Lock\<close> returns an error; or a channel that is closed when the lock is lost; or, when the
  stop channel is closed while it waits, neither a channel nor an error. \<open>held\<close> is the lock
  object's own note that it holds the lock, \<open>lost\<close> that the channel it gave out is closed.
  A receive from a nil channel blocks forever.
\<close>

datatype lock_chan = NilChan | LockChan

datatype pc =
    AtLockOpts | AtLock | AtSet lock_chan | AtSelect lock_chan | AtUnset bool | AtUnlock bool
  | Returned "go_error option"

record elector =
  pos :: pc
  isLeader :: bool
  held :: bool
  lost :: bool
  stopClosed :: bool
  sent :: "metric list"

definition setIsLeader :: "string \<Rightarrow> bool \<Rightarrow> elector \<Rightarrow> elector" where
  "setIsLeader clientId val le =
     le\<lparr>isLeader := val,
        sent := sent le @ [Incr (if val then ''consul.leadership.elected'' else ''consul.leadership.relinquished'')
                            [''client_id:'' @ clientId]]\<rparr>"

inductive run_step :: "string \<Rightarrow> elector \<Rightarrow> elector \<Rightarrow> bool" for c :: string where
  opts_fail: "pos s = AtLockOpts \<Longrightarrow> run_step c s (s\<lparr>pos := Returned (Some e)\<rparr>)"
| opts_ok: "pos s = AtLockOpts \<Longrightarrow> run_step c s (s\<lparr>pos := AtLock\<rparr>)"
| lock_fail: "pos s = AtLock \<Longrightarrow> run_step c s s"
| lock_won: "pos s = AtLock \<Longrightarrow> run_step c s (s\<lparr>pos := AtSet LockChan, held := True, lost := False\<rparr>)"
| lock_aborted: "\<lbrakk>pos s = AtLock; stopClosed s\<rbrakk> \<Longrightarrow> run_step c s (s\<lparr>pos := AtSet NilChan\<rparr>)"
| elected: "pos s = AtSet l \<Longrightarrow> run_step c s ((setIsLeader c True s)\<lparr>pos := AtSelect l\<rparr>)"
| select_lost: "\<lbrakk>pos s = AtSelect LockChan; lost s\<rbrakk> \<Longrightarrow> run_step c s (s\<lparr>pos := AtUnset False\<rparr>)"
| select_stop: "\<lbrakk>pos s = AtSelect l; stopClosed s\<rbrakk> \<Longrightarrow> run_step c s (s\<lparr>pos := AtUnset True\<rparr>)"
| relinquished: "pos s = AtUnset b \<Longrightarrow> run_step c s ((setIsLeader c False s)\<lparr>pos := AtUnlock b\<rparr>)"
| unlock: "pos s = AtUnlock b \<Longrightarrow>
    run_step c s (s\<lparr>pos := (if b then Returned None else AtLock), held := False\<rparr>)"

text \<open>The two steps of the surroundings: Consul takes the lock away, and \<open>Stop\<close> closes the channel.\<close>

inductive env_step :: "elector \<Rightarrow> elector \<Rightarrow> bool" where
  lose: "held s \<Longrightarrow> env_step s (s\<lparr>lost := True\<rparr>)"
| stop: "env_step s (s\<lparr>stopClosed := True\<rparr>)"

definition NewElector :: elector where
  "NewElector = \<lparr>pos = AtLockOpts, isLeader = False, held = False, lost = False, stopClosed = False, sent = []\<rparr>"

inductive reached :: "string \<Rightarrow> elector \<Rightarrow> bool" for c :: string where
  init: "reached c NewElector"
| run: "\<lbrakk>reached c s; run_step c s s'\<rbrakk> \<Longrightarrow> reached c s'"
| env: "\<lbrakk>reached c s; env_step s s'\<rbrakk> \<Longrightarrow> reached c s'"

inductive_cases run_stepE: "run_step c s s'"
inductive_cases env_stepE: "env_step s s'"

definition count_of :: "string \<Rightarrow> elector \<Rightarrow> nat" where
  "count_of name s = length (filter (\<lambda>m. \<exists>ts. m = Incr name ts) (sent s))"

text \<open>The invariant: where the flag is up and where the lock object holds the lock.\<close>

definition elector_inv :: "elector \<Rightarrow> bool" where
  "elector_inv s =
     ((isLeader s \<longleftrightarrow> (\<exists>l. pos s = AtSelect l) \<or> (\<exists>b. pos s = AtUnset b)) \<and>
      (pos s \<in> {AtSet NilChan, AtSelect NilChan} \<longrightarrow> stopClosed s) \<and>
      (pos s \<in> {AtSet LockChan, AtSelect LockChan, AtUnset False, AtUnlock False} \<longrightarrow> held s) \<and>
      (pos s \<in> {AtUnset True, AtUnlock True} \<longrightarrow> stopClosed s) \<and>
      (pos s \<in> {AtLockOpts, AtLock, AtSet NilChan, AtSelect NilChan} \<or> (\<exists>r. pos s = Returned r) \<longrightarrow> \<not> held s) \<and>
      count_of ''consul.leadership.elected'' s =
        count_of ''consul.leadership.relinquished'' s + (if isLeader s then 1 else 0))"

lemma count_setIsLeader [simp]:
  "count_of ''consul.leadership.elected'' (setIsLeader c v s) =
     count_of ''consul.leadership.elected'' s + (if v then 1 else 0)"
  "count_of ''consul.leadership.relinquished'' (setIsLeader c v s) =
     count_of ''consul.leadership.relinquished'' s + (if v then 0 else 1)"
  by (cases v; simp add: count_of_def setIsLeader_def)+

lemma count_updates [simp]:
  "count_of n (s\<lparr>pos := p\<rparr>) = count_of n s" "count_of n (s\<lparr>held := b\<rparr>) = count_of n s"
  "count_of n (s\<lparr>lost := b\<rparr>) = count_of n s" "count_of n (s\<lparr>stopClosed := b\<rparr>) = count_of n s"
  by (simp_all add: count_of_def)

lemma setIsLeader_fields [simp]:
  "pos (setIsLeader c v s) = pos s" "isLeader (setIsLeader c v s) = v" "held (setIsLeader c v s) = held s"
  "lost (setIsLeader c v s) = lost s" "stopClosed (setIsLeader c v s) = stopClosed s"
  by (simp_all add: setIsLeader_def)

lemma elector_inv_run: "\<lbrakk>run_step c s s'; elector_inv s\<rbrakk> \<Longrightarrow> elector_inv s'"
  by (erule run_stepE) (auto simp: elector_inv_def)

lemma elector_inv_env: "\<lbrakk>env_step s s'; elector_inv s\<rbrakk> \<Longrightarrow> elector_inv s'"
  by (erule env_stepE) (auto simp: elector_inv_def)

lemma reached_inv: "reached c s \<Longrightarrow> elector_inv s"
proof (induction rule: reached.induct)
  case init
  then show ?case by (simp add: NewElector_def elector_inv_def count_of_def)
qed (blast intro: elector_inv_run elector_inv_env)+

section \<open>Properties\<close>

lemma HasLeader_result:
  "fst (HasLeader le w) = Inr True \<longleftrightarrow>
     (\<exists>p. fst (api_Get (le_client le) (leaderKey le) True (server w)) = Inr (Some p) \<and> kv_Session p \<noteq> [])"
  by (auto simp: HasLeader_def Let_def case_prod_beta consul_simps split: sum.split option.split)

text \<open>\<open>WaitForLeader\<close> returns, and reads the leader's key at most once, whatever the tick: not at
  all when the waiter's channel is taken first, and otherwise once, with success exactly when the
  key is there and belongs to a session.\<close>

lemma WaitForLeader_once:
  "case WaitForLeader le wait tick w of (err, w') \<Rightarrow>
     if coins w (flipped w)
     then requests w' = requests w \<and> err = Some (New (''no leader found after '' @ Duration_String wait))
     else requests w' = requests w @ [ReqGet (leaderKey le) True] \<and>
       err = (if \<exists>p. fst (api_Get (le_client le) (leaderKey le) True (server w)) = Inr (Some p) \<and>
                    kv_Session p \<noteq> []
              then None else Some (New (''no leader found after '' @ Duration_String wait)))"
proof -
  obtain ok w1 where h: "HasLeader le (w\<lparr>flipped := Suc (flipped w)\<rparr>) = (ok, w1)" by fastforce
  have "requests w1 = requests w @ [ReqGet (leaderKey le) True]"
    using HasLeader_world(1) [of le "w\<lparr>flipped := Suc (flipped w)\<rparr>"] h by simp
  moreover have "ok = Inr True \<longleftrightarrow>
      (\<exists>p. fst (api_Get (le_client le) (leaderKey le) True (server w)) = Inr (Some p) \<and> kv_Session p \<noteq> [])"
    using HasLeader_result [of le "w\<lparr>flipped := Suc (flipped w)\<rparr>"] h by simp
  ultimately show ?thesis by (auto simp: WaitForLeader_def h)
qed

lemma inv_flag: "elector_inv s \<Longrightarrow> isLeader s \<Longrightarrow> held s \<or> stopClosed s"
proof (cases "pos s")
  case (AtSelect l)
  then show "elector_inv s \<Longrightarrow> isLeader s \<Longrightarrow> held s \<or> stopClosed s"
    by (cases l) (simp_all add: elector_inv_def)
next
  case (AtUnset b)
  then show "elector_inv s \<Longrightarrow> isLeader s \<Longrightarrow> held s \<or> stopClosed s"
    by (cases b) (simp_all add: elector_inv_def)
qed (simp_all add: elector_inv_def)

text \<open>C14: whatever Consul and the stop signal do, the leader flag is up only while the lock object
  holds the lock or the elector is being stopped; when \<open>Run\<close> has returned, the flag is down and the
  lock is released; and every election that was reported is reported as relinquished before the
  next one.\<close>

theorem elector_flag:
  assumes "reached c s"
  shows "(isLeader s \<longrightarrow> held s \<or> stopClosed s) \<and>
    ((\<exists>r. pos s = Returned r) \<longrightarrow> \<not> isLeader s \<and> \<not> held s) \<and>
    count_of ''consul.leadership.elected'' s =
      count_of ''consul.leadership.relinquished'' s + (if isLeader s then 1 else 0)"
proof (intro conjI impI)
  note inv = reached_inv [OF assms]
  show "isLeader s \<Longrightarrow> held s \<or> stopClosed s" by (rule inv_flag [OF inv])
  show "\<exists>r. pos s = Returned r \<Longrightarrow> \<not> isLeader s" "\<exists>r. pos s = Returned r \<Longrightarrow> \<not> held s"
    using inv by (elim exE; simp add: elector_inv_def)+
  show "count_of ''consul.leadership.elected'' s =
      count_of ''consul.leadership.relinquished'' s + (if isLeader s then 1 else 0)"
    using inv unfolding elector_inv_def by (elim conjE)
qed

theorem elector_flag_witness:
  "\<exists>s. reached ''me'' s \<and> isLeader s \<and> held s \<and> \<not> stopClosed s"
proof -
  let ?s1 = "NewElector\<lparr>pos := AtLock\<rparr>"
  let ?s2 = "?s1\<lparr>pos := AtSet LockChan, held := True, lost := False\<rparr>"
  let ?s3 = "(setIsLeader ''me'' True ?s2)\<lparr>pos := AtSelect LockChan\<rparr>"
  have "reached ''me'' ?s1" by (rule reached.run [OF reached.init opts_ok]) (simp add: NewElector_def)
  then have "reached ''me'' ?s2" by (rule reached.run [OF _ lock_won]) simp
  then have r: "reached ''me'' ?s3" by (rule reached.run [OF _ elected]) simp
  have "isLeader ?s3 \<and> \<not> stopClosed ?s3" by (simp add: NewElector_def)
  moreover from this have "held ?s3" using elector_flag [OF r] by blast
  ultimately show ?thesis using r by blast
qed

text \<open>A process that is stopped while it waits for the lock declares itself the leader once more,
  although it never held the lock: \<open>lock.Lock\<close> returns no error then.\<close>

lemma elected_without_lock:
  "\<exists>s. reached c s \<and> isLeader s \<and> \<not> held s \<and> count_of ''consul.leadership.elected'' s = 1"
proof -
  let ?s1 = "NewElector\<lparr>pos := AtLock\<rparr>"
  let ?s2 = "?s1\<lparr>stopClosed := True\<rparr>"
  let ?s3 = "?s2\<lparr>pos := AtSet NilChan\<rparr>"
  let ?s4 = "(setIsLeader c True ?s3)\<lparr>pos := AtSelect NilChan\<rparr>"
  have "reached c ?s1" by (rule reached.run [OF reached.init opts_ok]) (simp add: NewElector_def)
  then have "reached c ?s2" by (rule reached.env [OF _ stop])
  then have "reached c ?s3" by (rule reached.run [OF _ lock_aborted]) simp_all
  then have "reached c ?s4" by (rule reached.run [OF _ elected]) simp
  moreover have "isLeader ?s4 \<and> \<not> held ?s4 \<and> count_of ''consul.leadership.elected'' ?s4 = 1"
    by (simp add: NewElector_def count_of_def setIsLeader_def)
  ultimately show ?thesis by blast
qed

text \<open>A stopped elector gets to the end from every place of \<open>Run\<close>.\<close>

definition can_return :: "string \<Rightarrow> elector \<Rightarrow> bool" where
  "can_return c s = (\<exists>s' r. (run_step c)\<^sup>*\<^sup>* s s' \<and> pos s' = Returned r)"

lemma can_return_step: "\<lbrakk>run_step c s s'; can_return c s'\<rbrakk> \<Longrightarrow> can_return c s"
  unfolding can_return_def by (meson converse_rtranclp_into_rtranclp)

lemma can_return_places:
  assumes "stopClosed s"
  shows "pos s = AtUnlock True \<Longrightarrow> can_return c s" and "pos s = AtUnset True \<Longrightarrow> can_return c s"
    and "pos s = AtSelect l \<Longrightarrow> can_return c s" and "pos s = AtSet l \<Longrightarrow> can_return c s"
    and "pos s = AtLock \<Longrightarrow> can_return c s"
proof -
  have 1: "can_return c s" if "pos s = AtUnlock True" for s
    unfolding can_return_def
    by (rule exI, rule exI [of _ None], rule conjI, rule r_into_rtranclp, rule unlock [OF that]) simp
  have 2: "can_return c s" if "pos s = AtUnset True" for s
    by (rule can_return_step [OF relinquished [OF that]], rule 1) simp
  have 3: "can_return c s" if "pos s = AtSelect l" "stopClosed s" for s l
    by (rule can_return_step [OF select_stop [OF that]], rule 2) simp
  have 4: "can_return c s" if "pos s = AtSet l" "stopClosed s" for s l
    by (rule can_return_step [OF elected [OF that(1)]], rule 3) (use that in simp_all)
  have 5: "can_return c s" if "pos s = AtLock" "stopClosed s" for s
    by (rule can_return_step [OF lock_aborted [OF that]], rule 4) (use that in simp_all)
  show "pos s = AtUnlock True \<Longrightarrow> can_return c s" "pos s = AtUnset True \<Longrightarrow> can_return c s"
    "pos s = AtSelect l \<Longrightarrow> can_return c s" "pos s = AtSet l \<Longrightarrow> can_return c s"
    "pos s = AtLock \<Longrightarrow> can_return c s"
    using assms 1 2 3 4 5 by blast+
qed

text \<open>Once \<open>Stop\<close> has closed the channel, \<open>Run\<close> can return from every state, with or without
  the lock: it is never stuck at a nil channel.\<close>

lemma Run_can_return:
  assumes "stopClosed s"
  shows "\<exists>s' r. (run_step c)\<^sup>*\<^sup>* s s' \<and> pos s' = Returned r"
proof -
  note places = can_return_places [OF assms, where c = c]
  have "can_return c s"
  proof (cases "pos s")
    case AtLockOpts
    then show ?thesis by (rule can_return_step [OF opts_ok]) (rule can_return_places(5); simp add: assms)
  next
    case (AtUnset b)
    show ?thesis
    proof (cases b)
      case False
      have "can_return c (s\<lparr>pos := AtLock, held := False\<rparr>)" if "stopClosed s" for s
        using that by (intro can_return_places(5)) simp_all
      then have "can_return c s" if "pos s = AtUnlock False" "stopClosed s" for s
        using can_return_step [OF unlock [OF that(1)]] that(2) by simp
      then show ?thesis
        using can_return_step [OF relinquished [OF AtUnset]] AtUnset False assms by simp
    qed (use AtUnset places in simp)
  next
    case (AtUnlock b)
    then show ?thesis
      using can_return_step [OF unlock [OF AtUnlock]]
        can_return_places(5) [of "s\<lparr>pos := AtLock, held := False\<rparr>", where c = c] assms places
      by (cases b) simp_all
  qed (use places in \<open>auto simp: can_return_def\<close>)
  then show ?thesis by (simp add: can_return_def)
qed

lemma Run_can_return_witness:
  "\<exists>s' r. (run_step ''me'')\<^sup>*\<^sup>* (NewElector\<lparr>pos := AtSelect NilChan, stopClosed := True\<rparr>) s' \<and> pos s' = Returned r"
  by (rule Run_can_return) simp

end
