(* ===== verification/ConsulTarget.thy ===== *)
theory ConsulTarget
  imports ExportedService Leader
begin

text \<open>
  \<open>pkg/controller/consul\_target.go\<close>: writing exported services and nodes to Consul. What the code
  takes from third parties is in one record: the reading of JSON numbers as \<open>float64\<close>,
  \<open>hashstructure.Hash\<close>, parsing and executing a key template, and \<open>sort.Sort\<close>, of which nothing
  is assumed on elements with equal keys.
\<close>

section \<open>State\<close>

record ExportedNode =
  en_Name :: string
  en_Address :: string

record deps =
  d_float :: "string \<Rightarrow> string option"
  d_hash :: "ExportedService \<Rightarrow> 64 word result"
  d_template :: "string \<Rightarrow> ExportedService \<Rightarrow> string result"
  d_sort :: "ExportedNode list \<Rightarrow> ExportedNode list"

record 'w ConsulTarget =
  t_client :: "'w consul_api"
  t_elector :: "'w LeaderElector"
  hostIP :: string
  kvPrefix :: string
  t_clusterId :: string
  servicesEnabled :: bool
  servicesKeyTmpl :: string

section \<open>Operations\<close>

definition metadataPrefix :: "deps \<Rightarrow> 'w ConsulTarget \<Rightarrow> ExportedService \<Rightarrow> string result" where
  "metadataPrefix D t es =
     (if servicesKeyTmpl t \<noteq> [] then
        (case d_template D (servicesKeyTmpl t) es of
           Inl err \<Rightarrow> Inl err
         | Inr s \<Rightarrow> Inr (kvPrefix t @ ''/services/'' @ s @ ''/clusters/'' @ ClusterId es))
      else Inr (kvPrefix t @ ''/services/'' @ Id es @ ''/clusters/'' @ ClusterId es))"

definition writeKV ::
  "deps \<Rightarrow> 'w ConsulTarget \<Rightarrow> ExportedService \<Rightarrow> 'w world \<Rightarrow> go_error option \<times> 'w world" where
  "writeKV D t es w =
     (case MarshalJSON (d_hash D) es of
        Inl err \<Rightarrow> (Some (Wrap err ''Error marshaling ExportedService JSON''), w)
      | Inr esJson \<Rightarrow>
          (case metadataPrefix D t es of
             Inl err \<Rightarrow> (Some (Wrap err ''error calculating key prefix''), w)
           | Inr key \<Rightarrow>
               KV_Put (t_client t) \<lparr>kv_Key = key, kv_Value = esJson, kv_Session = []\<rparr> [''kv:metadata''] w))"

definition asrFromExportedService :: "'w ConsulTarget \<Rightarrow> ExportedService \<Rightarrow> AgentServiceRegistration" where
  "asrFromExportedService t es =
     \<lparr>asr_ID = Id es, asr_Name = Id es, asr_Tags = [ClusterId es, ''kube-service-exporter''],
      asr_Port = Port es, asr_Address = hostIP t,
      asr_Check = \<lparr>check_Name = ''NodePort'', check_TCP = hostIP t @ '':'' @ Itoa (Port es),
                   check_Interval = ''10s''\<rparr>\<rparr>"

definition shouldUpdateKV ::
  "deps \<Rightarrow> 'w ConsulTarget \<Rightarrow> ExportedService \<Rightarrow> 'w world \<Rightarrow> bool result \<times> 'w world" where
  "shouldUpdateKV D t es w =
     (case metadataPrefix D t es of
        Inl err \<Rightarrow> (Inl (Wrap err ''error calculating key prefix''), w)
      | Inr key \<Rightarrow>
          let (r, w) = KV_Get (t_client t) key True [''kv:metadata''] w in
          case r of
            Inl err \<Rightarrow> (Inl (Wrap err ''Error getting KV hash''), w)
          | Inr None \<Rightarrow> (Inr True, w)
          | Inr (Some kvPair) \<Rightarrow>
              (case Unmarshal_map (d_float D) (kv_Value kvPair) of
                 Inl err \<Rightarrow> (Inl (Wrap err ''Error unmarshaling JSON from Consul''), w)
               | Inr meta \<Rightarrow>
                   (case Option.bind meta (\<lambda>m. map_of m ''hash'') of
                      None \<Rightarrow> (Inr True, w)
                    | Some consulHash \<Rightarrow>
                        (case Hash (d_hash D) es of
                           Inl err \<Rightarrow> (Inl (Wrap err ''Error getting ExportedService Hash in shouldUpdateKV''), w)
                         | Inr hash \<Rightarrow> (Inr (consulHash \<noteq> JStr hash), w)))))"

text \<open>\<open>sort.Strings\<close> works in place: when the service is already registered, the tags of the
  registration that is sent afterwards are the sorted ones.\<close>

definition shouldUpdateService ::
  "'w ConsulTarget \<Rightarrow> AgentServiceRegistration \<Rightarrow> 'w world \<Rightarrow>
   (bool \<times> AgentServiceRegistration) result \<times> 'w world" where
  "shouldUpdateService t asr w =
     (if \<not> servicesEnabled t then (Inr (False, asr), w)
      else let (r, w) = Services (t_client t) w in
        case r of
          Inl err \<Rightarrow> (Inl (Wrap err ''Error getting agent services''), w)
        | Inr services \<Rightarrow>
            (case services (asr_ID asr) of
               None \<Rightarrow> (Inr (True, asr), w)
             | Some service \<Rightarrow>
                 let asr = asr\<lparr>asr_Tags := sort (asr_Tags asr)\<rparr>;
                     same = (asr_ID asr = as_ID service \<and> asr_Name asr = as_Service service \<and>
                       asr_Tags asr = sort (as_Tags service) \<and> asr_Port asr = as_Port service \<and>
                       asr_Address asr = as_Address service)
                 in (Inr (\<not> same, asr), w)))"

definition seconds :: "int \<Rightarrow> int" where
  "seconds n = n * 1000000000"

text \<open>\<open>Create\<close> in two parts: the agent's service, and the metadata that only the leader writes.\<close>

definition createKV ::
  "deps \<Rightarrow> 'w ConsulTarget \<Rightarrow> ExportedService \<Rightarrow> 'w world \<Rightarrow> (bool \<times> go_error option) \<times> 'w world" where
  "createKV D t es w =
     (let (leader, w) = el_IsLeader (t_elector t) w in
      if \<not> leader then ((True, None), w)
      else let (updateKV, w) = shouldUpdateKV D t es w in
        case updateKV of
          Inl err \<Rightarrow> ((False, Some (Wrap err ''Error calling shouldUpdateKV'')), w)
        | Inr False \<Rightarrow> ((True, None), w)
        | Inr True \<Rightarrow>
            let (err, w) = writeKV D t es w in
            if err \<noteq> None then ((False, err), w) else ((True, None), w))"

definition createService ::
  "'w ConsulTarget \<Rightarrow> ExportedService \<Rightarrow> 'w world \<Rightarrow> go_error option \<times> 'w world" where
  "createService t es w =
     (let asr = asrFromExportedService t es;
          wait = seconds 15;
          (err, w) = el_WaitForLeader (t_elector t) wait (seconds 1) w in
      case err of
        Some e \<Rightarrow> (Some (Wrap e (''No leader found after '' @ Duration_String wait @
                      '', refusing to create '' @ Id es)), w)
      | None \<Rightarrow>
          let (updateService, w) = shouldUpdateService t asr w in
          case updateService of
            Inl e \<Rightarrow> (Some (Wrap e ''Error calling shouldUpdateService''), w)
          | Inr (False, _) \<Rightarrow> (None, w)
          | Inr (True, asr) \<Rightarrow> ServiceRegister (t_client t) asr w)"

definition Create ::
  "deps \<Rightarrow> 'w ConsulTarget \<Rightarrow> ExportedService \<Rightarrow> 'w world \<Rightarrow> (bool \<times> go_error option) \<times> 'w world" where
  "Create D t es w =
     (let (err, w) = createService t es w in
      case err of
        Some e \<Rightarrow> ((False, Some e), w)
      | None \<Rightarrow> createKV D t es w)"

definition Delete ::
  "deps \<Rightarrow> 'w ConsulTarget \<Rightarrow> ExportedService \<Rightarrow> 'w world \<Rightarrow> (bool \<times> go_error option) \<times> 'w world" where
  "Delete D t es w =
     (let (err, w) = ServiceDeregister (t_client t) (Id es) w in
      if err \<noteq> None then ((False, err), w)
      else let (leader, w) = el_IsLeader (t_elector t) w in
        if \<not> leader then ((True, None), w)
        else (case metadataPrefix D t es of
                Inl e \<Rightarrow> ((False, Some e), w)
              | Inr pre \<Rightarrow>
                  let (err, w) = KV_DeleteTree (t_client t) pre [''kv:metadata''] w in
                  if err \<noteq> None then ((False, err), w) else ((True, None), w)))"

definition or_empty :: "string result \<Rightarrow> string" where
  "or_empty r = (case r of Inl _ \<Rightarrow> [] | Inr s \<Rightarrow> s)"

definition clean ::
  "deps \<Rightarrow> 'w ConsulTarget \<Rightarrow> ExportedService option \<Rightarrow> ExportedService \<Rightarrow> 'w world \<Rightarrow>
   (bool \<times> go_error option) \<times> 'w world" where
  "clean D t old_ptr new_es w =
     (case old_ptr of
        None \<Rightarrow> ((False, None), w)
      | Some old \<Rightarrow>
          if or_empty (metadataPrefix D t old) = or_empty (metadataPrefix D t new_es) then ((False, None), w)
          else Delete D t old w)"

definition Update ::
  "deps \<Rightarrow> 'w ConsulTarget \<Rightarrow> ExportedService option \<Rightarrow> ExportedService \<Rightarrow> 'w world \<Rightarrow>
   (bool \<times> go_error option) \<times> 'w world" where
  "Update D t old_ptr new_es w =
     (let ((created, err), w) = Create D t new_es w in
      case err of
        Some e \<Rightarrow> ((False, Some (Wrap e ''error creating new key'')), w)
      | None \<Rightarrow>
          let ((_, err), w) = clean D t old_ptr new_es w in
          case err of
            Some e \<Rightarrow> ((created, Some (Wrap e ''error deleting old/changed key'')), w)
          | None \<Rightarrow> ((created, None), w))"

text \<open>The node list: the internal addresses, in the order of the nodes and of their addresses.\<close>

definition exported_nodes :: "Node list \<Rightarrow> ExportedNode list" where
  "exported_nodes nodes = concat (map (\<lambda>k8sNode.
     concat (map (\<lambda>addr. if addr_type addr \<noteq> NodeInternalIP then []
                         else [\<lparr>en_Name = node_name k8sNode, en_Address = addr_address addr\<rparr>])
       (addresses k8sNode))) nodes)"

text \<open>A slice that nothing was appended to is nil, and nil is printed as \<open>null\<close>.\<close>

definition nodes_json :: "ExportedNode list \<Rightarrow> json" where
  "nodes_json exportedNodes =
     (if exportedNodes = [] then JNull
      else JArr (map (\<lambda>n. JObj [(''Name'', JStr (en_Name n)), (''Address'', JStr (en_Address n))]) exportedNodes))"

definition nodesKey :: "'w ConsulTarget \<Rightarrow> string" where
  "nodesKey t = kvPrefix t @ ''/nodes/'' @ t_clusterId t"

definition WriteNodes ::
  "deps \<Rightarrow> 'w ConsulTarget \<Rightarrow> Node list \<Rightarrow> 'w world \<Rightarrow> go_error option \<times> 'w world" where
  "WriteNodes D t nodes w =
     (let (leader, w) = el_IsLeader (t_elector t) w in
      if \<not> leader then (None, w)
      else let exportedNodes = d_sort D (exported_nodes nodes);
               nodeJson = Marshal (nodes_json exportedNodes);
               key = nodesKey t;
               (current, w) = KV_Get (t_client t) key False [''kv:nodes''] w in
        case current of
          Inl e \<Rightarrow> (Some (Wrap e (''Error getting '' @ key @ '' key'')), w)
        | Inr cur \<Rightarrow>
            if map_option kv_Value cur = Some nodeJson then (None, w)
            else let (err, w) = KV_Put (t_client t)
                       \<lparr>kv_Key = key, kv_Value = nodeJson, kv_Session = []\<rparr> [''kv:nodes''] w in
              case err of
                Some e \<Rightarrow> (Some (Wrap e (''Error writing '' @ key @ '' key'')), w)
              | None \<Rightarrow> (None, w))"

section \<open>Which writes an operation sends\<close>

text \<open>The writes that are about one exported service: its own key, its own prefix, its own Id.\<close>

fun owns :: "deps \<Rightarrow> 'w ConsulTarget \<Rightarrow> ExportedService \<Rightarrow> request \<Rightarrow> bool" where
  "owns D t es (ReqPut p) = (metadataPrefix D t es = Inr (kv_Key p))"
| "owns D t es (ReqDeleteTree pre) = (metadataPrefix D t es = Inr pre)"
| "owns D t es (ReqRegister a) = (asr_ID a = Id es)"
| "owns D t es (ReqDeregister i) = (i = Id es)"
| "owns D t es _ = False"

fun is_kv_write :: "request \<Rightarrow> bool" where
  "is_kv_write (ReqPut p) = True"
| "is_kv_write (ReqDeleteTree pre) = True"
| "is_kv_write _ = False"

abbreviation adds :: "(request \<Rightarrow> bool) \<Rightarrow> 'w world \<Rightarrow> 'w world \<Rightarrow> bool" where
  "adds \<equiv> grows writes"

lemma adds_kv: "adds (\<lambda>r. \<not> is_kv_write r) w w' \<Longrightarrow> filter is_kv_write (writes w') = filter is_kv_write (writes w)"
  by (auto simp: grows_def list_all_iff)

lemma writes_instrumented [simp]:
  "writes (snd (instrumented pre tags req f err w)) = writes w @ (if is_write req then [req] else [])"
  by (simp add: writes_def instrumented_fields)

lemma shouldUpdateKV_world:
  "writes (snd (shouldUpdateKV D t es w)) = writes w"
  "leads (snd (shouldUpdateKV D t es w)) = leads w" "asked (snd (shouldUpdateKV D t es w)) = asked w"
  by (auto simp: shouldUpdateKV_def Let_def case_prod_beta consul_simps split: sum.split option.split)

lemma shouldUpdateService_world:
  "writes (snd (shouldUpdateService t asr w)) = writes w"
  "leads (snd (shouldUpdateService t asr w)) = leads w" "asked (snd (shouldUpdateService t asr w)) = asked w"
  "fst (shouldUpdateService t asr w) = Inr (b, asr') \<Longrightarrow> asr_ID asr' = asr_ID asr"
  by (auto simp: shouldUpdateService_def Let_def case_prod_beta consul_simps split: sum.splits option.splits if_splits)

lemma writeKV_adds: "adds (owns D t es) w (snd (writeKV D t es w))"
  by (auto simp: writeKV_def consul_simps grows_def split: sum.split)

context leader_elector
begin

abbreviation held_by where
  "held_by t \<equiv> (t_elector t = \<lparr>el_IsLeader = IsLeaderF, el_HasLeader = HasLeaderF, el_WaitForLeader = WaitForLeaderF\<rparr>)"

lemma createKV_adds:
  assumes "held_by t"
  shows "adds (owns D t es) w (snd (createKV D t es w))"
proof -
  obtain b w1 where i: "IsLeaderF w = (b, w1)" by fastforce
  obtain u w2 where u: "shouldUpdateKV D t es w1 = (u, w2)" by fastforce
  have "writes w1 = writes w" "writes w2 = writes w1"
    using IsLeader_writes [of w] i shouldUpdateKV_world(1) [of D t es w1] u by simp_all
  then have "adds (owns D t es) w w1" "adds (owns D t es) w w2" by (simp_all add: grows_none)
  moreover have "adds (owns D t es) w (snd (writeKV D t es w2))"
    using grows_trans [OF calculation(2) writeKV_adds] .
  ultimately show ?thesis
    using assms by (auto simp: createKV_def Let_def case_prod_beta i u split: sum.split bool.split)
qed

lemma createService_adds:
  assumes "held_by t"
  shows "adds (\<lambda>r. \<exists>a. r = ReqRegister a \<and> asr_ID a = Id es) w (snd (createService t es w))"
proof -
  let ?P = "\<lambda>r. \<exists>a. r = ReqRegister a \<and> asr_ID a = Id es"
  obtain e w1 where f: "WaitForLeaderF (seconds 15) (seconds 1) w = (e, w1)" by fastforce
  obtain u w2 where u: "shouldUpdateService t (asrFromExportedService t es) w1 = (u, w2)" by fastforce
  have "writes w1 = writes w" "writes w2 = writes w1"
    using WaitForLeader_reads [of "seconds 15" "seconds 1" w] f
      shouldUpdateService_world(1) [of t "asrFromExportedService t es" w1] u by simp_all
  then have a: "adds ?P w w1" "adds ?P w w2" by (simp_all add: grows_none)
  have r: "adds ?P w (snd (ServiceRegister (t_client t) a w2))" if "u = Inr (b, a)" for a b
    using a(2) shouldUpdateService_world(4) [of t "asrFromExportedService t es" w1 b a] u that
    by (intro grows_trans [OF a(2)] grows_one) (auto simp: consul_simps asrFromExportedService_def)
  show ?thesis
    using assms a r
    by (auto simp: createService_def Let_def case_prod_beta f u split: option.split sum.split bool.split prod.split)
qed

lemma Create_adds:
  assumes "held_by t"
  shows "adds (owns D t es) w (snd (Create D t es w))"
proof -
  let ?w1 = "snd (createService t es w)"
  have a: "adds (owns D t es) w ?w1" by (rule grows_mono [OF createService_adds [OF assms]]) auto
  moreover have "adds (owns D t es) w (snd (createKV D t es ?w1))"
    by (rule grows_trans [OF a createKV_adds [OF assms]])
  ultimately show ?thesis by (auto simp: Create_def Let_def case_prod_beta split: option.split)
qed

lemma Delete_adds:
  assumes "held_by t"
  shows "adds (owns D t es) w (snd (Delete D t es w))"
proof -
  let ?w1 = "snd (ServiceDeregister (t_client t) (Id es) w)"
  obtain b w2 where i: "IsLeaderF ?w1 = (b, w2)" by fastforce
  have w2: "writes w2 = writes w @ [ReqDeregister (Id es)]"
    using IsLeader_writes [of ?w1] i by (simp add: consul_simps)
  have "adds (owns D t es) w ?w1" "adds (owns D t es) w w2"
    using w2 by (auto simp: grows_def consul_simps)
  moreover have "adds (owns D t es) w (snd (KV_DeleteTree (t_client t) pre tags w2))"
    if "metadataPrefix D t es = Inr pre" for pre tags
    using that w2 by (simp add: grows_def consul_simps)
  ultimately show ?thesis
    using assms by (auto simp: Delete_def Let_def case_prod_beta i split: sum.split)
qed

lemma Update_adds:
  assumes "held_by t"
  shows "adds (\<lambda>r. owns D t new_es r \<or> (\<exists>old. old_ptr = Some old \<and> owns D t old r)) w
    (snd (Update D t old_ptr new_es w))"
proof -
  let ?P = "\<lambda>r. owns D t new_es r \<or> (\<exists>old. old_ptr = Some old \<and> owns D t old r)"
  let ?w1 = "snd (Create D t new_es w)"
  have c: "adds ?P w ?w1" by (rule grows_mono [OF Create_adds [OF assms]]) simp
  have "adds ?P ?w1 (snd (clean D t old_ptr new_es ?w1))"
  proof (cases old_ptr)
    case (Some old)
    have "adds ?P ?w1 (snd (Delete D t old ?w1))"
      by (rule grows_mono [OF Delete_adds [OF assms]]) (simp add: Some)
    then show ?thesis by (simp add: clean_def Some grows_none)
  qed (simp add: clean_def grows_none)
  with c show ?thesis
    using grows_trans [OF c] by (auto simp: Update_def Let_def case_prod_beta split: option.split)
qed

lemma WriteNodes_adds:
  assumes "held_by t"
  shows "adds (\<lambda>r. \<exists>p. r = ReqPut p \<and> kv_Key p = nodesKey t) w (snd (WriteNodes D t nodes w))"
proof -
  obtain b w1 where i: "IsLeaderF w = (b, w1)" by fastforce
  have "writes w1 = writes w" using IsLeader_writes [of w] i by simp
  then show ?thesis
    using assms
    by (auto simp: WriteNodes_def Let_def case_prod_beta i consul_simps grows_def split: sum.split option.split)
qed

end

section \<open>What an operation leaves in Consul\<close>

text \<open>A stored value is up to date when it reads as an object with the hash of the service.\<close>

definition up_to_date :: "deps \<Rightarrow> ExportedService \<Rightarrow> string \<Rightarrow> bool" where
  "up_to_date D es v =
     (\<exists>m h. Unmarshal_map (d_float D) v = Inr (Some m) \<and> Hash (d_hash D) es = Inr h \<and>
        map_of m ''hash'' = Some (JStr h))"

text \<open>What an exported service must satisfy for its JSON text to be readable.\<close>

definition readable :: "deps \<Rightarrow> ExportedService \<Rightarrow> bool" where
  "readable D es = (fl_int32 (d_float D) \<and> int32_fields es \<and> attrs_ok (d_float D) es)"

lemma written_up_to_date:
  assumes "readable D es" "MarshalJSON (d_hash D) es = Inr s"
  shows "up_to_date D es s"
proof -
  obtain h where h: "Hash (d_hash D) es = Inr h"
    using assms(2) by (auto simp: MarshalJSON_def split: sum.splits)
  show ?thesis
    using MarshalJSON_hash [OF _ _ _ assms(2) h, of "d_float D"] assms(1) h
    by (auto simp: up_to_date_def readable_def)
qed

lemma shouldUpdateKV_ok:
  assumes ok: "consul_ok (t_client t) kvs svcs" and key: "metadataPrefix D t es = Inr key"
    and r: "shouldUpdateKV D t es w = (r, w')"
  shows "kvs (server w') = kvs (server w)" "svcs (server w') = svcs (server w)"
    and "r = Inr b \<Longrightarrow> b \<longleftrightarrow> \<not> (\<exists>p. kvs (server w) key = Some p \<and> up_to_date D es (kv_Value p))"
proof -
  obtain g w1 where g: "KV_Get (t_client t) key True [''kv:metadata''] w = (g, w1)" by fastforce
  note k = call_ok(1) [OF ok g]
  have "w' = w1"
    using r by (auto simp: shouldUpdateKV_def key g Let_def split: sum.splits option.splits)
  then show "kvs (server w') = kvs (server w)" "svcs (server w') = svcs (server w)" using k by simp_all
  show "b \<longleftrightarrow> \<not> (\<exists>p. kvs (server w) key = Some p \<and> up_to_date D es (kv_Value p))" if "r = Inr b"
    using r that k
    by (auto simp: shouldUpdateKV_def key g Let_def up_to_date_def bind_eq_Some_conv
        split: sum.splits option.splits)
qed

lemma writeKV_ok:
  assumes ok: "consul_ok (t_client t) kvs svcs" and key: "metadataPrefix D t es = Inr key"
    and "readable D es" and r: "writeKV D t es w = (None, w')"
  shows "\<exists>p. kvs (server w') key = Some p \<and> up_to_date D es (kv_Value p)"
    and "k \<noteq> key \<Longrightarrow> kvs (server w') k = kvs (server w) k" "svcs (server w') = svcs (server w)"
proof -
  obtain s where s: "MarshalJSON (d_hash D) es = Inr s"
    and put: "KV_Put (t_client t) \<lparr>kv_Key = key, kv_Value = s, kv_Session = []\<rparr> [''kv:metadata''] w = (None, w')"
    using r by (auto simp: writeKV_def key split: sum.splits)
  note p = call_ok(3) [OF ok put]
  show "\<exists>p. kvs (server w') key = Some p \<and> up_to_date D es (kv_Value p)"
    using p written_up_to_date [OF assms(3) s] by auto
  show "k \<noteq> key \<Longrightarrow> kvs (server w') k = kvs (server w) k" "svcs (server w') = svcs (server w)"
    using p by simp_all
qed

text \<open>The metadata part of \<open>Create\<close>, for the elector of this program.\<close>

lemma elector_of_simps [simp]:
  "el_IsLeader (elector_of le) = IsLeader le" "el_WaitForLeader (elector_of le) = WaitForLeader le"
  "el_HasLeader (elector_of le) = HasLeader le"
  by (simp_all add: elector_of_def)

lemma createKV_leader:
  assumes ok: "consul_ok (t_client t) kvs svcs" and key: "metadataPrefix D t es = Inr key"
    and re: "readable D es" and el: "t_elector t = elector_of le" and lead: "leads w (asked w)"
    and r: "createKV D t es w = ((True, None), w')"
  shows "\<exists>p. kvs (server w') key = Some p \<and> up_to_date D es (kv_Value p)"
    and "\<And>k. k \<noteq> key \<Longrightarrow> kvs (server w') k = kvs (server w) k" "svcs (server w') = svcs (server w)"
proof -
  let ?w1 = "w\<lparr>asked := Suc (asked w)\<rparr>"
  obtain u w2 where u: "shouldUpdateKV D t es ?w1 = (u, w2)" by fastforce
  obtain b where b: "u = Inr b"
    using r el lead by (cases u) (auto simp: createKV_def Let_def IsLeader_def u)
  note s = shouldUpdateKV_ok [OF ok key u]
  have "(\<exists>p. kvs (server w') key = Some p \<and> up_to_date D es (kv_Value p)) \<and>
      (\<forall>k. k \<noteq> key \<longrightarrow> kvs (server w') k = kvs (server w) k) \<and> svcs (server w') = svcs (server w)"
  proof (cases b)
    case False
    then have "w' = w2" using r el lead by (auto simp: createKV_def Let_def IsLeader_def u b)
    then show ?thesis using s(1,2) s(3) [OF b] False by auto
  next
    case True
    then have "writeKV D t es w2 = (None, w')"
      using r el lead by (auto simp: createKV_def Let_def IsLeader_def u b split: prod.splits if_splits)
    from writeKV_ok [OF ok key re this] show ?thesis using s(1,2) by auto
  qed
  then show "\<exists>p. kvs (server w') key = Some p \<and> up_to_date D es (kv_Value p)"
    "\<And>k. k \<noteq> key \<Longrightarrow> kvs (server w') k = kvs (server w) k" "svcs (server w') = svcs (server w)"
    by blast+
qed

lemma HasLeader_ok:
  "reads_only (le_client le) kvs \<Longrightarrow> kvs (server (snd (HasLeader le w))) = kvs (server w)"
  by (simp add: reads_only_def HasLeader_world(2))

lemma WaitForLeader_world:
  "leads (snd (WaitForLeader le wait tick w)) = leads w" "asked (snd (WaitForLeader le wait tick w)) = asked w"
  using HasLeader_world(3,4) [of le "w\<lparr>flipped := Suc (flipped w)\<rparr>"]
  by (auto simp: WaitForLeader_def Let_def case_prod_beta)

lemma WaitForLeader_ok:
  assumes "reads_only (le_client le) kvs"
  shows "kvs (server (snd (WaitForLeader le wait tick w))) = kvs (server w)"
  using HasLeader_ok [OF assms, of "w\<lparr>flipped := Suc (flipped w)\<rparr>"]
  by (auto simp: WaitForLeader_def Let_def case_prod_beta)

text \<open>The first half of \<open>Create\<close> leaves the metadata and the elector's answers alone.\<close>

lemma createService_world:
  assumes el: "t_elector t = elector_of le"
  shows "leads (snd (createService t es w)) = leads w" "asked (snd (createService t es w)) = asked w"
proof -
  obtain e wa where f: "WaitForLeader le (seconds 15) (seconds 1) w = (e, wa)" by fastforce
  obtain u wb where u: "shouldUpdateService t (asrFromExportedService t es) wa = (u, wb)" by fastforce
  have "leads wa = leads w" "asked wa = asked w" "leads wb = leads wa" "asked wb = asked wa"
    using WaitForLeader_world [of le "seconds 15" "seconds 1" w] f
      shouldUpdateService_world(2,3) [of t "asrFromExportedService t es" wa] u by simp_all
  then show "leads (snd (createService t es w)) = leads w" "asked (snd (createService t es w)) = asked w"
    using el by (auto simp: createService_def Let_def f u consul_simps split: option.split sum.split bool.split prod.split)
qed

lemma createService_ok:
  assumes ok: "consul_ok (t_client t) kvs svcs" and el: "t_elector t = elector_of le"
    and cl: "reads_only (le_client le) kvs" and r: "createService t es w = (None, w')"
  shows "kvs (server w') = kvs (server w)"
proof -
  obtain e wa where f: "WaitForLeader le (seconds 15) (seconds 1) w = (e, wa)" by fastforce
  have e: "e = None" using r el f by (cases e) (auto simp: createService_def Let_def)
  obtain u wb where u: "shouldUpdateService t (asrFromExportedService t es) wa = (u, wb)" by fastforce
  obtain b a where ub: "u = Inr (b, a)" using r el f e by (cases u) (auto simp: createService_def Let_def u)
  have "kvs (server wb) = kvs (server wa)"
    using u call_ok(2) [OF ok, of wa "fst (Services (t_client t) wa)" "snd (Services (t_client t) wa)"]
    by (auto simp: shouldUpdateService_def Let_def case_prod_beta split: if_splits sum.splits option.splits)
  also have "\<dots> = kvs (server w)"
    using WaitForLeader_ok [OF cl, of "seconds 15" "seconds 1" w] f by simp
  finally have "kvs (server wb) = kvs (server w)" .
  then show ?thesis
    using r el f e u ub call_ok(5) [OF ok, of a wb w'] by (auto simp: createService_def Let_def split: bool.splits)
qed

text \<open>How \<open>Create\<close> ends, when it reports success.\<close>

lemma Create_success:
  assumes "Create D t es w = ((True, None), w')"
  obtains w1 where "createService t es w = (None, w1)" "createKV D t es w1 = ((True, None), w')"
  using assms by (auto simp: Create_def Let_def split: prod.splits option.splits)

lemma Create_stored:
  assumes ok: "consul_ok (t_client t) kvs svcs" and el: "t_elector t = elector_of le"
    and cl: "reads_only (le_client le) kvs" and lead: "leads w (asked w)" and re: "readable D es"
    and key: "metadataPrefix D t es = Inr key" and c: "Create D t es w = ((True, None), w')"
  shows "(\<exists>p. kvs (server w') key = Some p \<and> up_to_date D es (kv_Value p)) \<and>
    (\<forall>k. k \<noteq> key \<longrightarrow> kvs (server w') k = kvs (server w) k)"
proof -
  obtain w1 where s: "createService t es w = (None, w1)" and c: "createKV D t es w1 = ((True, None), w')"
    by (rule Create_success [OF c])
  have "kvs (server w1) = kvs (server w)" by (rule createService_ok [OF ok el cl s])
  moreover have "leads w1 (asked w1)" using createService_world [OF el, of es w] s lead by simp
  ultimately show ?thesis using createKV_leader [OF ok key re el _ c] by auto
qed

lemma createKV_follower:
  "\<lbrakk>t_elector t = elector_of le; \<not> leads w (asked w)\<rbrakk> \<Longrightarrow>
     createKV D t es w = ((True, None), w\<lparr>asked := Suc (asked w)\<rparr>)"
  by (simp add: createKV_def IsLeader_def)

lemma asked_simps [simp]: "writes (w\<lparr>asked := n\<rparr>) = writes w"
  by (simp add: writes_def)

lemma held_by_elector_of:
  "t_elector t = elector_of le \<Longrightarrow> t_elector t =
     \<lparr>el_IsLeader = IsLeader le, el_HasLeader = HasLeader le, el_WaitForLeader = WaitForLeader le\<rparr>"
  by (simp add: elector_of_def)

abbreviation kv_writes :: "'w world \<Rightarrow> request list" where
  "kv_writes w \<equiv> filter is_kv_write (writes w)"

lemma createService_kv:
  "t_elector t = elector_of le \<Longrightarrow> kv_writes (snd (createService t es w)) = kv_writes w"
  by (rule adds_kv, rule grows_mono [OF cle.createService_adds [OF held_by_elector_of]]) auto

lemma Create_follower:
  assumes el: "t_elector t = elector_of le" and follow: "\<not> leads w (asked w)"
  shows "kv_writes (snd (Create D t es w)) = kv_writes w"
    and "leads (snd (Create D t es w)) = leads w"
    and "snd (fst (Create D t es w)) = None \<Longrightarrow> asked (snd (Create D t es w)) = Suc (asked w)"
  using createService_kv [OF el, of es w] createService_world [OF el, of es w] follow
    createKV_follower [OF el, of "snd (createService t es w)"]
  by (auto simp: Create_def Let_def case_prod_beta split: option.splits)

lemma Delete_follower:
  assumes el: "t_elector t = elector_of le" and follow: "\<not> leads w (asked w)"
  shows "kv_writes (snd (Delete D t es w)) = kv_writes w"
  using el follow by (auto simp: Delete_def Let_def case_prod_beta IsLeader_def consul_simps)

lemma WriteNodes_follower:
  assumes el: "t_elector t = elector_of le" and follow: "\<not> leads w (asked w)"
  shows "kv_writes (snd (WriteNodes D t nodes w)) = kv_writes w"
  using el follow by (auto simp: WriteNodes_def Let_def IsLeader_def)

lemma Update_follower:
  assumes el: "t_elector t = elector_of le"
    and follow: "\<not> leads w (asked w)" "\<not> leads w (Suc (asked w))"
  shows "kv_writes (snd (Update D t old_ptr new_es w)) = kv_writes w"
proof -
  let ?w1 = "snd (Create D t new_es w)"
  note c = Create_follower [OF el follow(1), of D new_es]
  have "kv_writes (snd (clean D t old_ptr new_es ?w1)) = kv_writes ?w1" if "snd (fst (Create D t new_es w)) = None"
    using Delete_follower [OF el, of ?w1] c(2) c(3) [OF that] follow(2)
    by (auto simp: clean_def split: option.split)
  then show ?thesis
    using c(1) by (auto simp: Update_def Let_def case_prod_beta split: option.split)
qed

lemma Delete_leader:
  assumes ok: "consul_ok (t_client t) kvs svcs" and el: "t_elector t = elector_of le"
    and lead: "leads w (asked w)" and key: "metadataPrefix D t es = Inr key"
    and r: "Delete D t es w = ((True, None), w')"
  shows "kvs (server w') k = (if prefix key k then None else kvs (server w) k)"
    and "svcs (server w') = (svcs (server w))(Id es := None)"
proof -
  obtain w1 where d: "ServiceDeregister (t_client t) (Id es) w = (None, w1)"
    using r by (auto simp: Delete_def Let_def split: prod.splits if_splits)
  have w1: "leads w1 (asked w1)"
    using arg_cong [OF d, of snd] lead instrumented_fields(4,5) unfolding instrumented_calls by (metis snd_conv)
  have t: "KV_DeleteTree (t_client t) key [''kv:metadata''] (w1\<lparr>asked := Suc (asked w1)\<rparr>) = (None, w')"
    using r d w1 el key by (auto simp: Delete_def Let_def IsLeader_def split: prod.splits if_splits)
  show "kvs (server w') k = (if prefix key k then None else kvs (server w) k)"
    "svcs (server w') = (svcs (server w))(Id es := None)"
    using call_ok(6) [OF ok d] call_ok(4) [OF ok t] by simp_all
qed

section \<open>The node list\<close>

text \<open>
  What \<open>sort.Sort\<close> promises of a list with these methods: a permutation in which no element is less
  than one before it. Elements of one name can come out in any order.
\<close>

definition esl_Len :: "ExportedNode list \<Rightarrow> nat" where
  "esl_Len esl = length esl"

definition esl_Less :: "ExportedNode list \<Rightarrow> nat \<Rightarrow> nat \<Rightarrow> bool" where
  "esl_Less esl i j = (en_Name (esl ! i) < en_Name (esl ! j))"

definition sort_ok :: "(ExportedNode list \<Rightarrow> ExportedNode list) \<Rightarrow> bool" where
  "sort_ok srt = (\<forall>xs. mset (srt xs) = mset xs \<and> (\<forall>j < esl_Len (srt xs). \<forall>i < j. \<not> esl_Less (srt xs) j i))"

lemma sort_ok_sorted: "sort_ok srt \<longleftrightarrow> (\<forall>xs. mset (srt xs) = mset xs \<and> sorted (map en_Name (srt xs)))"
  by (auto simp: sort_ok_def esl_Len_def esl_Less_def sorted_iff_nth_mono_less not_less)

lemma exported_nodes_set:
  "n \<in> set (exported_nodes nodes) \<longleftrightarrow>
     (\<exists>node \<in> set nodes. \<exists>a \<in> set (addresses node).
        addr_type a = NodeInternalIP \<and> n = \<lparr>en_Name = node_name node, en_Address = addr_address a\<rparr>)"
  by (fastforce simp: exported_nodes_def split: if_splits)

lemma WriteNodes_leader:
  assumes ok: "consul_ok (t_client t) kvs svcs" and el: "t_elector t = elector_of le"
    and lead: "leads w (asked w)" and r: "WriteNodes D t nodes w = (None, w')"
  shows "map_option kv_Value (kvs (server w') (nodesKey t)) =
      Some (Marshal (nodes_json (d_sort D (exported_nodes nodes))))"
    and "k \<noteq> nodesKey t \<Longrightarrow> kvs (server w') k = kvs (server w) k"
proof -
  let ?v = "Marshal (nodes_json (d_sort D (exported_nodes nodes)))"
  let ?p = "\<lparr>kv_Key = nodesKey t, kv_Value = ?v, kv_Session = []\<rparr>"
  obtain c w1 where g: "KV_Get (t_client t) (nodesKey t) False [''kv:nodes''] (w\<lparr>asked := Suc (asked w)\<rparr>) = (c, w1)"
    by fastforce
  note get = call_ok(1) [OF ok g]
  obtain cur where c: "c = Inr cur"
    using r el lead g by (cases c) (auto simp: WriteNodes_def IsLeader_def Let_def)
  have "map_option kv_Value (kvs (server w') (nodesKey t)) = Some ?v \<and>
      (\<forall>k. k \<noteq> nodesKey t \<longrightarrow> kvs (server w') k = kvs (server w) k)"
  proof (cases "map_option kv_Value cur = Some ?v")
    case True
    then have "w' = w1" using r el lead g c by (auto simp: WriteNodes_def IsLeader_def Let_def)
    then show ?thesis using get c True by auto
  next
    case False
    then have put: "KV_Put (t_client t) ?p [''kv:nodes''] w1 = (None, w')"
      using r el lead g c
      by (auto simp: WriteNodes_def IsLeader_def Let_def split: prod.splits option.splits if_splits)
    show ?thesis using call_ok(3) [OF ok put] get by simp
  qed
  then show "map_option kv_Value (kvs (server w') (nodesKey t)) = Some ?v"
    "k \<noteq> nodesKey t \<Longrightarrow> kvs (server w') k = kvs (server w) k" by simp_all
qed

lemma WriteNodes_unchanged:
  assumes ok: "consul_ok (t_client t) kvs svcs" and el: "t_elector t = elector_of le"
    and cur: "map_option kv_Value (kvs (server w) (nodesKey t)) =
      Some (Marshal (nodes_json (d_sort D (exported_nodes nodes))))"
  shows "kv_writes (snd (WriteNodes D t nodes w)) = kv_writes w"
proof -
  obtain c w1 where g: "KV_Get (t_client t) (nodesKey t) False [''kv:nodes''] (w\<lparr>asked := Suc (asked w)\<rparr>) = (c, w1)"
    by fastforce
  have "writes w1 = writes w" using arg_cong [OF g, of snd] by (auto simp: consul_simps)
  then show ?thesis
    using call_ok(1) [OF ok g] cur el
    by (auto simp: WriteNodes_def IsLeader_def Let_def g split: sum.split)
qed

text \<open>The list that is read back from the stored text.\<close>

fun node_of :: "json \<Rightarrow> (string \<times> string) option" where
  "node_of (JObj kvs) =
     (case (map_of kvs ''Name'', map_of kvs ''Address'') of
        (Some (JStr n), Some (JStr a)) \<Rightarrow> Some (n, a)
      | _ \<Rightarrow> None)"
| "node_of _ = None"

lemma depth_nodes_json: "depth (nodes_json ns) \<le> 2"
proof -
  have "fold max (map (\<lambda>x. depth (JObj [(''Name'', JStr (en_Name x)), (''Address'', JStr (en_Address x))])) ns) 0 \<le> 1"
    by (rule fold_max_bound) auto
  then show ?thesis by (simp add: nodes_json_def comp_def)
qed

lemma nodes_json_read:
  assumes "ns \<noteq> []"
  shows "\<exists>vs. Unmarshal fl (Marshal (nodes_json ns)) = Some (JArr vs) \<and>
    map node_of vs = map (\<lambda>n. Some (coerce_utf8 (en_Name n), coerce_utf8 (en_Address n))) ns"
proof -
  have "nums_ok fl (nodes_json ns)" by (simp add: nodes_json_def)
  moreover have "depth (nodes_json ns) \<le> max_depth"
    using depth_nodes_json [of ns] by (simp add: max_depth_def)
  ultimately have "Unmarshal fl (Marshal (nodes_json ns)) = Some (normal (nodes_json ns))"
    by (rule Unmarshal_Marshal)
  moreover have "normal (nodes_json ns) = JArr (map (\<lambda>n. normal (JObj [(''Name'', JStr (en_Name n)), (''Address'', JStr (en_Address n))])) ns)"
    using assms by (simp add: nodes_json_def)
  moreover have "coerce_utf8 ''Name'' = ''Name''" "coerce_utf8 ''Address'' = ''Address''"
    by (rule coerce_utf8_ascii; simp)+
  ultimately show ?thesis by (simp add: comp_def)
qed

section \<open>A target to try things on\<close>

definition demo_deps :: deps where
  "demo_deps = \<lparr>d_float = Some, d_hash = (\<lambda>_. Inr 255), d_template = (\<lambda>s es. Inr s), d_sort = sort_key en_Name\<rparr>"

definition demo_elector :: "memory ConsulLeaderElector" where
  "demo_elector = \<lparr>le_client = memory_api, le_clusterId = ''c1'', le_clientId = ''me'', le_prefix = ''kse''\<rparr>"

definition demo_target :: "memory ConsulTarget" where
  "demo_target = \<lparr>t_client = memory_api, t_elector = elector_of demo_elector, hostIP = ''127.0.0.1'',
     kvPrefix = ''kse'', t_clusterId = ''c1'', servicesEnabled = False, servicesKeyTmpl = []\<rparr>"

definition demo_kv :: "string \<rightharpoonup> KVPair" where
  "demo_kv = [leaderKey demo_elector \<mapsto> \<lparr>kv_Key = leaderKey demo_elector, kv_Value = ''me'', kv_Session = ''s''\<rparr>]"

abbreviation demo_es :: ExportedService where
  "demo_es \<equiv> described Some demo_service ''c1'' demo_port"

lemma demo_target_simps [simp]:
  "t_client demo_target = memory_api" "t_elector demo_target = elector_of demo_elector"
  "servicesEnabled demo_target = False" "le_client demo_elector = memory_api"
  by (simp_all add: demo_target_def demo_elector_def)

lemma demo_prefix: "metadataPrefix demo_deps demo_target es = Inr (''kse/services/'' @ Id es @ ''/clusters/'' @ ClusterId es)"
  by (simp add: metadataPrefix_def demo_target_def)

lemma demo_readable: "readable demo_deps demo_es"
  using demo_attrs by (simp add: readable_def demo_deps_def fl_int32_def)

lemma demo_key_not_leader: "''kse/services/'' @ k \<noteq> leaderKey demo_elector"
  by (simp add: leaderKey_def demo_elector_def)

text \<open>The demo target creates the service, since somebody leads.\<close>

lemma demo_Create_from:
  assumes w: "fst (server w) = demo_kv" "\<forall>n. leads w n" "\<forall>n. \<not> coins w n"
  shows "\<exists>w'. Create demo_deps demo_target demo_es w = ((True, None), w')"
proof -
  have "fst (HasLeader demo_elector (w\<lparr>flipped := Suc (flipped w)\<rparr>)) = Inr True"
    using w(1) by (subst HasLeader_result) (cases "server w", simp add: memory_api_def demo_kv_def)
  then have wait: "fst (WaitForLeader demo_elector (seconds 15) (seconds 1) w) = None"
    using w(3) by (simp add: WaitForLeader_def Let_def case_prod_beta)
  obtain w1 where s: "createService demo_target demo_es w = (None, w1)"
    using wait by (auto simp: createService_def Let_def shouldUpdateService_def case_prod_beta)
  have w1: "fst (server w1) = demo_kv" "leads w1 (asked w1)"
    using createService_ok [of demo_target fst snd demo_elector demo_es w w1] memory_ok memory_reads s
      createService_world [of demo_target demo_elector demo_es w] w
    by simp_all
  let ?w2 = "w1\<lparr>asked := Suc (asked w1)\<rparr>"
  obtain m w3 where m: "shouldUpdateKV demo_deps demo_target demo_es ?w2 = (Inr m, w3)"
    using w1(1) demo_key_not_leader
    by (cases "server w1")
      (auto simp: shouldUpdateKV_def demo_prefix Let_def case_prod_beta consul_simps memory_api_def demo_kv_def)
  have "MarshalJSON (d_hash demo_deps) demo_es = Inr (Marshal (JObj (es_fields (FormatUint16 255) demo_es)))"
    by (simp add: MarshalJSON_def Hash_def demo_deps_def)
  then have "fst (writeKV demo_deps demo_target demo_es w3) = None"
    by (cases "server w3") (simp add: writeKV_def demo_prefix consul_simps memory_api_def)
  then have "fst (createKV demo_deps demo_target demo_es w1) = (True, None)"
    using w1(2) m by (cases m) (auto simp: createKV_def IsLeader_def Let_def case_prod_beta)
  then show ?thesis using s by (simp add: Create_def) (metis prod.collapse)
qed

lemma demo_Create: "\<exists>w'. Create demo_deps demo_target demo_es (memory_world demo_kv True) = ((True, None), w')"
  by (rule demo_Create_from) (simp_all add: memory_world_def)

section \<open>Properties\<close>

text \<open>C7: when \<open>Create\<close> reports success and this process is the leader, the metadata key of the
  exported service holds a JSON object with the service's hash, and no other key has changed.\<close>

theorem Create_stores:
  assumes "consul_ok (t_client t) kvs svcs" "t_elector t = elector_of le" "reads_only (le_client le) kvs"
    "leads w (asked w)" "readable D es" "metadataPrefix D t es = Inr key"
    "Create D t es w = ((True, None), w')"
  shows "(\<exists>p. kvs (server w') key = Some p \<and> up_to_date D es (kv_Value p)) \<and>
    (\<forall>k. k \<noteq> key \<longrightarrow> kvs (server w') k = kvs (server w) k)"
  by (rule Create_stored [OF assms])

theorem Create_stores_witness:
  "\<exists>w' p. Create demo_deps demo_target demo_es (memory_world demo_kv True) = ((True, None), w') \<and>
     fst (server w') (''kse/services/'' @ Id demo_es @ ''/clusters/c1'') = Some p \<and> up_to_date demo_deps demo_es (kv_Value p)"
proof -
  obtain w' where c: "Create demo_deps demo_target demo_es (memory_world demo_kv True) = ((True, None), w')"
    using demo_Create by blast
  have "leads (memory_world demo_kv True) (asked (memory_world demo_kv True))" by (simp add: memory_world_def)
  from Create_stores [of demo_target fst snd demo_elector, OF _ _ _ this demo_readable demo_prefix c] memory_ok memory_reads c
  show ?thesis by auto
qed

text \<open>\<open>Create\<close> of a service whose stored metadata is up to date sends no write to the key/value
  store, whether it succeeds or fails and whoever leads.\<close>

lemma Create_idempotent:
  assumes "consul_ok (t_client t) kvs svcs" "t_elector t = elector_of le" "reads_only (le_client le) kvs"
    "metadataPrefix D t es = Inr key" "kvs (server w) key = Some p" "up_to_date D es (kv_Value p)"
  shows "kv_writes (snd (Create D t es w)) = kv_writes w"
proof -
  obtain e w1 where s: "createService t es w = (e, w1)" by fastforce
  have w1: "kv_writes w1 = kv_writes w" using createService_kv [OF assms(2), of es w] s by simp
  have "kv_writes (snd (createKV D t es w1)) = kv_writes w1" if "e = None"
  proof -
    obtain u w2 where u: "shouldUpdateKV D t es (w1\<lparr>asked := Suc (asked w1)\<rparr>) = (u, w2)" by fastforce
    have "kvs (server w1) = kvs (server w)" using createService_ok [OF assms(1-3)] s that by simp
    then have "u \<noteq> Inr True"
      using shouldUpdateKV_ok(3) [OF assms(1,4) u, of True] assms(5,6) by auto
    moreover have "writes w2 = writes w1"
      using shouldUpdateKV_world(1) [of D t es "w1\<lparr>asked := Suc (asked w1)\<rparr>"] u by simp
    ultimately show ?thesis
      using assms(2) u by (auto simp: createKV_def IsLeader_def Let_def split: sum.split bool.split)
  qed
  then show ?thesis using s w1 by (auto simp: Create_def split: option.split)
qed

lemma Create_idempotent_witness:
  "\<exists>w'. Create demo_deps demo_target demo_es (memory_world demo_kv True) = ((True, None), w') \<and>
     kv_writes (snd (Create demo_deps demo_target demo_es w')) = kv_writes w'"
proof -
  obtain w' where c: "Create demo_deps demo_target demo_es (memory_world demo_kv True) = ((True, None), w')"
    using demo_Create by blast
  obtain w1 where s: "createService demo_target demo_es (memory_world demo_kv True) = (None, w1)"
    and k: "createKV demo_deps demo_target demo_es w1 = ((True, None), w')"
    by (rule Create_success [OF c])
  have lead: "leads w1 (asked w1)"
    using createService_world [of demo_target demo_elector demo_es "memory_world demo_kv True"] s
    by (simp add: memory_world_def)
  obtain p where "fst (server w') (''kse/services/'' @ Id demo_es @ ''/clusters/'' @ ClusterId demo_es) = Some p"
    "up_to_date demo_deps demo_es (kv_Value p)"
    using createKV_leader(1) [of demo_target fst snd, OF _ demo_prefix demo_readable _ lead k] memory_ok by auto
  then show ?thesis
    using Create_idempotent [of demo_target fst snd demo_elector, OF _ _ _ demo_prefix] memory_ok memory_reads c by auto
qed

text \<open>C8: a process that is not the leader whenever it asks writes nothing to the key/value store, by
  any of the four operations of the target.\<close>

theorem only_leader_writes_KV:
  assumes "t_elector t = elector_of le" "\<not> leads w (asked w)" "\<not> leads w (Suc (asked w))"
  shows "kv_writes (snd (Create D t es w)) = kv_writes w \<and>
    kv_writes (snd (Update D t old_ptr es w)) = kv_writes w \<and>
    kv_writes (snd (Delete D t es w)) = kv_writes w \<and>
    kv_writes (snd (WriteNodes D t nodes w)) = kv_writes w"
  using Create_follower(1) [OF assms(1,2)] Update_follower [OF assms] Delete_follower [OF assms(1,2)]
    WriteNodes_follower [OF assms(1,2)] by blast

theorem only_leader_writes_KV_witness:
  "kv_writes (snd (Delete demo_deps demo_target demo_es (memory_world demo_kv False))) = []"
  using only_leader_writes_KV [of demo_target demo_elector "memory_world demo_kv False"]
  by (simp add: memory_world_def) (simp add: writes_def)

text \<open>The writes of \<open>Update\<close> concern only the two exported services it is given: their metadata
  keys and their service Ids.\<close>

lemma Update_writes_own:
  assumes "t_elector t = elector_of le"
  shows "\<exists>rs. writes (snd (Update D t old_ptr new_es w)) = writes w @ rs \<and>
    list_all (\<lambda>r. owns D t new_es r \<or> (\<exists>old. old_ptr = Some old \<and> owns D t old r)) rs"
  using cle.Update_adds [OF held_by_elector_of [OF assms], of D new_es old_ptr w] by (simp add: grows_def)

lemma Update_writes_own_witness:
  "\<exists>rs. writes (snd (Update demo_deps demo_target None demo_es (memory_world demo_kv True))) = rs \<and>
     list_all (owns demo_deps demo_target demo_es) rs"
  using Update_writes_own [of demo_target demo_elector demo_deps None demo_es "memory_world demo_kv True"]
  by (simp add: writes_def memory_world_def)

lemma demo_Delete: "\<exists>w'. Delete demo_deps demo_target es w = ((True, None), w')"
  by (cases "server w") (simp add: Delete_def Let_def case_prod_beta consul_simps IsLeader_def demo_prefix memory_api_def)

text \<open>C38: the key is a string prefix, not a path: for a service that is shared between clusters,
  the leader of cluster \<open>c1\<close> deletes the metadata of cluster \<open>c10\<close> together with its own.\<close>

theorem Delete_other_cluster:
  assumes "\<not> ServicePerCluster es"
  shows "\<exists>w'. Delete demo_deps demo_target (es\<lparr>ClusterId := ''c1''\<rparr>)
       (memory_world [''kse/services/'' @ Id (es\<lparr>ClusterId := ''c10''\<rparr>) @ ''/clusters/c10'' \<mapsto> p] True) =
         ((True, None), w') \<and>
     fst (server w') (''kse/services/'' @ Id (es\<lparr>ClusterId := ''c10''\<rparr>) @ ''/clusters/c10'') = None"
proof -
  let ?k = "''kse/services/'' @ Id (es\<lparr>ClusterId := ''c10''\<rparr>) @ ''/clusters/c10''"
  let ?w = "memory_world [?k \<mapsto> p] True"
  obtain w' where d: "Delete demo_deps demo_target (es\<lparr>ClusterId := ''c1''\<rparr>) ?w = ((True, None), w')"
    using demo_Delete by blast
  have "leads ?w (asked ?w)" by (simp add: memory_world_def)
  note gone = Delete_leader(1) [of demo_target fst snd demo_elector, OF _ _ this demo_prefix d, of ?k]
  have "Id (es\<lparr>ClusterId := ''c1''\<rparr>) = Id (es\<lparr>ClusterId := ''c10''\<rparr>)" using assms by (simp add: Id_def)
  then have "prefix (''kse/services/'' @ Id (es\<lparr>ClusterId := ''c1''\<rparr>) @ ''/clusters/'' @ ''c1'') ?k" by simp
  then show ?thesis using d gone memory_ok by simp
qed

theorem Delete_other_cluster_witness:
  "\<exists>w'. Delete demo_deps demo_target (demo_es\<lparr>ServicePerCluster := False, ClusterId := ''c1''\<rparr>)
       (memory_world [''kse/services/'' @ Id (demo_es\<lparr>ServicePerCluster := False, ClusterId := ''c10''\<rparr>) @ ''/clusters/c10''
          \<mapsto> \<lparr>kv_Key = [], kv_Value = [], kv_Session = []\<rparr>] True) = ((True, None), w') \<and>
     fst (server w') (''kse/services/'' @ Id (demo_es\<lparr>ServicePerCluster := False, ClusterId := ''c10''\<rparr>) @ ''/clusters/c10'') = None"
  by (rule Delete_other_cluster) simp

lemma createKV_asked:
  assumes "t_elector t = elector_of le"
  shows "leads (snd (createKV D t es w)) = leads w" "asked (snd (createKV D t es w)) = Suc (asked w)"
proof -
  let ?w1 = "w\<lparr>asked := Suc (asked w)\<rparr>"
  obtain u w2 where u: "shouldUpdateKV D t es ?w1 = (u, w2)" by fastforce
  have w2: "leads w2 = leads w" "asked w2 = Suc (asked w)"
    using shouldUpdateKV_world(2,3) [of D t es ?w1] u by simp_all
  have "leads (snd (writeKV D t es w2)) = leads w2" "asked (snd (writeKV D t es w2)) = asked w2"
    by (auto simp: writeKV_def consul_simps split: sum.split)
  then show "leads (snd (createKV D t es w)) = leads w" "asked (snd (createKV D t es w)) = Suc (asked w)"
    using assms w2 u
    by (auto simp: createKV_def IsLeader_def Let_def case_prod_beta split: sum.split bool.split)
qed

lemma Update_success:
  assumes "Update D t (Some old) new_es w = ((True, None), w')"
    and "or_empty (metadataPrefix D t old) \<noteq> or_empty (metadataPrefix D t new_es)"
  obtains w1 b where "Create D t new_es w = ((True, None), w1)" "Delete D t old w1 = ((b, None), w')"
proof -
  obtain c e w1 where cr: "Create D t new_es w = ((c, e), w1)" by (metis prod.collapse)
  obtain b f w2 where de: "Delete D t old w1 = ((b, f), w2)" by (metis prod.collapse)
  have "e = None" "c" "f = None" "w' = w2"
    using assms cr de by (auto simp: Update_def clean_def Let_def split: option.splits)
  then show thesis using that cr de by simp
qed

text \<open>A \<open>Delete\<close> without an error is one that reports success.\<close>

lemma Delete_no_error: "Delete D t es w = ((b, None), w') \<Longrightarrow> b"
  by (auto simp: Delete_def Let_def case_prod_beta split: if_splits sum.splits)



text \<open>When \<open>WriteNodes\<close> returns no error and this process is the leader, the node key holds a JSON
  array of the names and internal addresses of the nodes, sorted by name (and \<open>null\<close> when there are
  none); no other key has changed, and writing the same nodes again sends nothing.\<close>

lemma WriteNodes_stores:
  assumes "consul_ok (t_client t) kvs svcs" "t_elector t = elector_of le" "leads w (asked w)"
    "sort_ok (d_sort D)" "WriteNodes D t nodes w = (None, w')"
  shows "\<exists>ns v. mset ns = mset (exported_nodes nodes) \<and> sorted (map en_Name ns) \<and>
    map_option kv_Value (kvs (server w') (nodesKey t)) = Some v \<and>
    (if ns = [] then v = ''null''
     else \<exists>vs. Unmarshal fl v = Some (JArr vs) \<and>
       map node_of vs = map (\<lambda>n. Some (coerce_utf8 (en_Name n), coerce_utf8 (en_Address n))) ns) \<and>
    (\<forall>k. k \<noteq> nodesKey t \<longrightarrow> kvs (server w') k = kvs (server w) k) \<and>
    kv_writes (snd (WriteNodes D t nodes w')) = kv_writes w'"
proof -
  let ?ns = "d_sort D (exported_nodes nodes)"
  note l = WriteNodes_leader [OF assms(1-3,5)]
  have "if ?ns = [] then Marshal (nodes_json ?ns) = ''null''
     else \<exists>vs. Unmarshal fl (Marshal (nodes_json ?ns)) = Some (JArr vs) \<and>
       map node_of vs = map (\<lambda>n. Some (coerce_utf8 (en_Name n), coerce_utf8 (en_Address n))) ?ns"
    using nodes_json_read [of ?ns fl] by (simp add: nodes_json_def)
  then show ?thesis
    using l assms(4) WriteNodes_unchanged [OF assms(1,2) l(1)]
    by (intro exI [of _ ?ns] exI [of _ "Marshal (nodes_json ?ns)"]) (simp add: sort_ok_sorted)
qed

lemma WriteNodes_stores_witness:
  "\<exists>w' v. WriteNodes demo_deps demo_target [] (memory_world demo_kv True) = (None, w') \<and>
     map_option kv_Value (fst (server w') ''kse/nodes/c1'') = Some v \<and> v = ''null''"
proof -
  let ?w = "memory_world demo_kv True"
  have "fst (WriteNodes demo_deps demo_target [] ?w) = None"
    by (auto simp: WriteNodes_def Let_def case_prod_beta consul_simps IsLeader_def memory_api_def memory_world_def)
  then obtain w' where r: "WriteNodes demo_deps demo_target [] ?w = (None, w')" by (metis prod.collapse)
  have "sort_ok (d_sort demo_deps)" by (simp add: sort_ok_sorted demo_deps_def)
  then have "\<exists>ns v. mset ns = mset (exported_nodes []) \<and> map_option kv_Value (fst (server w') (nodesKey demo_target)) = Some v \<and>
      (ns = [] \<longrightarrow> v = ''null'')"
    using WriteNodes_stores [of demo_target fst snd demo_elector ?w demo_deps "[]" w' Some] memory_ok r
    by (auto simp: memory_world_def split: if_splits)
  then show ?thesis using r by (simp add: exported_nodes_def nodesKey_def demo_target_def)
qed

end
