(* ===== verification/ServiceWatcher.thy ===== *)
theory ServiceWatcher
  imports PriorityQueue ConsulTarget
begin

text \<open>
  \<open>pkg/controller/service\_watcher.go\<close>, \<open>keyop.go\<close> and \<open>export\_target.go\<close>: the handlers that the
  informer calls put an operation on the queue, the worker takes it off and exports, updates or
  deletes. The informer's cache is a function from keys to objects, the same for the time one item
  is processed. A nil Service pointer is \<open>None\<close>; a panic ends the process, so the state it leaves
  does not matter.
\<close>

section \<open>export\_target.go\<close>

record 'e ExportTarget =
  tgt_Create :: "ExportedService \<Rightarrow> 'e \<Rightarrow> (bool \<times> go_error option) \<times> 'e"
  tgt_Update :: "ExportedService option \<Rightarrow> ExportedService \<Rightarrow> 'e \<Rightarrow> (bool \<times> go_error option) \<times> 'e"
  tgt_Delete :: "ExportedService \<Rightarrow> 'e \<Rightarrow> (bool \<times> go_error option) \<times> 'e"
  tgt_WriteNodes :: "Node list \<Rightarrow> 'e \<Rightarrow> go_error option \<times> 'e"

definition target_of :: "deps \<Rightarrow> 'w ConsulTarget \<Rightarrow> 'w world ExportTarget" where
  "target_of D t = \<lparr>tgt_Create = Create D t, tgt_Update = Update D t, tgt_Delete = Delete D t,
     tgt_WriteNodes = WriteNodes D t\<rparr>"

section \<open>keyop.go\<close>

datatype operation = AddOp | UpdateOp | DeleteOp

text \<open>
  An object behind an interface value: a pointer, compared by address, with what it points to.
  The objects of the informer's cache are never changed in place.
\<close>

datatype ref = Ref addr kobject

fun deref :: "ref \<Rightarrow> kobject" where
  "deref (Ref a obj) = obj"

record KeyOp =
  ko_Key :: string
  ko_Attempts :: int
  ko_Obj :: "ref option"
  ko_Operation :: operation

definition NewKeyOp :: "string \<Rightarrow> ref \<Rightarrow> operation \<Rightarrow> KeyOp" where
  "NewKeyOp key obj opn = \<lparr>ko_Key = key, ko_Attempts = 0, ko_Obj = Some obj, ko_Operation = opn\<rparr>"

text \<open>What the queue can hold: a \<open>KeyOp\<close>, or a pointer to one, which is another value.\<close>

datatype queued = Val KeyOp | Ptr addr

section \<open>The watcher\<close>

record 'm ServiceWatcher =
  sw_clusterId :: string
  namespaces :: "string list"
  sw_queue :: "(queued, 'm) PriorityQueue"
  cacheOlds :: "string \<rightharpoonup> Service"

definition NewServiceWatcher :: "string list \<Rightarrow> string \<Rightarrow> 'm \<Rightarrow> 'm ServiceWatcher" where
  "NewServiceWatcher nss clusterId m =
     \<lparr>sw_clusterId = clusterId, namespaces = nss, sw_queue = NewPriorityQueueWithMetrics m, cacheOlds = Map.empty\<rparr>"

text \<open>\<open>cache.MetaNamespaceKeyFunc\<close>, and the one for deletions, which knows the tombstones.\<close>

fun MetaNamespaceKeyFunc :: "kobject \<Rightarrow> string result" where
  "MetaNamespaceKeyFunc (KService s) =
     Inr (if svc_namespace s \<noteq> [] then svc_namespace s @ ''/'' @ svc_name s else svc_name s)"
| "MetaNamespaceKeyFunc (KOther (Some key)) = Inr key"
| "MetaNamespaceKeyFunc (KOther None) = Inl (New ''object has no meta'')"

definition ignored :: "'m ServiceWatcher \<Rightarrow> Service \<Rightarrow> bool" where
  "ignored sw svc = (0 < length (namespaces sw) \<and> \<not> StringInSlice (svc_namespace svc) (namespaces sw))"

definition enqueue :: "(queued, 'm) Metrics \<Rightarrow> KeyOp \<Rightarrow> 'm ServiceWatcher \<Rightarrow> 'm ServiceWatcher" where
  "enqueue M ko sw = sw\<lparr>sw_queue := Add M (Val ko) (Fin 0) (sw_queue sw)\<rparr>"

definition AddFunc :: "(queued, 'm) Metrics \<Rightarrow> ref \<Rightarrow> 'm ServiceWatcher \<Rightarrow> 'm ServiceWatcher" where
  "AddFunc M obj sw =
     (case MetaNamespaceKeyFunc (deref obj) of
        Inl err \<Rightarrow> sw
      | Inr key \<Rightarrow>
          (case deref obj of
             KOther _ \<Rightarrow> sw
           | KService svc \<Rightarrow> if ignored sw svc then sw else enqueue M (NewKeyOp key obj AddOp) sw))"

definition UpdateFunc :: "(queued, 'm) Metrics \<Rightarrow> ref \<Rightarrow> ref \<Rightarrow> 'm ServiceWatcher \<Rightarrow> 'm ServiceWatcher" where
  "UpdateFunc M oldObj newObj sw =
     (case MetaNamespaceKeyFunc (deref newObj) of
        Inl err \<Rightarrow> sw
      | Inr key \<Rightarrow>
          (case deref oldObj of
             KOther _ \<Rightarrow> sw
           | KService oldSvc \<Rightarrow>
               if ignored sw oldSvc then sw
               else let sw = sw\<lparr>cacheOlds := (cacheOlds sw)(key \<mapsto> oldSvc)\<rparr>
                    in enqueue M (NewKeyOp key newObj UpdateOp) sw))"

definition DeleteFunc :: "(queued, 'm) Metrics \<Rightarrow> ref \<Rightarrow> 'm ServiceWatcher \<Rightarrow> 'm ServiceWatcher" where
  "DeleteFunc M obj sw =
     (case MetaNamespaceKeyFunc (deref obj) of
        Inl err \<Rightarrow> sw
      | Inr key \<Rightarrow>
          (case deref obj of
             KOther _ \<Rightarrow> sw
           | KService svc \<Rightarrow> if ignored sw svc then sw else enqueue M (NewKeyOp key obj DeleteOp) sw))"

section \<open>The operations on a Service\<close>

text \<open>
  What every handler starts with: a counter, and the arguments of the deferred timing, which Go
  evaluates at the \<open>defer\<close> statement and not when the function returns.
\<close>

definition handler_start :: "string \<Rightarrow> 'x env_scheme \<Rightarrow> metric \<times> 'x env_scheme" where
  "handler_start handler e =
     (let tags = [''handler:'' @ handler];
          (start, e) = time_Now e;
          e = emit (Incr ''kubernetes.service_handler.count'' tags) e;
          (took, e) = time_Since start e
      in (Timing ''kubernetes.service_handler.time'' took tags, e))"

definition target_stat :: "string \<Rightarrow> ExportedService \<Rightarrow> go_error option \<Rightarrow> 'x env_scheme \<Rightarrow> 'x env_scheme" where
  "target_stat handler es err e =
     IncrSuccessOrFail err ''target.service'' [''handler:'' @ handler, ''service:'' @ Id es] e"

fun create_loop :: "'x env_scheme ExportTarget \<Rightarrow> ExportedService list \<Rightarrow> 'x env_scheme \<Rightarrow> 'x env_scheme" where
  "create_loop T [] e = e"
| "create_loop T (es # ess) e =
     (let ((_, err), e) = tgt_Create T es e
      in create_loop T ess (target_stat ''create'' es err e))"

fun delete_loop :: "'x env_scheme ExportTarget \<Rightarrow> ExportedService list \<Rightarrow> 'x env_scheme \<Rightarrow> 'x env_scheme" where
  "delete_loop T [] e = e"
| "delete_loop T (es # ess) e =
     (let ((_, err), e) = tgt_Delete T es e
      in delete_loop T ess (target_stat ''delete'' es err e))"

definition addService ::
  "(string \<Rightarrow> string option) \<Rightarrow> indexer \<Rightarrow> string \<Rightarrow> 'x env_scheme ExportTarget \<Rightarrow> Service option \<Rightarrow> 'x env_scheme \<Rightarrow>
   (go_error option \<times> 'x env_scheme) go" where
  "addService fl indexer clusterId T service e =
     (let (timing, e) = handler_start ''add'' e in
      case IsExportableService service of
        Panic s \<Rightarrow> Panic s
      | Ret False \<Rightarrow> Ret (None, emit timing e)
      | Ret True \<Rightarrow>
          (case NewExportedServicesFromKubeService fl indexer service clusterId of
             Panic s \<Rightarrow> Panic s
           | Ret (Inl err) \<Rightarrow> Ret (Some err, emit timing e)
           | Ret (Inr exportedServices) \<Rightarrow> Ret (None, emit timing (create_loop T exportedServices e))))"

definition deleteService ::
  "(string \<Rightarrow> string option) \<Rightarrow> indexer \<Rightarrow> string \<Rightarrow> 'x env_scheme ExportTarget \<Rightarrow> Service option \<Rightarrow> 'x env_scheme \<Rightarrow>
   'x env_scheme go" where
  "deleteService fl indexer clusterId T service e =
     (let (timing, e) = handler_start ''delete'' e in
      case NewExportedServicesFromKubeService fl indexer service clusterId of
        Panic s \<Rightarrow> Panic s
      | Ret (Inl _) \<Rightarrow> Ret (emit timing e)
      | Ret (Inr exportedServices) \<Rightarrow> Ret (emit timing (delete_loop T exportedServices e)))"

fun matchingExportedService :: "ExportedService list \<Rightarrow> ExportedService \<Rightarrow> ExportedService option" where
  "matchingExportedService [] es = None"
| "matchingExportedService (x # xs) es = (if Id es = Id x then Some x else matchingExportedService xs es)"

definition oldES_of :: "ExportedService list \<Rightarrow> nat \<Rightarrow> ExportedService \<Rightarrow> ExportedService option" where
  "oldES_of olds n es =
     (let oldES = matchingExportedService olds es in
      if oldES = None \<and> length olds = 1 \<and> n = 1 then Some (olds ! 0) else oldES)"

text \<open>The loop over the new services, of which there are \<open>n\<close>: it stops at the first error.\<close>

fun update_loop ::
  "'x env_scheme ExportTarget \<Rightarrow> ExportedService list \<Rightarrow> nat \<Rightarrow> ExportedService list \<Rightarrow> string set \<Rightarrow> 'x env_scheme \<Rightarrow>
   (go_error option \<times> string set) \<times> 'x env_scheme" where
  "update_loop T olds n [] newIds e = ((None, newIds), e)"
| "update_loop T olds n (es # ess) newIds e =
     (let newIds = insert (Id es) newIds;
          ((_, err), e) = tgt_Update T (oldES_of olds n es) es e;
          e = target_stat ''update'' es err e
      in case err of
           Some er \<Rightarrow> ((Some (Wrap er ''error updating''), newIds), e)
         | None \<Rightarrow> update_loop T olds n ess newIds e)"

fun orphan_loop ::
  "'x env_scheme ExportTarget \<Rightarrow> string set \<Rightarrow> ExportedService list \<Rightarrow> 'x env_scheme \<Rightarrow> 'x env_scheme" where
  "orphan_loop T newIds [] e = e"
| "orphan_loop T newIds (es # ess) e =
     (if Id es \<in> newIds then orphan_loop T newIds ess e
      else orphan_loop T newIds ess (snd (tgt_Delete T es e)))"

definition list_of :: "'a list result \<Rightarrow> 'a list" where
  "list_of r = (case r of Inl _ \<Rightarrow> [] | Inr xs \<Rightarrow> xs)"

definition updateService ::
  "(string \<Rightarrow> string option) \<Rightarrow> indexer \<Rightarrow> string \<Rightarrow> 'x env_scheme ExportTarget \<Rightarrow> Service option \<Rightarrow> Service option \<Rightarrow>
   'x env_scheme \<Rightarrow> (go_error option \<times> 'x env_scheme) go" where
  "updateService fl indexer clusterId T oldService newService e =
     (let (timing, e) = handler_start ''update'' e in
      case (case IsExportableService newService of
              Panic s \<Rightarrow> Panic s
            | Ret True \<Rightarrow> Ret e
            | Ret False \<Rightarrow> deleteService fl indexer clusterId T oldService e) of
        Panic s \<Rightarrow> Panic s
      | Ret e \<Rightarrow>
          (case NewExportedServicesFromKubeService fl indexer oldService clusterId of
             Panic s \<Rightarrow> Panic s
           | Ret oldRes \<Rightarrow>
               (case NewExportedServicesFromKubeService fl indexer newService clusterId of
                  Panic s \<Rightarrow> Panic s
                | Ret (Inl err) \<Rightarrow> Ret (Some err, emit timing e)
                | Ret (Inr news) \<Rightarrow>
                    (case update_loop T (list_of oldRes) (length news) news {} e of
                       ((Some err, _), e) \<Rightarrow> Ret (Some err, emit timing e)
                     | ((None, newIds), e) \<Rightarrow>
                         Ret (None, emit timing (orphan_loop T newIds (list_of oldRes) e))))))"

section \<open>The worker\<close>

text \<open>
  The pointer that the last line forgets is the address of a local variable: the queue has never
  seen it. It is an argument.
\<close>

definition dispatch ::
  "(string \<Rightarrow> string option) \<Rightarrow> indexer \<Rightarrow> 'x env_scheme ExportTarget \<Rightarrow> KeyOp \<Rightarrow> Service option \<Rightarrow> 'm ServiceWatcher \<Rightarrow>
   'x env_scheme \<Rightarrow> (bool \<times> 'm ServiceWatcher \<times> 'x env_scheme) go" where
  "dispatch fl indexer T ko svc sw e =
     (case ko_Operation ko of
        AddOp \<Rightarrow>
          (case addService fl indexer (sw_clusterId sw) T svc e of
             Panic s \<Rightarrow> Panic s
           | Ret (err, e) \<Rightarrow> Ret (err = None, sw, e))
      | UpdateOp \<Rightarrow>
          (case updateService fl indexer (sw_clusterId sw) T (cacheOlds sw (ko_Key ko)) svc e of
             Panic s \<Rightarrow> Panic s
           | Ret (err, e) \<Rightarrow>
               if err = None then Ret (True, sw\<lparr>cacheOlds := (cacheOlds sw)(ko_Key ko := None)\<rparr>, e)
               else Ret (False, sw, e))
      | DeleteOp \<Rightarrow>
          (case ko_Obj ko of
             Some (Ref _ (KService service)) \<Rightarrow>
               (case deleteService fl indexer (sw_clusterId sw) T (Some service) e of
                  Panic s \<Rightarrow> Panic s
                | Ret e \<Rightarrow> Ret (True, sw, e))
           | _ \<Rightarrow> Panic ''interface conversion''))"

definition zeroKeyOp :: KeyOp where
  "zeroKeyOp = \<lparr>ko_Key = [], ko_Attempts = 0, ko_Obj = None, ko_Operation = AddOp\<rparr>"

definition finish_item ::
  "(string \<Rightarrow> string option) \<Rightarrow> (queued, 'm) Metrics \<Rightarrow> addr \<Rightarrow> indexer \<Rightarrow> 'x env_scheme ExportTarget \<Rightarrow> KeyOp \<Rightarrow>
   Service option \<Rightarrow> 'm ServiceWatcher \<Rightarrow> 'x env_scheme \<Rightarrow> (bool \<times> 'm ServiceWatcher \<times> 'x env_scheme) go" where
  "finish_item fl M local indexer T ko svc sw e =
     (case dispatch fl indexer T ko svc sw e of
        Panic s \<Rightarrow> Panic s
      | Ret (success, sw, e) \<Rightarrow>
          Ret (True, if success then sw\<lparr>sw_queue := Forget M (Ptr local) (sw_queue sw)\<rparr> else sw, e))"

definition processNextItem ::
  "(string \<Rightarrow> string option) \<Rightarrow> (queued, 'm) Metrics \<Rightarrow> addr \<Rightarrow> indexer \<Rightarrow> 'x env_scheme ExportTarget \<Rightarrow>
   'm ServiceWatcher \<Rightarrow> 'x env_scheme \<Rightarrow> (bool \<times> 'm ServiceWatcher \<times> 'x env_scheme) go" where
  "processNextItem fl M local indexer T sw e =
     (let (r, q) = Get M (sw_queue sw); sw = sw\<lparr>sw_queue := q\<rparr>;
          forget = (\<lambda>v. Ret (True, sw\<lparr>sw_queue := Forget M v (sw_queue sw)\<rparr>, e)) in
      case r of
        Inl _ \<Rightarrow> Ret (False, sw, e)
      | Inr (Ptr _) \<Rightarrow> forget (Val zeroKeyOp)
      | Inr (Val ko) \<Rightarrow>
          if ko_Operation ko \<noteq> DeleteOp then
            (case indexer (ko_Key ko) of
               Inl _ \<Rightarrow> forget (Val ko)
             | Inr None \<Rightarrow> forget (Val ko)
             | Inr (Some (KOther _)) \<Rightarrow> Ret (True, sw, e)
             | Inr (Some (KService svc)) \<Rightarrow> finish_item fl M local indexer T ko (Some svc) sw e)
          else finish_item fl M local indexer T ko None sw e)"

text \<open>\<open>runWorker\<close> goes on while there is an item. \<open>fuel\<close> bounds the number of items; the informer's
  cache may change from item to item.\<close>

fun runWorker ::
  "(string \<Rightarrow> string option) \<Rightarrow> (queued, 'm) Metrics \<Rightarrow> addr \<Rightarrow> (nat \<Rightarrow> indexer) \<Rightarrow> 'x env_scheme ExportTarget \<Rightarrow>
   nat \<Rightarrow> 'm ServiceWatcher \<Rightarrow> 'x env_scheme \<Rightarrow> ('m ServiceWatcher \<times> 'x env_scheme) option go" where
  "runWorker fl M local indexers T 0 sw e = Ret None"
| "runWorker fl M local indexers T (Suc n) sw e =
     (case processNextItem fl M local (indexers n) T sw e of
        Panic s \<Rightarrow> Panic s
      | Ret (False, sw, e) \<Rightarrow> Ret (Some (sw, e))
      | Ret (True, sw, e) \<Rightarrow> runWorker fl M local indexers T n sw e)"

section \<open>What the watcher relies on\<close>

text \<open>
  A target keeps a log of the writes it sends. The operations on an exported service add only
  writes that this service owns; sending metrics and reading the clock adds none.
\<close>

locale export_target =
  fixes T :: "'x env_scheme ExportTarget"
    and lg :: "'x env_scheme \<Rightarrow> 'r list"
    and own :: "ExportedService \<Rightarrow> 'r \<Rightarrow> bool"
  assumes create_own: "grows lg (own es) e (snd (tgt_Create T es e))"
    and update_own: "grows lg (\<lambda>r. own es r \<or> (\<exists>old. old_ptr = Some old \<and> own old r)) e (snd (tgt_Update T old_ptr es e))"
    and delete_own: "grows lg (own es) e (snd (tgt_Delete T es e))"
    and lg_emit: "lg (emit m e) = lg e"
    and lg_reads: "lg (e\<lparr>reads := n\<rparr>) = lg e"
begin

abbreviation owned where
  "owned ess r \<equiv> (\<exists>es \<in> set ess. own es r)"

lemma lg_start: "handler_start h e = (m, e') \<Longrightarrow> lg e' = lg e"
  by (auto simp: handler_start_def time_Since_def time_Now_def Let_def lg_emit lg_reads)

lemma lg_stat: "lg (target_stat h es err e) = lg e"
  by (simp add: target_stat_def IncrSuccessOrFail_def lg_emit)

lemma stat_grows: "grows lg P e e' \<Longrightarrow> grows lg P e (target_stat h es err e')"
  by (erule grows_trans) (simp add: grows_none lg_stat)

lemma create_loop_grows: "grows lg (owned ess) e (create_loop T ess e)"
proof (induction ess arbitrary: e)
  case (Cons es ess)
  let ?e1 = "target_stat ''create'' es (snd (fst (tgt_Create T es e))) (snd (tgt_Create T es e))"
  have "grows lg (owned (es # ess)) e ?e1"
    by (rule stat_grows, rule grows_mono [OF create_own]) simp
  moreover have "grows lg (owned (es # ess)) ?e1 (create_loop T ess ?e1)"
    by (rule grows_mono [OF Cons.IH]) auto
  ultimately show ?case by (auto simp: Let_def case_prod_beta intro: grows_trans)
qed (simp add: grows_none)

lemma delete_loop_grows: "grows lg (owned ess) e (delete_loop T ess e)"
proof (induction ess arbitrary: e)
  case (Cons es ess)
  let ?e1 = "target_stat ''delete'' es (snd (fst (tgt_Delete T es e))) (snd (tgt_Delete T es e))"
  have "grows lg (owned (es # ess)) e ?e1"
    by (rule stat_grows, rule grows_mono [OF delete_own]) simp
  moreover have "grows lg (owned (es # ess)) ?e1 (delete_loop T ess ?e1)"
    by (rule grows_mono [OF Cons.IH]) auto
  ultimately show ?case by (auto simp: Let_def case_prod_beta intro: grows_trans)
qed (simp add: grows_none)

lemma orphan_loop_grows: "grows lg (owned ess) e (orphan_loop T ids ess e)"
proof (induction ess arbitrary: e)
  case (Cons es ess)
  have "grows lg (owned (es # ess)) e' (orphan_loop T ids ess e')" for e'
    by (rule grows_mono [OF Cons.IH]) auto
  moreover have "grows lg (owned (es # ess)) e (snd (tgt_Delete T es e))"
    by (rule grows_mono [OF delete_own]) simp
  ultimately show ?case by (auto intro: grows_trans)
qed (simp add: grows_none)

lemma oldES_of_mem: "oldES_of olds n es = Some x \<Longrightarrow> x \<in> set olds"
proof -
  have "matchingExportedService olds es = Some x \<Longrightarrow> x \<in> set olds" for olds
    by (induction olds) (auto split: if_splits)
  then show "oldES_of olds n es = Some x \<Longrightarrow> x \<in> set olds"
    by (auto simp: oldES_of_def Let_def length_Suc_conv split: if_splits)
qed

lemma update_loop_grows:
  "grows lg (\<lambda>r. owned ess r \<or> owned olds r) e (snd (update_loop T olds n ess ids e))"
proof (induction ess arbitrary: e ids)
  case (Cons es ess)
  let ?P = "\<lambda>r. owned (es # ess) r \<or> owned olds r"
  let ?u = "tgt_Update T (oldES_of olds n es) es e"
  let ?e1 = "target_stat ''update'' es (snd (fst ?u)) (snd ?u)"
  have a: "grows lg ?P e ?e1"
    by (rule stat_grows, rule grows_mono [OF update_own]) (auto dest: oldES_of_mem)
  have "grows lg ?P ?e1 (snd (update_loop T olds n ess (insert (Id es) ids) ?e1))"
    by (rule grows_mono [OF Cons.IH]) auto
  with a show ?case by (auto simp: Let_def case_prod_beta intro: grows_trans split: option.split)
qed (simp add: grows_none)

lemma emit_grows: "grows lg P e e' \<Longrightarrow> grows lg P e (emit m e')"
  by (erule grows_trans) (simp add: grows_none lg_emit)

text \<open>The services that a Service exports, none when it is refused.\<close>

abbreviation exports where
  "exports fl indexer c service es \<equiv>
     (\<exists>ess. NewExportedServicesFromKubeService fl indexer service c = Ret (Inr ess) \<and> es \<in> set ess)"

lemma addService_grows:
  assumes "addService fl indexer c T service e = Ret (err, e')"
  shows "grows lg (\<lambda>r. \<exists>es. exports fl indexer c service es \<and> own es r) e e'"
proof -
  let ?P = "\<lambda>r. \<exists>es. exports fl indexer c service es \<and> own es r"
  obtain m e1 where s: "handler_start ''add'' e = (m, e1)" by fastforce
  have e1: "grows lg ?P e e1" using lg_start [OF s] by (simp add: grows_none)
  have "grows lg ?P e1 (create_loop T ess e1)"
    if "NewExportedServicesFromKubeService fl indexer service c = Ret (Inr ess)" for ess
    by (rule grows_mono [OF create_loop_grows]) (use that in auto)
  then show ?thesis
    using assms e1 s
    by (auto simp: addService_def split: go.splits bool.splits sum.splits intro!: emit_grows intro: grows_trans)
qed

lemma deleteService_grows:
  assumes "deleteService fl indexer c T service e = Ret e'"
  shows "grows lg (\<lambda>r. \<exists>es. exports fl indexer c service es \<and> own es r) e e'"
proof -
  let ?P = "\<lambda>r. \<exists>es. exports fl indexer c service es \<and> own es r"
  obtain m e1 where s: "handler_start ''delete'' e = (m, e1)" by fastforce
  have e1: "grows lg ?P e e1" using lg_start [OF s] by (simp add: grows_none)
  have "grows lg ?P e1 (delete_loop T ess e1)"
    if "NewExportedServicesFromKubeService fl indexer service c = Ret (Inr ess)" for ess
    by (rule grows_mono [OF delete_loop_grows]) (use that in auto)
  then show ?thesis
    using assms e1 s
    by (auto simp: deleteService_def split: go.splits sum.splits intro!: emit_grows intro: grows_trans)
qed

lemma updateService_grows:
  assumes "updateService fl indexer c T old_ptr new_ptr e = Ret (err, e')"
  shows "grows lg (\<lambda>r. \<exists>es. (exports fl indexer c old_ptr es \<or> exports fl indexer c new_ptr es) \<and> own es r) e e'"
proof -
  let ?P = "\<lambda>r. \<exists>es. (exports fl indexer c old_ptr es \<or> exports fl indexer c new_ptr es) \<and> own es r"
  obtain m e1 where s: "handler_start ''update'' e = (m, e1)" by fastforce
  have e1: "grows lg ?P e e1" using lg_start [OF s] by (simp add: grows_none)
  obtain e2 where e2: "(case IsExportableService new_ptr of Panic s \<Rightarrow> Panic s | Ret True \<Rightarrow> Ret e1
      | Ret False \<Rightarrow> deleteService fl indexer c T old_ptr e1) = Ret e2"
    using assms s by (auto simp: updateService_def split: go.splits)
  have "grows lg ?P e1 e2"
  proof (cases "e2 = e1")
    case False
    then have "deleteService fl indexer c T old_ptr e1 = Ret e2"
      using e2 by (auto split: go.splits bool.splits)
    from deleteService_grows [OF this] show ?thesis by (rule grows_mono) auto
  qed (simp add: grows_none)
  with e1 have e2': "grows lg ?P e e2" by (rule grows_trans)
  obtain oldRes newRes where o: "NewExportedServicesFromKubeService fl indexer old_ptr c = Ret oldRes"
    and n: "NewExportedServicesFromKubeService fl indexer new_ptr c = Ret newRes"
    using assms s e2 by (auto simp: updateService_def split: go.splits)
  have olds: "\<exists>ess. NewExportedServicesFromKubeService fl indexer old_ptr c = Ret (Inr ess) \<and> es \<in> set ess"
    if "es \<in> set (list_of oldRes)" for es
    using that o by (auto simp: list_of_def split: sum.splits)
  have u: "grows lg ?P e (snd (update_loop T (list_of oldRes) k news ids e2))" if "newRes = Inr news" for k news ids
    by (rule grows_trans [OF e2'], rule grows_mono [OF update_loop_grows]) (use olds n that in blast)
  have p: "grows lg ?P e3 (orphan_loop T ids (list_of oldRes) e3)" for ids e3
    by (rule grows_mono [OF orphan_loop_grows]) (use olds in blast)
  show ?thesis
  proof (cases newRes)
    case (Inl er)
    then show ?thesis using assms s e2 o n e2' by (auto simp: updateService_def intro: emit_grows)
  next
    case (Inr news)
    obtain x ids e3 where l: "update_loop T (list_of oldRes) (length news) news {} e2 = ((x, ids), e3)"
      by (metis prod.collapse)
    have "grows lg ?P e e3" using u [OF Inr, of "length news" "{}"] l by simp
    then show ?thesis
      using assms s e2 o n Inr l grows_trans [OF _ p]
      by (cases x) (auto simp: updateService_def intro!: emit_grows)
  qed
qed

end

text \<open>The Consul target provides it: its log are the writes it sends.\<close>

lemma writes_env [simp]: "writes (emit m w) = writes w" "writes (w\<lparr>reads := n\<rparr>) = writes w"
  by (simp_all add: writes_def emit_def)

abbreviation consul_target :: "'w ConsulTarget \<Rightarrow> 'w ConsulLeaderElector \<Rightarrow> 'w ConsulTarget" where
  "consul_target t le \<equiv> t\<lparr>t_elector := elector_of le\<rparr>"

interpretation ct: export_target "target_of D (consul_target t le)" writes "owns D (consul_target t le)"
  for D :: deps and t :: "'w ConsulTarget" and le :: "'w ConsulLeaderElector"
proof -
  have h: "t_elector (consul_target t le) =
      \<lparr>el_IsLeader = IsLeader le, el_HasLeader = HasLeader le, el_WaitForLeader = WaitForLeader le\<rparr>"
    by (simp add: elector_of_def)
  show "export_target (target_of D (consul_target t le)) writes (owns D (consul_target t le))"
    by unfold_locales
      (use cle.Create_adds [OF h] cle.Update_adds [OF h] cle.Delete_adds [OF h] in \<open>simp_all add: target_of_def\<close>)
qed

section \<open>Handlers and queue\<close>

abbreviation sw_inv :: "'m ServiceWatcher \<Rightarrow> bool" where
  "sw_inv sw \<equiv> pq_inv (sw_queue sw)"

abbreviation pending :: "'m ServiceWatcher \<Rightarrow> queued set" where
  "pending sw \<equiv> dom (pq_abs (sw_queue sw))"

lemma NewServiceWatcher_inv: "sw_inv (NewServiceWatcher nss c m)" "pending (NewServiceWatcher nss c m) = {}"
  by (simp_all add: NewServiceWatcher_def New_inv New_abs)

lemma enqueue_pending:
  assumes "sw_inv sw"
  shows "sw_inv (enqueue M ko sw)" "pending (enqueue M ko sw) = insert (Val ko) (pending sw)"
    "cacheOlds (enqueue M ko sw) = cacheOlds sw" "namespaces (enqueue M ko sw) = namespaces sw"
  using Add_inv [OF assms, of "Fin 0" M "Val ko"] Add_abs [OF assms, of "Fin 0" M "Val ko"]
  by (auto simp: enqueue_def)

lemma Forget_pending:
  assumes "pq_inv q"
  shows "pq_inv (Forget M v q)" "dom (pq_abs (Forget M v q)) \<subseteq> dom (pq_abs q)"
  using Forget_inv_abs [OF assms, of M v] by auto

lemma dispatch_queue: "dispatch fl ix T ko svc sw e = Ret (b, sw', e') \<Longrightarrow> sw_queue sw' = sw_queue sw"
  by (auto simp: dispatch_def split: operation.splits go.splits prod.splits if_splits option.splits ref.splits
      kobject.splits)

text \<open>One item: the queue loses what \<open>Get\<close> returned, and never gains anything.\<close>

lemma processNextItem_queue:
  assumes inv: "sw_inv sw" and r: "processNextItem fl M local ix T sw e = Ret (b, sw', e')"
  shows "sw_inv sw'" and "b \<longleftrightarrow> pending sw \<noteq> {}" and "b \<Longrightarrow> pending sw' \<subset> pending sw"
proof -
  obtain g q where g: "Get M (sw_queue sw) = (g, q)" by fastforce
  have q: "pq_inv q" using Get_inv [OF inv, of M] g by simp
  have "sw_inv sw' \<and> (b \<longleftrightarrow> pending sw \<noteq> {}) \<and> (b \<longrightarrow> pending sw' \<subset> pending sw)"
  proof (cases g)
    case (Inl er)
    then have "pending sw = {}" "q = sw_queue sw" using pq.get_err [OF inv, of M er q] g by auto
    then show ?thesis using r g Inl q by (auto simp: processNextItem_def)
  next
    case (Inr v)
    note got = Get_abs(1,2) [OF inv, of M v q] g [unfolded Inr]
    have sub: "dom (pq_abs q) \<subset> pending sw" "pending sw \<noteq> {}" using got by auto
    have "b \<and> (sw_queue sw' = q \<or> (\<exists>u. sw_queue sw' = Forget M u q))"
      using r g Inr
      by (auto simp: processNextItem_def finish_item_def Let_def dest!: dispatch_queue
          split: queued.splits if_splits sum.splits option.splits kobject.splits go.splits prod.splits)
    moreover have "dom (pq_abs (Forget M u q)) \<subset> pending sw" for u
      using Forget_pending(2) [OF q, of M u] sub(1) by (rule subset_psubset_trans)
    ultimately show ?thesis using sub q Forget_pending(1) [OF q, of M] by (elim conjE disjE exE) simp_all
  qed
  then show "sw_inv sw'" "b \<longleftrightarrow> pending sw \<noteq> {}" "b \<Longrightarrow> pending sw' \<subset> pending sw" by blast+
qed

lemma runWorker_returns:
  assumes "sw_inv sw" "card (pending sw) < n"
  shows "runWorker fl M local ixs T n sw e \<noteq> Ret None"
  using assms
proof (induction n arbitrary: sw e)
  case (Suc n)
  show ?case
  proof (cases "processNextItem fl M local (ixs n) T sw e")
    case (Ret r)
    obtain b sw' e' where r: "r = (b, sw', e')" by (cases r) auto
    note p = processNextItem_queue [OF Suc.prems(1) Ret [unfolded r]]
    have "card (pending sw') < n" if b
      using psubset_card_mono [OF Len_abs(1) [OF Suc.prems(1)] p(3) [OF that]] Suc.prems(2) by simp
    then show ?thesis using Suc.IH [OF p(1)] Ret r by (auto split: bool.split)
  qed simp
qed simp

section \<open>The calls of an update\<close>

text \<open>A target that notes the calls it gets and answers them as told.\<close>

datatype target_call =
    CallCreate ExportedService
  | CallUpdate "ExportedService option" ExportedService
  | CallDelete ExportedService

record recorded = env +
  calls :: "target_call list"

definition note_call :: "(target_call \<Rightarrow> go_error option) \<Rightarrow> target_call \<Rightarrow> recorded \<Rightarrow> (bool \<times> go_error option) \<times> recorded" where
  "note_call answer c e = ((answer c = None, answer c), e\<lparr>calls := calls e @ [c]\<rparr>)"

definition recorder :: "(target_call \<Rightarrow> go_error option) \<Rightarrow> recorded ExportTarget" where
  "recorder answer =
     \<lparr>tgt_Create = \<lambda>es. note_call answer (CallCreate es),
      tgt_Update = \<lambda>old_ptr es. note_call answer (CallUpdate old_ptr es),
      tgt_Delete = \<lambda>es. note_call answer (CallDelete es),
      tgt_WriteNodes = \<lambda>_ e. (None, e)\<rparr>"

lemma recorder_simps [simp]:
  "tgt_Create (recorder a) es = note_call a (CallCreate es)"
  "tgt_Update (recorder a) old_ptr es = note_call a (CallUpdate old_ptr es)"
  "tgt_Delete (recorder a) es = note_call a (CallDelete es)"
  by (simp_all add: recorder_def)

lemma calls_env [simp]:
  "calls (emit m e) = calls e" "calls (e\<lparr>reads := n\<rparr>) = calls e" "calls (target_stat h es err e) = calls e"
  by (simp_all add: emit_def target_stat_def IncrSuccessOrFail_def)

lemma calls_start: "handler_start h e = (m, e') \<Longrightarrow> calls e' = calls e"
  by (auto simp: handler_start_def time_Since_def time_Now_def Let_def)

lemma create_loop_calls: "calls (create_loop (recorder a) ess e) = calls e @ map CallCreate ess"
  by (induction ess arbitrary: e) (simp_all add: note_call_def)

lemma delete_loop_calls: "calls (delete_loop (recorder a) ess e) = calls e @ map CallDelete ess"
  by (induction ess arbitrary: e) (simp_all add: note_call_def)

lemma orphan_loop_calls:
  "calls (orphan_loop (recorder a) ids ess e) = calls e @ map CallDelete (filter (\<lambda>es. Id es \<notin> ids) ess)"
  by (induction ess arbitrary: e) (simp_all add: note_call_def)

lemma update_loop_calls:
  assumes "\<And>es. es \<in> set ess \<Longrightarrow> a (CallUpdate (oldES_of olds n es) es) = None"
  shows "fst (update_loop (recorder a) olds n ess ids e) = (None, ids \<union> Id ` set ess) \<and>
    calls (snd (update_loop (recorder a) olds n ess ids e)) =
      calls e @ map (\<lambda>es. CallUpdate (oldES_of olds n es) es) ess"
  using assms by (induction ess arbitrary: ids e) (auto simp: note_call_def)

text \<open>The first update that fails ends the loop.\<close>

lemma update_loop_fails:
  assumes "\<And>es. es \<in> set xs \<Longrightarrow> a (CallUpdate (oldES_of olds n es) es) = None"
    "a (CallUpdate (oldES_of olds n x) x) = Some er"
  shows "fst (fst (update_loop (recorder a) olds n (xs @ x # ys) ids e)) = Some (Wrap er ''error updating'') \<and>
    calls (snd (update_loop (recorder a) olds n (xs @ x # ys) ids e)) =
      calls e @ map (\<lambda>es. CallUpdate (oldES_of olds n es) es) (xs @ [x])"
  using assms by (induction xs arbitrary: ids e) (auto simp: note_call_def)

section \<open>Properties\<close>


abbreviation demo_ix :: indexer where
  "demo_ix \<equiv> (\<lambda>_. Inr None)"




text \<open>The handlers. An event about a Service of a namespace that is not watched changes nothing;
  any other puts exactly its operation on the queue, and an update also remembers the old Service.
  An event about something that is no Service is dropped, also the tombstone of a missed deletion.\<close>

lemma handlers_enqueue:
  assumes "sw_inv sw" "obj = Ref a (KService svc)" "old_obj = Ref b (KService old_svc)"
    "MetaNamespaceKeyFunc (KService svc) = Inr key" "svc_namespace svc = svc_namespace old_svc"
  shows "if namespaces sw \<noteq> [] \<and> svc_namespace svc \<notin> set (namespaces sw)
    then AddFunc M obj sw = sw \<and> UpdateFunc M old_obj obj sw = sw \<and> DeleteFunc M obj sw = sw
    else pending (AddFunc M obj sw) = insert (Val (NewKeyOp key obj AddOp)) (pending sw) \<and>
      pending (UpdateFunc M old_obj obj sw) = insert (Val (NewKeyOp key obj UpdateOp)) (pending sw) \<and>
      cacheOlds (UpdateFunc M old_obj obj sw) = (cacheOlds sw)(key \<mapsto> old_svc) \<and>
      pending (DeleteFunc M obj sw) = insert (Val (NewKeyOp key obj DeleteOp)) (pending sw) \<and>
      DeleteFunc M (Ref a (KOther (Some key))) sw = sw"
proof -
  have "StringInSlice s xs \<longleftrightarrow> s \<in> set xs" for s xs by (induction xs) auto
  then have "ignored sw x \<longleftrightarrow> namespaces sw \<noteq> [] \<and> svc_namespace x \<notin> set (namespaces sw)" for x
    by (auto simp: ignored_def)
  then show ?thesis
    using assms enqueue_pending [OF assms(1), of M]
      enqueue_pending [of "sw\<lparr>cacheOlds := (cacheOlds sw)(key \<mapsto> old_svc)\<rparr>" M "NewKeyOp key obj UpdateOp"]
    by (simp add: AddFunc_def UpdateFunc_def DeleteFunc_def Let_def)
qed

lemma handlers_enqueue_witness:
  "pending (AddFunc no_metrics (Ref 0 (KService demo_service)) (NewServiceWatcher [] ''c1'' ())) =
     {Val (NewKeyOp ''default/web'' (Ref 0 (KService demo_service)) AddOp)}"
proof -
  have "MetaNamespaceKeyFunc (KService demo_service) = Inr ''default/web''" by (simp add: demo_service_def)
  moreover have "namespaces (NewServiceWatcher [] ''c1'' ()) = []" by (simp add: NewServiceWatcher_def)
  ultimately show ?thesis
    using handlers_enqueue [OF NewServiceWatcher_inv(1) [of "[]" "''c1''" "()"] refl refl, where svc = demo_service
        and old_svc = demo_service and key = "''default/web''" and M = no_metrics and a = 0]
    by (simp add: NewServiceWatcher_inv(2))
qed

text \<open>The Services that the item is about: the one in the cache, the remembered one, the deleted one.\<close>

definition concerns :: "indexer \<Rightarrow> 'm ServiceWatcher \<Rightarrow> KeyOp \<Rightarrow> Service \<Rightarrow> bool" where
  "concerns ix sw ko s =
     (ix (ko_Key ko) = Inr (Some (KService s)) \<or> cacheOlds sw (ko_Key ko) = Some s \<or>
      (\<exists>a. ko_Obj ko = Some (Ref a (KService s))))"

text \<open>C29: everything that processing one item writes to Consul belongs to a service exported by one of
  the Services the item is about.\<close>

theorem processNextItem_writes_own:
  fixes t :: "'w ConsulTarget"
  assumes "fst (Get M (sw_queue sw)) = Inr (Val ko)"
    "processNextItem fl M local ix (target_of D (consul_target t le)) sw w = Ret (b, sw', w')"
  shows "\<exists>rs. writes w' = writes w @ rs \<and> list_all (\<lambda>r. \<exists>s ess es. concerns ix sw ko s \<and>
      NewExportedServicesFromKubeService fl ix (Some s) (sw_clusterId sw) = Ret (Inr ess) \<and> es \<in> set ess \<and>
      owns D (consul_target t le) es r) rs"
proof -
  let ?P = "\<lambda>r. \<exists>s ess es. concerns ix sw ko s \<and>
      NewExportedServicesFromKubeService fl ix (Some s) (sw_clusterId sw) = Ret (Inr ess) \<and> es \<in> set ess \<and>
      owns D (consul_target t le) es r"
  let ?T = "target_of D (consul_target t le)"
  obtain q where g: "Get M (sw_queue sw) = (Inr (Val ko), q)" using assms(1) by (metis prod.collapse)
  let ?sw = "sw\<lparr>sw_queue := q\<rparr>"
  have d: "grows writes ?P w w''"
    if svc: "\<And>s. svc = Some s \<Longrightarrow> ix (ko_Key ko) = Inr (Some (KService s))"
      and r: "dispatch fl ix ?T ko svc ?sw w = Ret (c, sw'', w'')" for svc c sw'' w''
  proof (cases "ko_Operation ko")
    case AddOp
    then obtain err where "addService fl ix (sw_clusterId sw) ?T svc w = Ret (err, w'')"
      using r by (auto simp: dispatch_def split: go.splits)
    from ct.addService_grows [OF this] show ?thesis
      by (rule grows_mono) (use svc in \<open>cases svc; auto simp: concerns_def\<close>)
  next
    case UpdateOp
    then obtain err where "updateService fl ix (sw_clusterId sw) ?T (cacheOlds sw (ko_Key ko)) svc w = Ret (err, w'')"
      using r by (auto simp: dispatch_def split: go.splits if_splits)
    from ct.updateService_grows [OF this] show ?thesis
      by (rule grows_mono) (use svc in \<open>cases svc; cases "cacheOlds sw (ko_Key ko)"; auto simp: concerns_def\<close>)
  next
    case DeleteOp
    then obtain a s where "ko_Obj ko = Some (Ref a (KService s))"
      "deleteService fl ix (sw_clusterId sw) ?T (Some s) w = Ret w''"
      using r by (auto simp: dispatch_def split: go.splits option.splits ref.splits kobject.splits)
    from ct.deleteService_grows [OF this(2)] this(1) show ?thesis
      by (auto simp: concerns_def elim!: grows_mono)
  qed
  have "grows writes ?P w w'"
    using assms(2) g d [of "Some _"] d [of None]
    by (auto simp: processNextItem_def finish_item_def Let_def intro: grows_none
        split: if_splits sum.splits option.splits kobject.splits go.splits prod.splits)
  then show ?thesis by (simp add: grows_def)
qed

lemma handlers_no_panic:
  "\<not> is_panic (addService fl ix c T (Some svc) e)"
  "\<not> is_panic (deleteService fl ix c T (Some svc) e)"
  "is_panic (updateService fl ix c T old_ptr (Some svc) e) \<longleftrightarrow> old_ptr = None"
proof -
  have [simp]: "is_panic (NewExportedServicesFromKubeService fl ix p c) \<longleftrightarrow> p = None" for p
    using export_total [of fl ix _ c] by (cases p) auto
  have ret: "\<exists>r. NewExportedServicesFromKubeService fl ix (Some s) c = Ret r" for s
    using export_total [of fl ix s c] by (cases "NewExportedServicesFromKubeService fl ix (Some s) c") auto
  have ex: "\<exists>b. IsExportableService (Some svc) = Ret b" by (simp add: IsExportableService_def)
  obtain b r where "IsExportableService (Some svc) = Ret b"
    "NewExportedServicesFromKubeService fl ix (Some svc) c = Ret r" using ex ret by blast
  then show add: "\<not> is_panic (addService fl ix c T (Some svc) e)"
    by (cases b; cases r) (simp_all add: addService_def Let_def case_prod_beta)
  have del: "\<exists>e'. deleteService fl ix c T (Some s) e = Ret e'" for s e
    using ret [of s] by (auto simp: deleteService_def Let_def case_prod_beta split: sum.split)
  then show "\<not> is_panic (deleteService fl ix c T (Some svc) e)" by (metis is_panic_simps(1))
  show "is_panic (updateService fl ix c T old_ptr (Some svc) e) \<longleftrightarrow> old_ptr = None"
  proof (cases old_ptr)
    case None
    then show ?thesis
      using ex by (auto simp: updateService_def deleteService_def Let_def case_prod_beta split: bool.split)
  next
    case (Some s)
    let ?h = "snd (handler_start ''update'' e)"
    obtain b oldRes newRes e1 where
      "IsExportableService (Some svc) = Ret b" "deleteService fl ix c T (Some s) ?h = Ret e1"
      "NewExportedServicesFromKubeService fl ix (Some s) c = Ret oldRes"
      "NewExportedServicesFromKubeService fl ix (Some svc) c = Ret newRes"
      using ex del ret by metis
    then show ?thesis
      using Some by (cases b) (auto simp: updateService_def Let_def case_prod_beta split: sum.split option.split)
  qed
qed

lemma finish_item_panic:
  "is_panic (finish_item fl M local ix T ko svc sw e) \<longleftrightarrow> is_panic (dispatch fl ix T ko svc sw e)"
  by (auto simp: finish_item_def split: go.split)

lemma dispatch_panic:
  "ko_Operation ko \<noteq> DeleteOp \<Longrightarrow> is_panic (dispatch fl ix T ko (Some svc) sw e) \<longleftrightarrow>
     ko_Operation ko = UpdateOp \<and> cacheOlds sw (ko_Key ko) = None"
  "ko_Operation ko = DeleteOp \<Longrightarrow> is_panic (dispatch fl ix T ko p sw e) \<longleftrightarrow>
     \<not> (\<exists>a svc. ko_Obj ko = Some (Ref a (KService svc)))"
proof -
  show "is_panic (dispatch fl ix T ko (Some svc) sw e) \<longleftrightarrow>
     ko_Operation ko = UpdateOp \<and> cacheOlds sw (ko_Key ko) = None" if "ko_Operation ko \<noteq> DeleteOp"
    using that handlers_no_panic(1) [of fl ix "sw_clusterId sw" T svc e]
      handlers_no_panic(3) [of fl ix "sw_clusterId sw" T "cacheOlds sw (ko_Key ko)" svc e]
    by (cases "ko_Operation ko") (auto simp: dispatch_def split: go.splits)
  show "is_panic (dispatch fl ix T ko p sw e) \<longleftrightarrow> \<not> (\<exists>a svc. ko_Obj ko = Some (Ref a (KService svc)))"
    if "ko_Operation ko = DeleteOp"
    using that handlers_no_panic(2) [of fl ix "sw_clusterId sw" T _ e]
    by (auto simp: dispatch_def split: go.splits option.splits ref.splits kobject.splits) (metis is_panic_simps(2))
qed

lemma processNextItem_panic:
  assumes "fst (Get M (sw_queue sw)) = Inr (Val ko)"
  shows "is_panic (processNextItem fl M local ix T sw e) \<longleftrightarrow>
    ko_Operation ko = UpdateOp \<and> cacheOlds sw (ko_Key ko) = None \<and>
      (\<exists>svc. ix (ko_Key ko) = Inr (Some (KService svc))) \<or>
    ko_Operation ko = DeleteOp \<and> \<not> (\<exists>a svc. ko_Obj ko = Some (Ref a (KService svc)))"
proof -
  obtain q where g: "Get M (sw_queue sw) = (Inr (Val ko), q)" using assms by (metis prod.collapse)
  show ?thesis
  proof (cases "ko_Operation ko = DeleteOp")
    case True
    then show ?thesis
      using dispatch_panic(2) [OF True, of fl ix T None "sw\<lparr>sw_queue := q\<rparr>" e]
      by (simp add: processNextItem_def g finish_item_panic)
  next
    case False
    show ?thesis
    proof (cases "\<exists>svc. ix (ko_Key ko) = Inr (Some (KService svc))")
      case True
      then obtain svc where "ix (ko_Key ko) = Inr (Some (KService svc))" by blast
      then show ?thesis
        using False dispatch_panic(1) [OF False, of fl ix T svc "sw\<lparr>sw_queue := q\<rparr>" e]
        by (simp add: processNextItem_def g finish_item_panic)
    next
      case none: False
      then show ?thesis
        using False by (auto simp: processNextItem_def g Let_def split: sum.splits option.splits kobject.splits)
    qed
  qed
qed

text \<open>Small Services to run the worker on.\<close>

definition plain :: "string \<Rightarrow> Service" where
  "plain name = \<lparr>svc_namespace = ''n'', svc_name = name, svc_annotations = Some [(ServiceAnnotationExported, ''1'')],
     svc_type = ServiceTypeNodePort, svc_ports = [\<lparr>port_name = ''p'', port_port = 1, port_nodePort = 2\<rparr>]\<rparr>"

definition plain_ix :: indexer where
  "plain_ix k = Inr (if k = ''n/s'' then Some (KService (plain ''s''))
     else if k = ''n/x'' then Some (KService (plain ''x'')) else None)"

definition plain_env :: recorded where
  "plain_env = \<lparr>emitted = [], clock = \<lambda>_. 0, reads = 0, calls = []\<rparr>"

definition plain_sw :: "unit ServiceWatcher" where
  "plain_sw = AddFunc no_metrics (Ref 0 (KService (plain ''s''))) (NewServiceWatcher [] ''c1'' ())"

lemma plain_sw_Get:
  "fst (Get no_metrics (sw_queue plain_sw)) = Inr (Val (NewKeyOp ''n/s'' (Ref 0 (KService (plain ''s''))) AddOp))"
proof -
  have "sw_queue plain_sw = Add no_metrics (Val (NewKeyOp ''n/s'' (Ref 0 (KService (plain ''s''))) AddOp)) (Fin 0)
      (NewPriorityQueueWithMetrics ())"
    by (simp add: plain_sw_def AddFunc_def ignored_def enqueue_def NewServiceWatcher_def plain_def)
  then show ?thesis by (simp only:) (rule pq.add_get_same [OF New_inv New_abs], simp)
qed

theorem processNextItem_writes_own_witness:
  "\<exists>b sw' w'. processNextItem Some no_metrics 0 plain_ix (target_of demo_deps (consul_target demo_target demo_elector))
       plain_sw (memory_world Map.empty True) = Ret (b, sw', w') \<and>
     (\<exists>rs. writes w' = rs \<and> list_all (\<lambda>r. \<exists>s ess es.
        concerns plain_ix plain_sw (NewKeyOp ''n/s'' (Ref 0 (KService (plain ''s''))) AddOp) s \<and>
        NewExportedServicesFromKubeService Some plain_ix (Some s) (sw_clusterId plain_sw) = Ret (Inr ess) \<and>
        es \<in> set ess \<and> owns demo_deps (consul_target demo_target demo_elector) es r) rs)"
proof -
  let ?p = "processNextItem Some no_metrics 0 plain_ix (target_of demo_deps (consul_target demo_target demo_elector))
       plain_sw (memory_world Map.empty True)"
  have "\<not> is_panic ?p"
    using processNextItem_panic [OF plain_sw_Get] by (simp add: NewKeyOp_def)
  then obtain b sw' w' where p: "?p = Ret (b, sw', w')" by (cases ?p) auto
  moreover have "writes (memory_world Map.empty True) = []" by (simp add: writes_def memory_world_def)
  ultimately show ?thesis
    using processNextItem_writes_own [OF plain_sw_Get p] by simp
qed

text \<open>Two updates of one Service that are queued before the worker gets to the first one: the
  worker handles one of them, forgets the old Service, and panics on the other.\<close>

lemma second_update_panics:
  "is_panic (runWorker Some no_metrics 0 (\<lambda>_. plain_ix) (recorder (\<lambda>_. None)) 3
     (UpdateFunc no_metrics (Ref 1 (KService (plain ''s''))) (Ref 2 (KService (plain ''s'')))
       (UpdateFunc no_metrics (Ref 0 (KService (plain ''s''))) (Ref 1 (KService (plain ''s'')))
         (NewServiceWatcher [] ''c1'' ()))) plain_env)"
  by code_simp

text \<open>The calls that a run of the worker made, by the names of the Services.\<close>

fun call_name :: "target_call \<Rightarrow> string \<times> string" where
  "call_name (CallCreate es) = (''create'', Name es)"
| "call_name (CallUpdate old_ptr es) = (''update'', Name es)"
| "call_name (CallDelete es) = (''delete'', Name es)"

definition call_names :: "('m ServiceWatcher \<times> recorded) option go \<Rightarrow> (string \<times> string) list" where
  "call_names r = (case r of Ret (Some (_, e)) \<Rightarrow> map call_name (calls e) | _ \<Rightarrow> [])"


text \<open>The time that is reported for a handler is the time between its first line and its \<open>defer\<close>
  statement: both clock readings come before any call of the target, however long that takes.\<close>

lemma addService_timing:
  assumes "addService fl ix c T svc e = Ret (err, e')"
  shows "last (emitted e') = Timing ''kubernetes.service_handler.time''
    (Sub (clock e (Suc (reads e))) (clock e (reads e))) [''handler:add'']"
  using assms
  by (auto simp: addService_def handler_start_def time_Now_def time_Since_def Let_def
      split: go.splits bool.splits sum.splits)

lemma addService_timing_witness:
  "\<exists>err e'. addService Some demo_ix ''c1'' (recorder (\<lambda>_. None)) (Some demo_service) plain_env = Ret (err, e') \<and>
     last (emitted e') = Timing ''kubernetes.service_handler.time'' 0 [''handler:add'']"
proof -
  obtain err e' where r: "addService Some demo_ix ''c1'' (recorder (\<lambda>_. None)) (Some demo_service) plain_env = Ret (err, e')"
    using handlers_no_panic(1) [of Some demo_ix "''c1''" "recorder (\<lambda>_. None)" demo_service plain_env]
    by (cases "addService Some demo_ix ''c1'' (recorder (\<lambda>_. None)) (Some demo_service) plain_env") auto
  then show ?thesis using addService_timing [OF r] by (simp add: plain_env_def Sub_def)
qed

end
