(* ===== verification/NodeWatcher.thy ===== *)
theory NodeWatcher
  imports DelayingQueue ServiceWatcher
begin

text \<open>
  \<open>pkg/controller/node\_watcher.go\<close>: the handlers of the node informer, the worker, and
  \<open>exportNodes\<close>, which chooses the nodes that are written to the target. The informer's store and
  lister and the parser of label selectors are arguments; what the store holds is the same for the
  time one item is processed. The watcher never looks at the object in a \<open>KeyOp\<close>, so that a node
  in the queue is a pointer with the key of what it points to.
\<close>

section \<open>The watcher\<close>

record NodeConfiguration =
  Selectors :: "string list"
  MinCount :: int
  MaxRequeueCount :: int

record 'q NodeWatcher = NodeConfiguration +
  curSelector :: string
  nw_queue :: 'q
  maxRequeueCount :: int
  nw_stopC :: bool \<comment> \<open>whether the channel has been closed\<close>

definition NewNodeWatcher :: "NodeConfiguration \<Rightarrow> 'q \<Rightarrow> 'q NodeWatcher" where
  "NewNodeWatcher nc q =
     \<lparr>Selectors = Selectors nc, MinCount = MinCount nc, MaxRequeueCount = MaxRequeueCount nc,
      curSelector = [], nw_queue = q, maxRequeueCount = MaxRequeueCount nc, nw_stopC = False\<rparr>"

text \<open>
  What the store holds is a node or something else. \<open>labels.Parse\<close> returns a nil selector with
  its error. The lister returns nodes and an error.
\<close>

datatype stored = SNode Node | SOther

record 'sel node_store =
  GetByKey :: "string \<Rightarrow> stored option result"
  labels_Parse :: "string \<Rightarrow> 'sel result"
  lister_List :: "'sel \<Rightarrow> Node list \<times> go_error option"

type_synonym ('q, 'x) node_queue = "(queued, 'q \<times> 'x env_scheme) RateLimitingInterface"

section \<open>The handlers\<close>

definition nw_enqueue ::
  "('q, 'x) node_queue \<Rightarrow> KeyOp \<Rightarrow> 'q NodeWatcher \<Rightarrow> 'x env_scheme \<Rightarrow> 'q NodeWatcher \<times> 'x env_scheme" where
  "nw_enqueue Q ko nw e = (let (q, e) = q_Add Q (Val ko) (nw_queue nw, e) in (nw\<lparr>nw_queue := q\<rparr>, e))"

definition nw_AddFunc ::
  "('q, 'x) node_queue \<Rightarrow> ref \<Rightarrow> 'q NodeWatcher \<Rightarrow> 'x env_scheme \<Rightarrow> 'q NodeWatcher \<times> 'x env_scheme" where
  "nw_AddFunc Q obj nw e =
     (case MetaNamespaceKeyFunc (deref obj) of
        Inl err \<Rightarrow> (nw, e)
      | Inr key \<Rightarrow> nw_enqueue Q (NewKeyOp key obj AddOp) nw e)"

definition nw_UpdateFunc ::
  "('q, 'x) node_queue \<Rightarrow> ref \<Rightarrow> ref \<Rightarrow> 'q NodeWatcher \<Rightarrow> 'x env_scheme \<Rightarrow> 'q NodeWatcher \<times> 'x env_scheme" where
  "nw_UpdateFunc Q oldObj newObj nw e =
     (case MetaNamespaceKeyFunc (deref newObj) of
        Inl err \<Rightarrow> (nw, e)
      | Inr key \<Rightarrow> nw_enqueue Q (NewKeyOp key newObj UpdateOp) nw e)"

definition nw_DeleteFunc ::
  "('q, 'x) node_queue \<Rightarrow> ref \<Rightarrow> 'q NodeWatcher \<Rightarrow> 'x env_scheme \<Rightarrow> 'q NodeWatcher \<times> 'x env_scheme" where
  "nw_DeleteFunc Q obj nw e =
     (case MetaNamespaceKeyFunc (deref obj) of
        Inl err \<Rightarrow> (nw, e)
      | Inr key \<Rightarrow> nw_enqueue Q (NewKeyOp key obj DeleteOp) nw e)"

section \<open>Exporting the nodes\<close>

fun candidate_loop ::
  "Node list \<Rightarrow> Node list \<Rightarrow> 'x env_scheme \<Rightarrow> (Node list \<times> 'x env_scheme) go" where
  "candidate_loop [] candidateNodes e = Ret (candidateNodes, e)"
| "candidate_loop (node # nodes) candidateNodes e =
     (let (now, e) = time_Now e in
      case ShouldInclude now (Some node) of
        Panic s \<Rightarrow> Panic s
      | Ret (include, _) \<Rightarrow> candidate_loop nodes (if include then candidateNodes @ [node] else candidateNodes) e)"

text \<open>
  The loop over the selectors, with the ready nodes and the selector of the loop variable. An error
  of the parser or the lister is only logged; listing with a nil selector is a nil dereference.
\<close>

fun selector_loop ::
  "'sel node_store \<Rightarrow> int \<Rightarrow> string list \<Rightarrow> Node list \<Rightarrow> string \<Rightarrow> 'x env_scheme \<Rightarrow>
   ((Node list \<times> string) \<times> 'x env_scheme) go" where
  "selector_loop st minCount [] readyNodes selector e = Ret ((readyNodes, selector), e)"
| "selector_loop st minCount (sel # sels) readyNodes selector e =
     (case labels_Parse st sel of
        Inl _ \<Rightarrow> Panic ''nil pointer dereference''
      | Inr labelSelector \<Rightarrow>
          let (nodes, _) = lister_List st labelSelector in
          (case candidate_loop nodes [] e of
             Panic s \<Rightarrow> Panic s
           | Ret (candidateNodes, e) \<Rightarrow>
               if 0 < length candidateNodes then
                 (if minCount < int (length candidateNodes) then Ret ((candidateNodes, sel), e)
                  else selector_loop st minCount sels candidateNodes sel e)
               else selector_loop st minCount sels readyNodes sel e))"

definition node_gauge :: "string \<Rightarrow> Node \<Rightarrow> metric" where
  "node_gauge selector node = Gauge ''nodes'' 1 [''selector:'' @ selector, ''node:'' @ node_name node]"

fun gauge_loop :: "string \<Rightarrow> Node list \<Rightarrow> 'x env_scheme \<Rightarrow> 'x env_scheme" where
  "gauge_loop selector [] e = e"
| "gauge_loop selector (node # nodes) e = gauge_loop selector nodes (emit (node_gauge selector node) e)"

definition exportNodes ::
  "'sel node_store \<Rightarrow> 'x env_scheme ExportTarget \<Rightarrow> 'q NodeWatcher \<Rightarrow> 'x env_scheme \<Rightarrow>
   ('q NodeWatcher \<times> 'x env_scheme) go" where
  "exportNodes st T nw e =
     (case selector_loop st (MinCount nw) (Selectors nw) [] [] e of
        Panic s \<Rightarrow> Panic s
      | Ret ((readyNodes, selector), e) \<Rightarrow>
          let nw = (if curSelector nw \<noteq> selector then nw\<lparr>curSelector := selector\<rparr> else nw);
              e = gauge_loop selector readyNodes e;
              (err, e) = tgt_WriteNodes T readyNodes e
          in Ret (nw, e))"

section \<open>The worker\<close>

definition handler_tag :: "operation \<Rightarrow> string" where
  "handler_tag opn = (case opn of AddOp \<Rightarrow> ''handler:add'' | UpdateOp \<Rightarrow> ''handler:update'' | DeleteOp \<Rightarrow> ''handler:delete'')"

text \<open>The \<open>switch\<close> on the operation: every operation exports the nodes and counts as a success.\<close>

definition nw_dispatch ::
  "'sel node_store \<Rightarrow> 'x env_scheme ExportTarget \<Rightarrow> operation \<Rightarrow> 'q NodeWatcher \<Rightarrow> 'x env_scheme \<Rightarrow>
   (bool \<times> 'q NodeWatcher \<times> 'x env_scheme) go" where
  "nw_dispatch st T opn nw e =
     (let e = emit (Incr ''kubernetes.node_handler'' [handler_tag opn]) e in
      case exportNodes st T nw e of
        Panic s \<Rightarrow> Panic s
      | Ret (nw, e) \<Rightarrow> Ret (True, nw, e))"

definition on_queue ::
  "('q \<times> 'x env_scheme \<Rightarrow> 'q \<times> 'x env_scheme) \<Rightarrow> 'q NodeWatcher \<Rightarrow> 'x env_scheme \<Rightarrow> 'q NodeWatcher \<times> 'x env_scheme" where
  "on_queue f nw e = (let (q, e) = f (nw_queue nw, e) in (nw\<lparr>nw_queue := q\<rparr>, e))"

definition nw_finish ::
  "('q, 'x) node_queue \<Rightarrow> 'sel node_store \<Rightarrow> 'x env_scheme ExportTarget \<Rightarrow> KeyOp \<Rightarrow> Node option \<Rightarrow> 'q NodeWatcher \<Rightarrow>
   'x env_scheme \<Rightarrow> ('q NodeWatcher \<times> 'x env_scheme) go" where
  "nw_finish Q st T ko node nw e =
     (case nw_dispatch st T (ko_Operation ko) nw e of
        Panic s \<Rightarrow> Panic s
      | Ret (success, nw, e) \<Rightarrow>
          let (now, e) = time_Now e in
          (case ShouldInclude now node of
             Panic s \<Rightarrow> Panic s
           | Ret (_, after) \<Rightarrow>
               if 0 < after then Ret (on_queue (q_AddAfter Q (Val ko) after) nw e)
               else if success then Ret (on_queue (q_Forget Q (Val ko)) nw e)
               else if q_NumRequeues Q (Val ko) (nw_queue nw, e) < maxRequeueCount nw
               then Ret (on_queue (q_AddRateLimited Q (Val ko)) nw e)
               else Ret (nw, e)))"

text \<open>What happens to an item between \<open>Get\<close> and the deferred \<open>Done\<close>.\<close>

definition nw_item ::
  "('q, 'x) node_queue \<Rightarrow> 'sel node_store \<Rightarrow> 'x env_scheme ExportTarget \<Rightarrow> queued \<Rightarrow> 'q NodeWatcher \<Rightarrow>
   'x env_scheme \<Rightarrow> ('q NodeWatcher \<times> 'x env_scheme) go" where
  "nw_item Q st T item nw e =
     (let forget = Ret (on_queue (q_Forget Q item) nw e) in
      case item of
        Ptr _ \<Rightarrow> forget
      | Val ko \<Rightarrow>
          if ko_Operation ko \<noteq> DeleteOp then
            (case GetByKey st (ko_Key ko) of
               Inl _ \<Rightarrow> forget
             | Inr None \<Rightarrow> forget
             | Inr (Some SOther) \<Rightarrow> forget
             | Inr (Some (SNode node)) \<Rightarrow> nw_finish Q st T ko (Some node) nw e)
          else nw_finish Q st T ko None nw e)"

text \<open>The result is \<open>None\<close> while the worker is blocked in \<open>Get\<close>.\<close>

definition nw_processNextItem ::
  "('q, 'x) node_queue \<Rightarrow> 'sel node_store \<Rightarrow> 'x env_scheme ExportTarget \<Rightarrow> 'q NodeWatcher \<Rightarrow> 'x env_scheme \<Rightarrow>
   (bool option \<times> 'q NodeWatcher \<times> 'x env_scheme) go" where
  "nw_processNextItem Q st T nw e =
     (let (g, q, e) = q_Get Q (nw_queue nw, e); nw = nw\<lparr>nw_queue := q\<rparr> in
      case g of
        Blocked \<Rightarrow> Ret (None, nw, e)
      | Shutdown \<Rightarrow> Ret (Some False, nw, e)
      | Got item \<Rightarrow>
          (case nw_item Q st T item nw e of
             Panic s \<Rightarrow> Panic s
           | Ret (nw, e) \<Rightarrow> Ret (Some True, on_queue (q_Done Q item) nw e)))"

text \<open>\<open>fuel\<close> bounds the number of items; the store may change from item to item.\<close>

fun nw_runWorker ::
  "('q, 'x) node_queue \<Rightarrow> (nat \<Rightarrow> 'sel node_store) \<Rightarrow> 'x env_scheme ExportTarget \<Rightarrow> nat \<Rightarrow> 'q NodeWatcher \<Rightarrow>
   'x env_scheme \<Rightarrow> (bool option \<times> 'q NodeWatcher \<times> 'x env_scheme) option go" where
  "nw_runWorker Q sts T 0 nw e = Ret None"
| "nw_runWorker Q sts T (Suc n) nw e =
     (case nw_processNextItem Q (sts n) T nw e of
        Panic s \<Rightarrow> Panic s
      | Ret (Some True, nw, e) \<Rightarrow> nw_runWorker Q sts T n nw e
      | Ret (b, nw, e) \<Rightarrow> Ret (Some (b, nw, e)))"

text \<open>\<open>Stop\<close> closes the channel that the informer and the loop around the worker watch.\<close>

definition nw_Stop ::
  "('q, 'x) node_queue \<Rightarrow> 'q NodeWatcher \<Rightarrow> 'x env_scheme \<Rightarrow> ('q NodeWatcher \<times> 'x env_scheme) go" where
  "nw_Stop Q nw e =
     (if nw_stopC nw then Panic ''close of closed channel''
      else Ret (on_queue (q_ShutDown Q) (nw\<lparr>nw_stopC := True\<rparr>) e))"

section \<open>Which nodes are exported\<close>

text \<open>
  The nodes of a selector that are exported at an instant, whether they are enough, the selectors
  that the loop gets to, the selector it ends with, and its choice: the nodes of the first selector
  that has enough of them, or else of the last selector that has any.
\<close>

definition eligible :: "'sel node_store \<Rightarrow> int \<Rightarrow> string \<Rightarrow> Node list" where
  "eligible st now sel =
     (case labels_Parse st sel of
        Inl _ \<Rightarrow> []
      | Inr s \<Rightarrow> filter (\<lambda>node. in_grace now node \<or> ready node) (fst (lister_List st s)))"

definition enough :: "'sel node_store \<Rightarrow> int \<Rightarrow> int \<Rightarrow> string \<Rightarrow> bool" where
  "enough st now minCount sel =
     (eligible st now sel \<noteq> [] \<and> minCount < int (length (eligible st now sel)))"

definition chosen :: "'sel node_store \<Rightarrow> int \<Rightarrow> int \<Rightarrow> string list \<Rightarrow> Node list" where
  "chosen st now minCount sels =
     (case List.find (enough st now minCount) sels of
        Some sel \<Rightarrow> eligible st now sel
      | None \<Rightarrow> last ([] # filter (\<lambda>ns. ns \<noteq> []) (map (eligible st now) sels)))"

definition last_tried :: "'sel node_store \<Rightarrow> int \<Rightarrow> int \<Rightarrow> string list \<Rightarrow> string" where
  "last_tried st now minCount sels =
     (case List.find (enough st now minCount) sels of Some sel \<Rightarrow> sel | None \<Rightarrow> last ([] # sels))"

fun gets_to :: "'sel node_store \<Rightarrow> int \<Rightarrow> int \<Rightarrow> string list \<Rightarrow> string list" where
  "gets_to st now minCount [] = []"
| "gets_to st now minCount (sel # sels) =
     sel # (if enough st now minCount sel then [] else gets_to st now minCount sels)"

definition selector_ok :: "'sel node_store \<Rightarrow> string \<Rightarrow> bool" where
  "selector_ok st sel = (\<exists>s. labels_Parse st sel = Inr s)"

text \<open>No grace period of a listed node ends while the nodes are exported.\<close>

definition steady :: "'sel node_store \<Rightarrow> int \<Rightarrow> string list \<Rightarrow> (nat \<Rightarrow> int) \<Rightarrow> bool" where
  "steady st now sels clk =
     (\<forall>sel s node n. sel \<in> set sels \<longrightarrow> labels_Parse st sel = Inr s \<longrightarrow> node \<in> set (fst (lister_List st s)) \<longrightarrow>
        in_grace (clk n) node = in_grace now node)"

lemma candidate_loop_eq:
  assumes "\<forall>node \<in> set nodes. \<forall>n. in_grace (clock e n) node = in_grace now node"
  shows "candidate_loop nodes acc e =
    Ret (acc @ filter (\<lambda>node. in_grace now node \<or> ready node) nodes, e\<lparr>reads := reads e + length nodes\<rparr>)"
  using assms
proof (induction nodes arbitrary: acc e)
  case (Cons node nodes)
  let ?e = "e\<lparr>reads := Suc (reads e)\<rparr>"
  have "candidate_loop nodes acc' ?e =
      Ret (acc' @ filter (\<lambda>node. in_grace now node \<or> ready node) nodes, e\<lparr>reads := Suc (reads e) + length nodes\<rparr>)"
    for acc'
    using Cons.IH [of ?e acc'] Cons.prems by simp
  then show ?case using Cons.prems by (simp add: time_Now_def ShouldInclude_eq)
qed simp

lemma selector_loop_eq:
  assumes "steady st now sels (clock e)"
  shows "if list_all (selector_ok st) (gets_to st now minCount sels) then
      \<exists>n. selector_loop st minCount sels rd s e =
        Ret ((case List.find (enough st now minCount) sels of
                Some sel \<Rightarrow> (eligible st now sel, sel)
              | None \<Rightarrow> (last (rd # filter (\<lambda>ns. ns \<noteq> []) (map (eligible st now) sels)), last (s # sels))),
             e\<lparr>reads := n\<rparr>)
    else is_panic (selector_loop st minCount sels rd s e)"
  using assms
proof (induction sels arbitrary: rd s e)
  case Nil
  have "e = e\<lparr>reads := reads e\<rparr>" by simp
  then have "\<exists>n. e = e\<lparr>reads := n\<rparr>" by (rule exI)
  then show ?case by simp
next
  case (Cons sel sels)
  show ?case
  proof (cases "labels_Parse st sel")
    case (Inl err)
    then show ?thesis by (simp add: selector_ok_def)
  next
    case (Inr l)
    let ?e = "e\<lparr>reads := reads e + length (fst (lister_List st l))\<rparr>"
    have cand: "candidate_loop (fst (lister_List st l)) [] e = Ret (eligible st now sel, ?e)"
      using candidate_loop_eq [of "fst (lister_List st l)" e now "[]"] Cons.prems Inr
      by (simp add: steady_def eligible_def)
    have "steady st now sels (clock ?e)" using Cons.prems by (auto simp: steady_def)
    note ih = Cons.IH [OF this]
    let ?rd = "if eligible st now sel \<noteq> [] then eligible st now sel else rd"
    have "selector_loop st minCount (sel # sels) rd s e =
        (if enough st now minCount sel then Ret ((eligible st now sel, sel), ?e)
         else selector_loop st minCount sels ?rd sel ?e)"
      using Inr cand by (auto simp: enough_def case_prod_beta)
    moreover have "selector_ok st sel" using Inr by (simp add: selector_ok_def)
    ultimately show ?thesis using ih [of ?rd sel] by (auto simp del: selector_loop.simps split: if_splits option.split)
  qed
qed

lemma gauge_loop_eq:
  "gauge_loop selector nodes e = e\<lparr>emitted := emitted e @ map (node_gauge selector) nodes\<rparr>"
  by (induction nodes arbitrary: e) (simp_all add: emit_def)

section \<open>What becomes of the items\<close>

text \<open>Whether an item is put back for later, at the instant its grace period is looked at.\<close>

definition delayed :: "'sel node_store \<Rightarrow> int \<Rightarrow> queued \<Rightarrow> bool" where
  "delayed st now item =
     (case item of
        Ptr _ \<Rightarrow> False
      | Val ko \<Rightarrow> ko_Operation ko \<noteq> DeleteOp \<and>
          (case GetByKey st (ko_Key ko) of Inr (Some (SNode node)) \<Rightarrow> in_grace now node | _ \<Rightarrow> False))"

definition deletion :: "queued \<Rightarrow> bool" where
  "deletion item = (case item of Ptr _ \<Rightarrow> False | Val ko \<Rightarrow> ko_Operation ko = DeleteOp)"

text \<open>The watcher's queue is a delaying queue whose items do not depend on the rest of the world.\<close>

locale watcher_queue =
  delaying_queue Q inv view
  for Q :: "(queued, 'q \<times> 'x env_scheme) RateLimitingInterface"
    and inv :: "'q \<times> 'x env_scheme \<Rightarrow> bool"
    and view :: "'q \<times> 'x env_scheme \<Rightarrow> queued qview" +
  assumes inv_env: "inv (q, e) \<Longrightarrow> inv (q, e')"
    and view_env: "view (q, e) = view (q, e')"
begin

text \<open>An operation on the queue, seen through the watcher.\<close>

lemma on_queue_view:
  assumes "on_queue f nw e = (nw', e')" "inv (f (nw_queue nw, e))" "view (f (nw_queue nw, e)) = v"
  shows "inv (nw_queue nw', d) \<and> view (nw_queue nw', d') = v"
proof -
  obtain q e1 where f: "f (nw_queue nw, e) = (q, e1)" by fastforce
  then have "nw_queue nw' = q" using assms(1) by (auto simp: on_queue_def Let_def)
  then show ?thesis using assms(2,3) f inv_env view_env by metis
qed

lemma exportNodes_queue: "exportNodes st T nw e = Ret (nw', e') \<Longrightarrow> nw_queue nw' = nw_queue nw"
  by (auto simp: exportNodes_def Let_def split: go.splits prod.splits if_splits)

lemma nw_dispatch_queue:
  "nw_dispatch st T opn nw e = Ret (b, nw', e') \<Longrightarrow> b \<and> nw_queue nw' = nw_queue nw"
  by (auto simp: nw_dispatch_def Let_def split: go.splits dest: exportNodes_queue)

lemma nw_finish_view:
  assumes i: "inv (nw_queue nw, e)" and r: "nw_finish Q st T ko node nw e = Ret (nw', e')"
  shows "inv (nw_queue nw', d) \<and> (\<exists>now n. node = Some n \<and>
    view (nw_queue nw', d) =
      (if in_grace now n then spec_after (Val ko) 1 (view (nw_queue nw, d)) else view (nw_queue nw, d)))"
proof -
  obtain nw1 e1 where disp: "nw_dispatch st T (ko_Operation ko) nw e = Ret (True, nw1, e1)"
    using r by (auto simp: nw_finish_def split: go.splits dest: nw_dispatch_queue)
  have q1: "nw_queue nw1 = nw_queue nw" using nw_dispatch_queue [OF disp] by simp
  let ?now = "clock e1 (reads e1)" and ?e = "e1\<lparr>reads := Suc (reads e1)\<rparr>"
  obtain n where n: "node = Some n"
    using r disp by (cases node) (auto simp: nw_finish_def time_Now_def ShouldInclude_def)
  have i1: "inv (nw_queue nw1, ?e)" using inv_env [OF i] q1 by simp
  have v: "view (nw_queue nw1, ?e) = view (nw_queue nw, d)" using view_env q1 by simp
  show ?thesis
  proof (cases "in_grace ?now n")
    case True
    let ?d = "Sub (the (grace_until n)) ?now"
    have pos: "0 < ?d" by (rule grace_delay_pos [OF True])
    then have "on_queue (q_AddAfter Q (Val ko) ?d) nw1 ?e = (nw', e')"
      using r disp n True by (simp add: nw_finish_def time_Now_def ShouldInclude_eq)
    from on_queue_view [OF this]
    have "inv (nw_queue nw', d)" "view (nw_queue nw', d) = spec_after (Val ko) ?d (view (nw_queue nw1, ?e))"
      using after_ok [OF i1] by blast+
    moreover have "spec_after (Val ko) ?d = spec_after (Val ko) 1"
      using pos by (auto simp: spec_after_def fun_eq_iff)
    ultimately show ?thesis using n True v by auto
  next
    case False
    then have "on_queue (q_Forget Q (Val ko)) nw1 ?e = (nw', e')"
      using r disp n by (simp add: nw_finish_def time_Now_def ShouldInclude_eq)
    from on_queue_view [OF this]
    show ?thesis using forget_ok [OF i1] n False v by metis
  qed
qed

lemma nw_item_view:
  assumes i: "inv (nw_queue nw, e)" and r: "nw_item Q st T item nw e = Ret (nw', e')"
  shows "inv (nw_queue nw', d) \<and> \<not> deletion item \<and> (\<exists>now. view (nw_queue nw', d) =
      (if delayed st now item then spec_after item 1 (view (nw_queue nw, d)) else view (nw_queue nw, d)))"
proof -
  have forget: ?thesis
    if "on_queue (q_Forget Q item) nw e = (nw', e')" "\<And>now. \<not> delayed st now item" "\<not> deletion item"
    using on_queue_view [OF that(1), of "view (nw_queue nw, d)" d d] forget_ok [OF i] that(2,3) view_env by metis
  show ?thesis
  proof (cases item)
    case (Ptr a)
    then show ?thesis using r forget by (simp add: nw_item_def delayed_def deletion_def)
  next
    case (Val ko)
    show ?thesis
    proof (cases "\<exists>node. ko_Operation ko \<noteq> DeleteOp \<and> GetByKey st (ko_Key ko) = Inr (Some (SNode node))")
      case True
      then obtain node where node: "ko_Operation ko \<noteq> DeleteOp" "GetByKey st (ko_Key ko) = Inr (Some (SNode node))"
        by blast
      then have "nw_finish Q st T ko (Some node) nw e = Ret (nw', e')" using r Val by (simp add: nw_item_def)
      from nw_finish_view [OF i this, of d] show ?thesis using node Val by (auto simp: delayed_def deletion_def)
    next
      case no: False
      show ?thesis
      proof (cases "ko_Operation ko = DeleteOp")
        case True
        then have "nw_finish Q st T ko None nw e = Ret (nw', e')" using r Val by (simp add: nw_item_def)
        from nw_finish_view [OF i this] show ?thesis by simp
      next
        case False
        then show ?thesis
          using r Val no
          by (intro forget)
            (auto simp: nw_item_def delayed_def deletion_def Let_def split: sum.splits option.splits stored.splits)
      qed
    qed
  qed
qed

text \<open>
  One item, from a state in which none is being processed: it is taken off the queue, put back for
  later exactly when it is delayed, and nothing is left behind as being processed.
\<close>

lemma nw_processNextItem_view:
  assumes i: "inv (nw_queue nw, e)" and idle: "busy (view (nw_queue nw, e)) = {}"
    and r: "nw_processNextItem Q st T nw e = Ret (b, nw', e')"
  shows "inv (nw_queue nw', d)"
    "b = Some True \<Longrightarrow> \<exists>item now. item \<in> todo (view (nw_queue nw, d)) \<and> \<not> deletion item \<and> view (nw_queue nw', d) =
       (let v = (view (nw_queue nw, d))\<lparr>todo := todo (view (nw_queue nw, d)) - {item}\<rparr>
        in if delayed st now item then spec_after item 1 v else v)"
    "b \<noteq> Some True \<Longrightarrow> view (nw_queue nw', d) = view (nw_queue nw, d) \<and> todo (view (nw_queue nw, d)) = {} \<and>
       (b = Some False \<longleftrightarrow> shut (view (nw_queue nw, d)))"
proof -
  let ?v = "view (nw_queue nw, d)"
  obtain g q e1 where get: "q_Get Q (nw_queue nw, e) = (g, q, e1)" by (metis prod.exhaust)
  let ?nw = "nw\<lparr>nw_queue := q\<rparr>"
  have v: "view (nw_queue nw, e) = ?v" by (rule view_env)
  have iq: "inv (q, e'')" for e'' using get_ok [OF i] get inv_env by (metis snd_conv)
  have vq: "spec_get ?v g (view (q, e''))" for e''
    using get_ok [OF i] get v view_env by (metis fst_conv snd_conv)
  have idle': "busy ?v = {}" using idle v by simp
  have "inv (nw_queue nw', d) \<and>
    (b = Some True \<longrightarrow> (\<exists>item now. item \<in> todo ?v \<and> \<not> deletion item \<and> view (nw_queue nw', d) =
       (let v = ?v\<lparr>todo := todo ?v - {item}\<rparr> in if delayed st now item then spec_after item 1 v else v))) \<and>
    (b \<noteq> Some True \<longrightarrow> view (nw_queue nw', d) = ?v \<and> todo ?v = {} \<and> (b = Some False \<longleftrightarrow> shut ?v))"
  proof (cases g)
    case (Got item)
    obtain nw1 e2 where it: "nw_item Q st T item ?nw e1 = Ret (nw1, e2)"
      and fin: "b = Some True" "on_queue (q_Done Q item) nw1 e2 = (nw', e')"
      using r get Got by (auto simp: nw_processNextItem_def split: go.splits prod.splits)
    have qn: "nw_queue ?nw = q" by simp
    have i': "inv (nw_queue ?nw, e1)" using iq by simp
    note at_item = nw_item_view [OF i' it, of e2]
    obtain now where now: "inv (nw_queue nw1, e2)" "\<not> deletion item" "view (nw_queue nw1, e2) =
        (if delayed st now item then spec_after item 1 (view (q, e2)) else view (q, e2))"
      using at_item unfolding qn by blast
    have vq2: "view (q, e2) = ?v\<lparr>todo := todo ?v - {item}, busy := {item}\<rparr>" "item \<in> todo ?v"
      using vq [of e2] Got idle' by auto
    have "item \<in> busy (view (nw_queue nw1, e2))" using now vq2 by (auto simp: spec_after_def)
    from on_queue_view [OF fin(2)] done_ok [OF now(1) this]
    have "inv (nw_queue nw', d)" "view (nw_queue nw', d) = spec_done item (view (nw_queue nw1, e2))" by blast+
    moreover have "spec_done item (view (nw_queue nw1, e2)) =
        (let v = ?v\<lparr>todo := todo ?v - {item}\<rparr> in if delayed st now item then spec_after item 1 v else v)"
      unfolding now(3) using vq2 idle' by (cases ?v) (simp add: spec_done_def spec_after_def Let_def)
    ultimately show ?thesis using vq2(2) fin(1) now(2) by auto
  next
    case Shutdown
    then have "b = Some False" "nw' = ?nw" using r get by (auto simp: nw_processNextItem_def)
    then show ?thesis using iq vq [of d] Shutdown idle' by auto
  next
    case Blocked
    then have "b = None" "nw' = ?nw" using r get by (auto simp: nw_processNextItem_def)
    then show ?thesis using iq vq [of d] Blocked idle' by auto
  qed
  then show "inv (nw_queue nw', d)"
    "b = Some True \<Longrightarrow> \<exists>item now. item \<in> todo ?v \<and> \<not> deletion item \<and> view (nw_queue nw', d) =
       (let v = ?v\<lparr>todo := todo ?v - {item}\<rparr> in if delayed st now item then spec_after item 1 v else v)"
    "b \<noteq> Some True \<Longrightarrow> view (nw_queue nw', d) = ?v \<and> todo ?v = {} \<and> (b = Some False \<longleftrightarrow> shut ?v)"
    by blast+
qed

text \<open>The worker gets through what is queued: within one more step than there are items it waits
  for the next one, has been told to end, or has panicked.\<close>

lemma nw_runWorker_ends:
  assumes "inv (nw_queue nw, e)" "busy (view (nw_queue nw, e)) = {}" "card (todo (view (nw_queue nw, e))) < n"
  shows "is_panic (nw_runWorker Q sts T n nw e) \<or>
    (\<exists>b nw' e'. nw_runWorker Q sts T n nw e = Ret (Some (b, nw', e')) \<and> todo (view (nw_queue nw', d)) = {} \<and>
       busy (view (nw_queue nw', d)) = {} \<and> (b = Some False \<longleftrightarrow> shut (view (nw_queue nw, d))) \<and> b \<noteq> Some True)"
  using assms
proof (induction n arbitrary: nw e)
  case (Suc n)
  show ?case
  proof (cases "nw_processNextItem Q (sts n) T nw e")
    case (Ret r)
    obtain b nw1 e1 where r: "r = (b, nw1, e1)" by (cases r) auto
    note step = nw_processNextItem_view [OF Suc.prems(1,2) Ret [unfolded r]]
    show ?thesis
    proof (cases "b = Some True")
      case True
      obtain item now where it: "item \<in> todo (view (nw_queue nw, e1))"
        and v: "view (nw_queue nw1, e1) = (let v = (view (nw_queue nw, e1))\<lparr>todo := todo (view (nw_queue nw, e1)) - {item}\<rparr>
          in if delayed (sts n) now item then spec_after item 1 v else v)"
        using step(2) [OF True, of e1] by blast
      have eq: "view (nw_queue nw, e1) = view (nw_queue nw, e)" "view (nw_queue nw1, d) = view (nw_queue nw1, e1)"
        "view (nw_queue nw, d) = view (nw_queue nw, e)" by (rule view_env)+
      have after: "todo (view (nw_queue nw1, e1)) = todo (view (nw_queue nw, e)) - {item}"
        "busy (view (nw_queue nw1, e1)) = {}" "shut (view (nw_queue nw1, e1)) = shut (view (nw_queue nw, e))"
        using v eq Suc.prems(2) by (auto simp: Let_def spec_after_def)
      have "card (todo (view (nw_queue nw1, e1))) < n"
        using after(1) card_Diff1_less [OF finite_todo [OF Suc.prems(1)]] it eq(1) Suc.prems(3) by fastforce
      from Suc.IH [OF step(1) after(2) this] show ?thesis
        using Ret r True after(3) eq by simp
    next
      case False
      then have "nw_runWorker Q sts T (Suc n) nw e = Ret (Some (b, nw1, e1))"
        using Ret r by (auto split: option.split bool.split)
      moreover have "view (nw_queue nw, d) = view (nw_queue nw, e)" by (rule view_env)
      ultimately show ?thesis using step(3) [OF False, of d] False Suc.prems(2) by auto
    qed
  qed simp
qed simp

end

text \<open>The queue that \<open>NewNodeWatcher\<close> makes.\<close>

definition handler_queue :: "(queued workqueue \<Rightarrow> int) \<Rightarrow> (queued workqueue, 'x) node_queue" where
  "handler_queue bucket = as_queue (NewDelayingQueueStatsd bucket ''kubernetes.node_handler'')"

interpretation nq: watcher_queue "handler_queue bucket" "wq_inv \<circ> fst" "wq_view \<circ> fst"
  for bucket :: "queued workqueue \<Rightarrow> int"
  unfolding handler_queue_def by unfold_locales simp_all

lemma exportNodes_eq:
  assumes "steady st now (Selectors nw) (clock e)"
  shows "if list_all (selector_ok st) (gets_to st now (MinCount nw) (Selectors nw)) then
      \<exists>e1. exportNodes st T nw e =
          Ret (nw\<lparr>curSelector := last_tried st now (MinCount nw) (Selectors nw)\<rparr>,
               snd (tgt_WriteNodes T (chosen st now (MinCount nw) (Selectors nw)) e1)) \<and>
        emitted e1 = emitted e @ map (node_gauge (last_tried st now (MinCount nw) (Selectors nw)))
          (chosen st now (MinCount nw) (Selectors nw)) \<and> env.more e1 = env.more e
    else is_panic (exportNodes st T nw e)"
proof (cases "list_all (selector_ok st) (gets_to st now (MinCount nw) (Selectors nw))")
  case True
  let ?c = "chosen st now (MinCount nw) (Selectors nw)" and ?s = "last_tried st now (MinCount nw) (Selectors nw)"
  obtain n where n: "selector_loop st (MinCount nw) (Selectors nw) [] [] e = Ret ((?c, ?s), e\<lparr>reads := n\<rparr>)"
    using selector_loop_eq [OF assms, of "MinCount nw" "[]" "[]"] True
    by (auto simp: chosen_def last_tried_def split: option.splits)
  have "nw = nw\<lparr>curSelector := curSelector nw\<rparr>" by simp
  then have "exportNodes st T nw e = Ret (nw\<lparr>curSelector := ?s\<rparr>,
      snd (tgt_WriteNodes T ?c (gauge_loop ?s ?c (e\<lparr>reads := n\<rparr>))))"
    by (simp add: exportNodes_def n case_prod_beta)
  then show ?thesis using True by (auto simp: gauge_loop_eq intro!: exI [of _ "gauge_loop ?s ?c (e\<lparr>reads := n\<rparr>)"])
next
  case False
  then have "is_panic (selector_loop st (MinCount nw) (Selectors nw) [] [] e)"
    using selector_loop_eq [OF assms, of "MinCount nw" "[]" "[]"] by simp
  then show ?thesis using False by (simp add: exportNodes_def is_panic_def split: go.splits)
qed

lemma exportNodes_panic:
  assumes "steady st now (Selectors nw) (clock e)"
  shows "is_panic (exportNodes st T nw e) \<longleftrightarrow>
    \<not> list_all (selector_ok st) (gets_to st now (MinCount nw) (Selectors nw))"
  using exportNodes_eq [OF assms, of T] by (auto split: if_splits)

text \<open>When one item makes the worker panic.\<close>

lemma ShouldInclude_nil: "ShouldInclude now None = Panic ''nil pointer dereference''"
  by (simp add: ShouldInclude_def)

lemma nw_finish_panic:
  "is_panic (nw_finish Q st T ko node nw e) \<longleftrightarrow>
     node = None \<or> is_panic (exportNodes st T nw (emit (Incr ''kubernetes.node_handler'' [handler_tag (ko_Operation ko)]) e))"
  by (cases node) (auto simp: nw_finish_def nw_dispatch_def time_Now_def ShouldInclude_eq ShouldInclude_nil Let_def
      split: go.splits)

lemma handler_queue_Get:
  assumes "wq_queue (nw_queue nw) = item # rest"
  shows "\<exists>q e1. q_Get (handler_queue bucket) (nw_queue nw, e) = (Got item, q, e1) \<and> clock e1 = clock e"
  using assms
  by (simp add: handler_queue_def as_queue_def dqs_Get_def NewDelayingQueueStatsd_def NewRateLimitingQueue_def
      wq_Get_def dqs_length_def wq_Len_def dqs_incr_def)

lemma nw_processNextItem_panic:
  assumes hd: "wq_queue (nw_queue nw) = item # rest" and st: "steady st now (Selectors nw) (clock e)"
  shows "is_panic (nw_processNextItem (handler_queue bucket) st T nw e) \<longleftrightarrow>
    (\<exists>ko. item = Val ko \<and> (ko_Operation ko = DeleteOp \<or>
       (\<exists>node. GetByKey st (ko_Key ko) = Inr (Some (SNode node))) \<and>
       \<not> list_all (selector_ok st) (gets_to st now (MinCount nw) (Selectors nw))))"
proof -
  obtain q e1 where get: "q_Get (handler_queue bucket) (nw_queue nw, e) = (Got item, q, e1)" "clock e1 = clock e"
    using handler_queue_Get [OF hd] by blast
  have "is_panic (exportNodes st T (nw\<lparr>nw_queue := q\<rparr>) (emit m e1)) \<longleftrightarrow>
      \<not> list_all (selector_ok st) (gets_to st now (MinCount nw) (Selectors nw))" for m
    using exportNodes_panic [of st now "nw\<lparr>nw_queue := q\<rparr>" "emit m e1" T] st get(2) by simp
  then have "is_panic (nw_item (handler_queue bucket) st T item (nw\<lparr>nw_queue := q\<rparr>) e1) \<longleftrightarrow>
      (\<exists>ko. item = Val ko \<and> (ko_Operation ko = DeleteOp \<or>
         (\<exists>node. GetByKey st (ko_Key ko) = Inr (Some (SNode node))) \<and>
         \<not> list_all (selector_ok st) (gets_to st now (MinCount nw) (Selectors nw))))"
    by (auto simp: nw_item_def nw_finish_panic Let_def split: queued.splits sum.splits option.splits stored.splits)
  moreover have "is_panic (nw_processNextItem (handler_queue bucket) st T nw e) =
      is_panic (nw_item (handler_queue bucket) st T item (nw\<lparr>nw_queue := q\<rparr>) e1)"
    by (auto simp: nw_processNextItem_def get(1) split: go.splits)
  ultimately show ?thesis by simp
qed

section \<open>Properties\<close>

text \<open>C23: \<open>exportNodes\<close> writes the included nodes of the first selector that has more than \<open>MinCount\<close>
  of them, or else of the last selector that has any, reports one gauge for each, and remembers the
  selector at which it stopped. It panics exactly when a selector that it gets to does not parse.
  No listed node's grace period ends while the loop runs.\<close>

theorem exportNodes_selects:
  assumes "steady st now (Selectors nw) (clock e)"
  shows "if list_all (selector_ok st) (gets_to st now (MinCount nw) (Selectors nw)) then
      \<exists>e1. exportNodes st T nw e =
          Ret (nw\<lparr>curSelector := last_tried st now (MinCount nw) (Selectors nw)\<rparr>,
               snd (tgt_WriteNodes T (chosen st now (MinCount nw) (Selectors nw)) e1)) \<and>
        emitted e1 = emitted e @ map (node_gauge (last_tried st now (MinCount nw) (Selectors nw)))
          (chosen st now (MinCount nw) (Selectors nw)) \<and> env.more e1 = env.more e
    else is_panic (exportNodes st T nw e)"
  by (rule exportNodes_eq [OF assms])

text \<open>Two selectors, of which only the second has more than one node; a third one is malformed.\<close>

definition ready_node :: "string \<Rightarrow> Node" where
  "ready_node name = \<lparr>node_name = name, node_labels = Map.empty, node_annotations = Map.empty, unschedulable = False,
     conditions = [\<lparr>cond_type = NodeReady, cond_status = ConditionTrue\<rparr>], addresses = []\<rparr>"

definition demo_store :: "string node_store" where
  "demo_store = \<lparr>GetByKey = (\<lambda>key. Inr (Some (SNode (ready_node key)))),
     labels_Parse = (\<lambda>s. if s = ''('' then Inl (New ''bad selector'') else Inr s),
     lister_List = (\<lambda>s. (if s = ''a'' then [ready_node ''n1''] else [ready_node ''n1'', ready_node ''n2''], None))\<rparr>"

definition demo_nw :: "queued workqueue \<Rightarrow> queued workqueue NodeWatcher" where
  "demo_nw q = NewNodeWatcher \<lparr>Selectors = [''a'', ''b'', ''(''], MinCount = 1, MaxRequeueCount = 5\<rparr> q"

lemma demo_facts:
  "Selectors (demo_nw q) = [''a'', ''b'', ''('']" "MinCount (demo_nw q) = 1" "nw_queue (demo_nw q) = q"
  "in_grace now (ready_node n) = False" "ready (ready_node n)"
  by (simp_all add: demo_nw_def NewNodeWatcher_def ready_node_def in_grace_def grace_until_def ready_def)

lemma demo_steady: "steady demo_store now (Selectors (demo_nw q)) clk"
  by (auto simp: steady_def demo_store_def demo_facts split: if_splits)

lemma demo_eligible:
  "eligible demo_store now ''a'' = [ready_node ''n1'']"
  "eligible demo_store now ''b'' = [ready_node ''n1'', ready_node ''n2'']"
  by (simp_all add: eligible_def demo_store_def demo_facts)

lemma demo_chosen:
  "chosen demo_store now 1 [''a'', ''b'', ''(''] = [ready_node ''n1'', ready_node ''n2'']"
  "last_tried demo_store now 1 [''a'', ''b'', ''(''] = ''b''"
  "gets_to demo_store now 1 [''a'', ''b'', ''(''] = [''a'', ''b'']"
  by (simp_all add: chosen_def last_tried_def enough_def demo_eligible)

lemma demo_selectors: "list_all (selector_ok demo_store) [''a'', ''b'']"
  by (simp add: selector_ok_def demo_store_def)

theorem exportNodes_selects_witness:
  "\<exists>e. exportNodes demo_store (recorder (\<lambda>_. None)) (demo_nw (newQueue 0)) plain_env =
       Ret ((demo_nw (newQueue 0))\<lparr>curSelector := ''b''\<rparr>, e) \<and>
     emitted e = emitted plain_env @
       [Gauge ''nodes'' 1 [''selector:b'', ''node:n1''], Gauge ''nodes'' 1 [''selector:b'', ''node:n2'']]"
  using exportNodes_selects [where nw = "demo_nw (newQueue 0)" and e = plain_env and T = "recorder (\<lambda>_. None)",
      OF demo_steady [where now = 0]] demo_selectors
  unfolding demo_facts demo_chosen by (auto simp: recorder_def node_gauge_def ready_node_def)


text \<open>A queue with one operation, and the worker on it.\<close>

definition node_item :: "operation \<Rightarrow> queued" where
  "node_item opn = Val (NewKeyOp ''n1'' (Ref 0 (KOther (Some ''n1''))) opn)"

definition demo_queue :: "operation \<Rightarrow> queued workqueue" where
  "demo_queue opn = wq_Add (node_item opn) (newQueue 0)"

lemma demo_queue_facts:
  "wq_inv (demo_queue opn)" "processing (demo_queue opn) = {}" "dirty (demo_queue opn) = {node_item opn}"
  "wq_queue (demo_queue opn) = [node_item opn]" "\<not> shuttingDown (demo_queue opn)" "waiting (demo_queue opn) = Map.empty"
  by (simp_all add: demo_queue_def wq_Add_def newQueue_def wq_inv_def)

lemma demo_panic:
  "is_panic (nw_processNextItem (handler_queue bucket) demo_store T (demo_nw (demo_queue opn)) e) \<longleftrightarrow> opn = DeleteOp"
proof -
  have "wq_queue (nw_queue (demo_nw (demo_queue opn))) = [node_item opn]" by (simp add: demo_facts demo_queue_facts)
  note iff = nw_processNextItem_panic [OF this demo_steady [where now = 0]]
  show ?thesis
    unfolding iff demo_facts demo_chosen using demo_selectors by (simp add: node_item_def NewKeyOp_def)
qed


text \<open>C25: an item at the head of the node watcher's queue makes the worker panic exactly when it is a
  deletion, whatever the store holds, or when its node is in the store and a label selector that
  \<open>exportNodes\<close> gets to is malformed.\<close>

theorem nw_processNextItem_panics:
  assumes "wq_queue (nw_queue nw) = item # rest" "steady st now (Selectors nw) (clock e)"
  shows "is_panic (nw_processNextItem (handler_queue bucket) st T nw e) \<longleftrightarrow>
    (\<exists>ko. item = Val ko \<and> (ko_Operation ko = DeleteOp \<or>
       (\<exists>node. GetByKey st (ko_Key ko) = Inr (Some (SNode node))) \<and>
       \<not> list_all (selector_ok st) (gets_to st now (MinCount nw) (Selectors nw))))"
  by (rule nw_processNextItem_panic [OF assms])

theorem nw_processNextItem_panics_witness:
  "is_panic (nw_processNextItem (handler_queue (\<lambda>_. 0)) demo_store (recorder (\<lambda>_. None)) (demo_nw (demo_queue DeleteOp)) plain_env) \<and>
   \<not> is_panic (nw_processNextItem (handler_queue (\<lambda>_. 0)) demo_store (recorder (\<lambda>_. None)) (demo_nw (demo_queue UpdateOp)) plain_env)"
proof -
  have "wq_queue (nw_queue (demo_nw (demo_queue opn))) = [node_item opn]" for opn
    by (simp add: demo_facts demo_queue_facts)
  note iff = nw_processNextItem_panics [OF this demo_steady [where now = 0]]
  show ?thesis
    unfolding iff demo_facts demo_chosen using demo_selectors by (simp add: node_item_def NewKeyOp_def)
qed

text \<open>The worker of the node watcher gets through what is queued. Within one more step than there
  are items it has panicked, or nothing is queued or being processed any more and it waits for the
  next item, or returns if the queue has been shut down.\<close>

lemma nw_runWorker_terminates:
  assumes "wq_inv (nw_queue nw)" "processing (nw_queue nw) = {}" "card (dirty (nw_queue nw)) < n"
  shows "is_panic (nw_runWorker (handler_queue bucket) sts T n nw e) \<or>
    (\<exists>b nw' e'. nw_runWorker (handler_queue bucket) sts T n nw e = Ret (Some (b, nw', e')) \<and>
       dirty (nw_queue nw') = {} \<and> processing (nw_queue nw') = {} \<and>
       b = (if shuttingDown (nw_queue nw) then Some False else None))"
proof -
  have "(wq_inv \<circ> fst) (nw_queue nw, e)" "busy ((wq_view \<circ> fst) (nw_queue nw, e)) = {}"
    "card (todo ((wq_view \<circ> fst) (nw_queue nw, e))) < n"
    using assms by (simp_all add: wq_view_def)
  from nq.nw_runWorker_ends [OF this, of bucket sts T e] show ?thesis
    by (auto simp: wq_view_def split: if_splits)
qed

lemma nw_runWorker_terminates_witness:
  "is_panic (nw_runWorker (handler_queue (\<lambda>_. 0)) (\<lambda>_. demo_store) (recorder (\<lambda>_. None)) 2 (demo_nw (demo_queue AddOp)) plain_env) \<or>
   (\<exists>nw e. nw_runWorker (handler_queue (\<lambda>_. 0)) (\<lambda>_. demo_store) (recorder (\<lambda>_. None)) 2 (demo_nw (demo_queue AddOp)) plain_env =
      Ret (Some (None, nw, e)) \<and> dirty (nw_queue nw) = {})"
proof -
  have "wq_inv (nw_queue (demo_nw (demo_queue AddOp)))" "processing (nw_queue (demo_nw (demo_queue AddOp))) = {}"
    "card (dirty (nw_queue (demo_nw (demo_queue AddOp)))) < 2"
    by (simp_all add: demo_facts demo_queue_facts)
  from nw_runWorker_terminates [OF this, of "\<lambda>_. 0" "\<lambda>_. demo_store" "recorder (\<lambda>_. None)" plain_env]
  show ?thesis by (auto simp: demo_facts demo_queue_facts)
qed

end
