(* ===== verification/MainProg.thy ===== *)
theory MainProg
  imports NodeWatcher
begin

text \<open>
  \<open>main.go\<close>, \<open>pkg/server/server.go\<close> and the constructors that \<open>main\<close> calls: the order in which
  the process is configured and put together, the ways in which that fails, and how the four
  long-running parts are started and stopped. The settings reader (viper), the clients of
  Kubernetes, Consul and statsd, and name resolution are arguments.
\<close>

section \<open>net.SplitHostPort\<close>

definition index_of :: "char \<Rightarrow> string \<Rightarrow> nat option" where
  "index_of c s = (if c \<in> set s then Some (length (takeWhile (\<lambda>d. d \<noteq> c) s)) else None)"

definition last_index :: "char \<Rightarrow> string \<Rightarrow> nat option" where
  "last_index c s = (if c \<in> set s then Some (length s - 1 - length (takeWhile (\<lambda>d. d \<noteq> c) (rev s))) else None)"

definition SplitHostPort :: "string \<Rightarrow> (string \<times> string) result" where
  "SplitHostPort hostport =
     (case last_index (CHR '':'') hostport of
        None \<Rightarrow> Inl (New ''missing port in address'')
      | Some i \<Rightarrow>
          (case (if hd hostport = CHR ''['' then
                   (case index_of (CHR '']'') hostport of
                      None \<Rightarrow> Inl (New ''missing bracket in address'')
                    | Some k \<Rightarrow>
                        if k + 1 = length hostport then Inl (New ''missing port in address'')
                        else if k + 1 = i then Inr (take (k - 1) (drop 1 hostport), 1, k + 1)
                        else if hostport ! (k + 1) = CHR '':'' then Inl (New ''too many colons in address'')
                        else Inl (New ''missing port in address''))
                 else let host = take i hostport in
                      if CHR '':'' \<in> set host then Inl (New ''too many colons in address'') else Inr (host, 0, 0)) of
             Inl err \<Rightarrow> Inl err
           | Inr (host, j, k) \<Rightarrow>
               if CHR ''['' \<in> set (drop j hostport) then Inl (New ''unexpected bracket in address'')
               else if CHR '']'' \<in> set (drop k hostport) then Inl (New ''unexpected bracket in address'')
               else Inr (host, drop (i + 1) hostport)))"

section \<open>Constructors\<close>

record capi_config =
  cfg_Address :: string
  cfg_Datacenter :: string

record 'w ConsulTargetConfig =
  tc_ConsulConfig :: capi_config
  tc_KvPrefix :: string
  tc_ServicesKeyTmpl :: string
  tc_ClusterId :: string
  tc_Elector :: "'w LeaderElector"
  tc_ServicesEnabled :: bool

definition NewConsulTarget ::
  "(capi_config \<Rightarrow> 'w consul_api result) \<Rightarrow> 'w ConsulTargetConfig \<Rightarrow> 'w ConsulTarget result" where
  "NewConsulTarget NewClient cfg =
     (case SplitHostPort (cfg_Address (tc_ConsulConfig cfg)) of
        Inl err \<Rightarrow> Inl err
      | Inr (host, _) \<Rightarrow>
          (case NewClient (tc_ConsulConfig cfg) of
             Inl err \<Rightarrow> Inl err
           | Inr client \<Rightarrow>
               Inr \<lparr>t_client = client, t_elector = tc_Elector cfg, hostIP = host, kvPrefix = tc_KvPrefix cfg,
                    t_clusterId = tc_ClusterId cfg, servicesEnabled = tc_ServicesEnabled cfg,
                    servicesKeyTmpl = tc_ServicesKeyTmpl cfg\<rparr>))"

definition NewConsulLeaderElector ::
  "(capi_config \<Rightarrow> 'w consul_api result) \<Rightarrow> capi_config \<Rightarrow> string \<Rightarrow> string \<Rightarrow> string \<Rightarrow> 'w ConsulLeaderElector result" where
  "NewConsulLeaderElector NewClient cfg pre clusterId clientId =
     (case NewClient cfg of
        Inl err \<Rightarrow> Inl err
      | Inr client \<Rightarrow> Inr \<lparr>le_client = client, le_clusterId = clusterId, le_clientId = clientId, le_prefix = pre\<rparr>)"

text \<open>A \<open>time.Duration\<close> is a 64-bit number of nanoseconds, and its multiplication wraps around.\<close>

definition duration :: "int \<Rightarrow> int" where
  "duration d = signed_take_bit 63 d"

definition minute :: int where
  "minute = 60000000000"

record 'cs InformerConfig =
  ic_ClientSet :: 'cs
  ic_ResyncPeriod :: int

definition NewClientSet :: "'kc result \<Rightarrow> ('kc \<Rightarrow> 'cs result) \<Rightarrow> 'cs result" where
  "NewClientSet config NewForConfig = (case config of Inl err \<Rightarrow> Inl err | Inr config \<Rightarrow> NewForConfig config)"

definition NewInformerConfig :: "'cs result \<Rightarrow> int \<Rightarrow> 'cs InformerConfig result" where
  "NewInformerConfig cs resyncPeriod =
     (case cs of
        Inl err \<Rightarrow> Inl err
      | Inr cs \<Rightarrow> Inr \<lparr>ic_ClientSet = cs, ic_ResyncPeriod = duration (resyncPeriod * minute)\<rparr>)"

definition NewNodeInformerConfig :: "'cs result \<Rightarrow> 'cs InformerConfig result" where
  "NewNodeInformerConfig cs =
     (case cs of Inl err \<Rightarrow> Inl err | Inr cs \<Rightarrow> Inr \<lparr>ic_ClientSet = cs, ic_ResyncPeriod = 15 * minute\<rparr>)"

section \<open>The health server\<close>

datatype http_handler = Ping | ExpvarHandler

record Server =
  srv_Addr :: string
  srv_mux :: "(string \<times> http_handler) list"
  stopTimeout :: int

definition New_server :: "string \<Rightarrow> int \<Rightarrow> int \<Rightarrow> Server" where
  "New_server ip port timeout =
     \<lparr>srv_Addr = ip @ '':'' @ Itoa port, srv_mux = [(''/healthz'', Ping), (''/debug/vars'', ExpvarHandler)],
      stopTimeout = timeout\<rparr>"

definition ping :: "string \<Rightarrow> string" where
  "ping written = written @ ''ok''"

section \<open>Settings\<close>

datatype setting = SStr string | SInt int | SBool bool

record viper =
  vp_IsSet :: "string \<Rightarrow> bool"
  vp_GetString :: "string \<Rightarrow> string"
  vp_GetInt :: "string \<Rightarrow> int"
  vp_GetBool :: "string \<Rightarrow> bool"
  vp_GetStringSlice :: "string \<Rightarrow> string list"
  vp_GetStringMapString :: "string \<Rightarrow> (string \<times> string) list"

definition setting_defaults :: "(string \<times> setting) list" where
  "setting_defaults =
     [(''CONSUL_KV_PREFIX'', SStr ''kube-service-exporter''), (''CONSUL_DATACENTER'', SStr []),
      (''CONSUL_HOST'', SStr ''127.0.0.1''), (''CONSUL_PORT'', SInt 8500),
      (''DOGSTATSD_ENABLED'', SBool True), (''DOGSTATSD_HOST'', SStr ''127.0.0.1''), (''DOGSTATSD_PORT'', SInt 8125),
      (''HTTP_IP'', SStr []), (''HTTP_PORT'', SInt 8080), (''SERVICES_ENABLED'', SBool False),
      (''MIN_SELECTOR_NODES'', SInt 1), (''MAX_REQUEUE_COUNT'', SInt 5), (''SERVICE_RESYNC_PERIOD'', SInt 15)]"

record settings =
  s_namespaces :: "string list"
  s_clusterId :: string
  s_kvPrefix :: string
  s_consulHost :: string
  s_consulPort :: int
  s_consulDatacenter :: string
  s_podName :: string
  s_nodeSelector :: string
  s_minSelectorNodes :: int
  s_maxRequeueCount :: int
  s_dogstatsdEnabled :: bool
  s_dogstatsdHost :: string
  s_dogstatsdPort :: int
  s_dogstatsdTags :: "(string \<times> string) list"
  s_httpIp :: string
  s_httpPort :: int
  s_servicesEnabled :: bool
  s_servicesKeyTemplate :: string
  s_serviceResyncPeriod :: int

definition read_settings :: "viper \<Rightarrow> settings" where
  "read_settings v =
     \<lparr>s_namespaces = vp_GetStringSlice v ''NAMESPACE_LIST'', s_clusterId = vp_GetString v ''CLUSTER_ID'',
      s_kvPrefix = vp_GetString v ''CONSUL_KV_PREFIX'', s_consulHost = vp_GetString v ''CONSUL_HOST'',
      s_consulPort = vp_GetInt v ''CONSUL_PORT'', s_consulDatacenter = vp_GetString v ''CONSUL_DATACENTER'',
      s_podName = vp_GetString v ''POD_NAME'', s_nodeSelector = vp_GetString v ''NODE_SELECTOR'',
      s_minSelectorNodes = vp_GetInt v ''MIN_SELECTOR_NODES'', s_maxRequeueCount = vp_GetInt v ''MAX_REQUEUE_COUNT'',
      s_dogstatsdEnabled = vp_GetBool v ''DOGSTATSD_ENABLED'', s_dogstatsdHost = vp_GetString v ''DOGSTATSD_HOST'',
      s_dogstatsdPort = vp_GetInt v ''DOGSTATSD_PORT'', s_dogstatsdTags = vp_GetStringMapString v ''DOGSTATSD_TAGS'',
      s_httpIp = vp_GetString v ''HTTP_IP'', s_httpPort = vp_GetInt v ''HTTP_PORT'',
      s_servicesEnabled = vp_GetBool v ''SERVICES_ENABLED'', s_servicesKeyTemplate = vp_GetString v ''SERVICES_KEY_TEMPLATE'',
      s_serviceResyncPeriod = vp_GetInt v ''SERVICE_RESYNC_PERIOD''\<rparr>"

section \<open>Putting the process together\<close>

text \<open>What \<open>main\<close> gets from outside. \<open>x_viper\<close> reads the environment with a prefix and defaults.\<close>

record ('w, 'kc, 'cs, 'sd) externals =
  x_viper :: "string \<Rightarrow> (string \<times> setting) list \<Rightarrow> viper"
  x_float :: "string \<Rightarrow> string option"
  x_statsd_New :: "string \<Rightarrow> string \<Rightarrow> string list \<Rightarrow> 'sd result"
  x_ClientConfig :: "nat \<Rightarrow> 'kc result"
  x_NewForConfig :: "nat \<Rightarrow> 'kc \<Rightarrow> 'cs result"
  x_LookupIP :: "string \<Rightarrow> string list result"
  x_DefaultConfig :: capi_config
  x_NewClient :: "capi_config \<Rightarrow> 'w consul_api result"

abbreviation x_NewClientSet :: "('w, 'kc, 'cs, 'sd) externals \<Rightarrow> nat \<Rightarrow> 'cs result" where
  "x_NewClientSet X i \<equiv> NewClientSet (x_ClientConfig X i) (x_NewForConfig X i)"

record ('w, 'cs) app =
  app_elector :: "'w ConsulLeaderElector"
  app_target :: "'w ConsulTarget"
  app_sw :: "StatsdQueueMetrics ServiceWatcher"
  app_ic :: "'cs InformerConfig"
  app_nw :: "queued workqueue NodeWatcher"
  app_nodeIC :: "'cs InformerConfig"
  app_srv :: Server

definition wrapped_with :: "string \<Rightarrow> 'a result \<Rightarrow> 'a result go" where
  "wrapped_with msg r = Ret (map_sum (\<lambda>err. Wrap err msg) id r)"

definition build_parts ::
  "('w, 'kc, 'cs, 'sd) externals \<Rightarrow> viper \<Rightarrow> settings \<Rightarrow> string list \<Rightarrow> 'cs InformerConfig \<Rightarrow> 'cs InformerConfig \<Rightarrow>
   string \<Rightarrow> (nat \<Rightarrow> int) \<Rightarrow> ('w, 'cs) app result go" where
  "build_parts X v S nodeSelectors ic nodeIC consulIP clk =
     (let consulAddress = consulIP @ '':'' @ Itoa (s_consulPort S);
          consulLeaderCfg = (x_DefaultConfig X)\<lparr>cfg_Address := consulAddress\<rparr>;
          consulTargetCfg = (x_DefaultConfig X)\<lparr>cfg_Address := consulAddress\<rparr>;
          consulTargetCfg = (if vp_IsSet v ''CONSUL_DATACENTER''
                             then consulTargetCfg\<lparr>cfg_Datacenter := s_consulDatacenter S\<rparr> else consulTargetCfg) in
      bindR (wrapped_with ''Error setting up leader election''
               (NewConsulLeaderElector (x_NewClient X) consulLeaderCfg (s_kvPrefix S) (s_clusterId S) (s_podName S)))
        (\<lambda>elector.
      bindR (wrapped_with ''Error setting up Consul target''
               (NewConsulTarget (x_NewClient X)
                  \<lparr>tc_ConsulConfig = consulTargetCfg, tc_KvPrefix = s_kvPrefix S,
                   tc_ServicesKeyTmpl = s_servicesKeyTemplate S, tc_ClusterId = s_clusterId S,
                   tc_Elector = elector_of elector, tc_ServicesEnabled = s_servicesEnabled S\<rparr>))
        (\<lambda>target.
      Ret (Inr \<lparr>app_elector = elector, app_target = target,
         app_sw = NewServiceWatcher (s_namespaces S) (s_clusterId S)
           (NewStatsdQueueMetrics ''kubernetes.service_handler'' clk), app_ic = ic,
         app_nw = NewNodeWatcher \<lparr>Selectors = nodeSelectors, MinCount = s_minSelectorNodes S,
           MaxRequeueCount = s_maxRequeueCount S\<rparr> (newQueue 0), app_nodeIC = nodeIC,
         app_srv = New_server (s_httpIp S) (s_httpPort S) (10 * 1000000000)\<rparr>))))"

definition main_setup ::
  "('w, 'kc, 'cs, 'sd) externals \<Rightarrow> 'x env_scheme \<Rightarrow> (('w, 'cs) app \<times> 'x env_scheme) result go" where
  "main_setup X e =
     (let v = x_viper X ''KSE'' setting_defaults; S = read_settings v in
      if \<not> vp_IsSet v ''CLUSTER_ID'' then
        Ret (Inl (New ''Please set the KSE_CLUSTER_ID environment variable to a unique cluster Id''))
      else
      bindR (wrapped_with ''Error parsing node selectors'' (ParseNodeSelectors (x_float X) (s_nodeSelector S)))
        (\<lambda>nodeSelectors.
      bindR (if s_dogstatsdEnabled S then
               wrapped_with ''Error configuring dogstatsd''
                 (map_sum id (\<lambda>_. ()) (Configure (x_statsd_New X) ''kube-service-exporter.'' (s_dogstatsdHost S)
                    (s_dogstatsdPort S) (s_dogstatsdTags S)))
             else Ret (Inr ()))
        (\<lambda>_. let e = emit (Gauge ''start'' 1 []) e in
      bindR (wrapped_with ''Error setting up Service Watcher''
               (NewInformerConfig (x_NewClientSet X 0) (s_serviceResyncPeriod S)))
        (\<lambda>ic.
      bindR (wrapped_with ''Error setting up Node Watcher'' (NewNodeInformerConfig (x_NewClientSet X 1)))
        (\<lambda>nodeIC.
      bindR (wrapped_with (''Error looking up IP for Consul host: '' @ s_consulHost S) (x_LookupIP X (s_consulHost S)))
        (\<lambda>consulIPs.
      case consulIPs of
        [] \<Rightarrow> Panic ''index out of range''
      | consulIP # _ \<Rightarrow>
          bindR (build_parts X v S nodeSelectors ic nodeIC consulIP (clock e)) (\<lambda>app. Ret (Inr (app, e)))))))))"

section \<open>What the setup needs\<close>

lemma Itoa_chars: "c \<in> set (Itoa i) \<Longrightarrow> c = CHR ''-'' \<or> is_digit c"
  using show_nat_digits by (auto simp: Itoa_def split: if_splits)

lemma Itoa_plain: "CHR '':'' \<notin> set (Itoa i)" "CHR ''['' \<notin> set (Itoa i)" "CHR '']'' \<notin> set (Itoa i)"
  using Itoa_chars [of "CHR '':''" i] Itoa_chars [of "CHR ''[''" i] Itoa_chars [of "CHR '']''" i]
  by (auto simp: is_digit_def)

lemma last_index_append:
  assumes "c \<notin> set p"
  shows "last_index c (s @ c # p) = Some (length s)"
proof -
  have "takeWhile (\<lambda>d. d \<noteq> c) (rev p @ c # rev s) = rev p"
    using assms by (subst takeWhile_append2) auto
  then show ?thesis by (simp add: last_index_def)
qed

text \<open>
  The address that \<open>main\<close> makes of an IP and a port splits again exactly when the text of the IP
  has no colon (and no brackets): an IPv6 address is refused.
\<close>

lemma SplitHostPort_address:
  assumes "ip \<noteq> []" "hd ip \<noteq> CHR ''[''"
  shows "SplitHostPort (ip @ '':'' @ Itoa port) =
    (if CHR '':'' \<in> set ip then Inl (New ''too many colons in address'')
     else if CHR ''['' \<in> set ip \<or> CHR '']'' \<in> set ip then Inl (New ''unexpected bracket in address'')
     else Inr (ip, Itoa port))"
proof -
  have "last_index (CHR '':'') (ip @ CHR '':'' # Itoa port) = Some (length ip)"
    by (rule last_index_append) (rule Itoa_plain)
  then show ?thesis using assms Itoa_plain [of port] by (auto simp: SplitHostPort_def Let_def)
qed

definition plain_ip :: "string \<Rightarrow> bool" where
  "plain_ip ip = (CHR '':'' \<notin> set ip \<and> CHR ''['' \<notin> set ip \<and> CHR '']'' \<notin> set ip)"

definition is_ok :: "'a result \<Rightarrow> bool" where
  "is_ok r = (case r of Inl _ \<Rightarrow> False | Inr _ \<Rightarrow> True)"

lemma is_ok_simps [simp]: "\<not> is_ok (Inl err)" "is_ok (Inr x)" "is_ok (map_sum f g r) = is_ok r"
  by (auto simp: is_ok_def split: sum.splits)

lemma wrapped_with_simps [simp]:
  "wrapped_with msg (Inl err) = Ret (Inl (Wrap err msg))" "wrapped_with msg (Inr x) = Ret (Inr x)"
  by (simp_all add: wrapped_with_def)

text \<open>The configurations of the two Consul clients.\<close>

definition consul_cfg :: "('w, 'kc, 'cs, 'sd) externals \<Rightarrow> settings \<Rightarrow> string \<Rightarrow> capi_config" where
  "consul_cfg X S ip = (x_DefaultConfig X)\<lparr>cfg_Address := ip @ '':'' @ Itoa (s_consulPort S)\<rparr>"

definition target_cfg :: "('w, 'kc, 'cs, 'sd) externals \<Rightarrow> viper \<Rightarrow> settings \<Rightarrow> string \<Rightarrow> capi_config" where
  "target_cfg X v S ip =
     (if vp_IsSet v ''CONSUL_DATACENTER'' then (consul_cfg X S ip)\<lparr>cfg_Datacenter := s_consulDatacenter S\<rparr>
      else consul_cfg X S ip)"

lemma target_cfg_Address: "cfg_Address (target_cfg X v S ip) = ip @ '':'' @ Itoa (s_consulPort S)"
  by (simp add: target_cfg_def consul_cfg_def)

lemma build_parts_eq:
  assumes "ip \<noteq> []" "hd ip \<noteq> CHR ''[''"
  shows "case (x_NewClient X (consul_cfg X S ip), x_NewClient X (target_cfg X v S ip)) of
      (Inr c1, Inr c2) \<Rightarrow>
        if plain_ip ip then
          (\<exists>app. build_parts X v S sels ic nodeIC ip clk = Ret (Inr app) \<and>
            app_elector app = \<lparr>le_client = c1, le_clusterId = s_clusterId S, le_clientId = s_podName S, le_prefix = s_kvPrefix S\<rparr> \<and>
            app_target app = \<lparr>t_client = c2, t_elector = elector_of (app_elector app), hostIP = ip, kvPrefix = s_kvPrefix S,
              t_clusterId = s_clusterId S, servicesEnabled = s_servicesEnabled S, servicesKeyTmpl = s_servicesKeyTemplate S\<rparr> \<and>
            sw_clusterId (app_sw app) = s_clusterId S \<and> namespaces (app_sw app) = s_namespaces S \<and>
            Selectors (app_nw app) = sels \<and> MinCount (app_nw app) = s_minSelectorNodes S)
        else (\<exists>err. build_parts X v S sels ic nodeIC ip clk = Ret (Inl err))
    | _ \<Rightarrow> \<exists>err. build_parts X v S sels ic nodeIC ip clk = Ret (Inl err)"
proof -
  have cfgs: "(x_DefaultConfig X)\<lparr>cfg_Address := ip @ '':'' @ Itoa (s_consulPort S)\<rparr> = consul_cfg X S ip"
    "(if vp_IsSet v ''CONSUL_DATACENTER'' then (consul_cfg X S ip)\<lparr>cfg_Datacenter := s_consulDatacenter S\<rparr>
      else consul_cfg X S ip) = target_cfg X v S ip"
    by (simp_all add: consul_cfg_def target_cfg_def)
  note split = SplitHostPort_address [OF assms, of "s_consulPort S"]
  show ?thesis
    unfolding build_parts_def Let_def cfgs
    by (cases "x_NewClient X (consul_cfg X S ip)"; cases "x_NewClient X (target_cfg X v S ip)")
      (auto simp: NewConsulLeaderElector_def NewConsulTarget_def target_cfg_Address split plain_ip_def
        NewServiceWatcher_def NewNodeWatcher_def simp del: append_Cons append_Nil)
qed

text \<open>The texts of IP addresses.\<close>

definition ip_texts :: "('w, 'kc, 'cs, 'sd) externals \<Rightarrow> bool" where
  "ip_texts X = (\<forall>host ips ip. x_LookupIP X host = Inr ips \<longrightarrow> ip \<in> set ips \<longrightarrow> ip \<noteq> [] \<and> hd ip \<noteq> CHR ''['')"

abbreviation main_viper :: "('w, 'kc, 'cs, 'sd) externals \<Rightarrow> viper" where
  "main_viper X \<equiv> x_viper X ''KSE'' setting_defaults"

abbreviation main_settings :: "('w, 'kc, 'cs, 'sd) externals \<Rightarrow> settings" where
  "main_settings X \<equiv> read_settings (main_viper X)"

text \<open>Everything that must have gone well when \<open>main\<close> gets to put its parts together.\<close>

definition setup_ok :: "('w, 'kc, 'cs, 'sd) externals \<Rightarrow> bool" where
  "setup_ok X =
     (vp_IsSet (main_viper X) ''CLUSTER_ID'' \<and>
      is_ok (ParseNodeSelectors (x_float X) (s_nodeSelector (main_settings X))) \<and>
      (s_dogstatsdEnabled (main_settings X) \<longrightarrow>
         is_ok (Configure (x_statsd_New X) ''kube-service-exporter.'' (s_dogstatsdHost (main_settings X))
           (s_dogstatsdPort (main_settings X)) (s_dogstatsdTags (main_settings X)))) \<and>
      is_ok (x_NewClientSet X 0) \<and> is_ok (x_NewClientSet X 1) \<and>
      is_ok (x_LookupIP X (s_consulHost (main_settings X))))"

lemma is_ok_iff: "is_ok r \<longleftrightarrow> (\<exists>x. r = Inr x)"
  by (auto simp: is_ok_def split: sum.splits)

lemma not_ok_iff: "\<not> is_ok r \<longleftrightarrow> (\<exists>err. r = Inl err)"
  by (auto simp: is_ok_def split: sum.splits)

lemma informer_configs:
  "NewInformerConfig (Inr cs) n = Inr \<lparr>ic_ClientSet = cs, ic_ResyncPeriod = duration (n * minute)\<rparr>"
  "NewNodeInformerConfig (Inr cs) = Inr \<lparr>ic_ClientSet = cs, ic_ResyncPeriod = 15 * minute\<rparr>"
  "NewInformerConfig (Inl err) n = Inl err" "NewNodeInformerConfig (Inl err :: 'cs result) = Inl err"
  by (simp_all add: NewInformerConfig_def NewNodeInformerConfig_def)

lemma main_setup_refused: "\<not> setup_ok X \<Longrightarrow> \<exists>err. main_setup X e = Ret (Inl err)"
  unfolding main_setup_def setup_ok_def Let_def bindR_def wrapped_with_def
    NewInformerConfig_def NewNodeInformerConfig_def is_ok_def
  by (auto split: sum.splits if_splits)

lemma main_setup_parts:
  assumes ok: "setup_ok X" and ips: "x_LookupIP X (s_consulHost (main_settings X)) = Inr ips"
  shows "\<exists>sels ic nodeIC. ParseNodeSelectors (x_float X) (s_nodeSelector (main_settings X)) = Inr sels \<and>
    ic_ResyncPeriod ic = duration (s_serviceResyncPeriod (main_settings X) * minute) \<and>
    main_setup X e =
      (case ips of
         [] \<Rightarrow> Panic ''index out of range''
       | ip # _ \<Rightarrow> bindR (build_parts X (main_viper X) (main_settings X) sels ic nodeIC ip (clock e))
           (\<lambda>app. Ret (Inr (app, emit (Gauge ''start'' 1 []) e))))"
proof -
  obtain sels cs0 cs1 where p: "ParseNodeSelectors (x_float X) (s_nodeSelector (main_settings X)) = Inr sels"
    "x_NewClientSet X 0 = Inr cs0" "x_NewClientSet X 1 = Inr cs1"
    using ok by (auto simp: setup_ok_def is_ok_iff)
  have stats: "(if s_dogstatsdEnabled (main_settings X) then
       wrapped_with ''Error configuring dogstatsd''
         (map_sum id (\<lambda>_. ()) (Configure (x_statsd_New X) ''kube-service-exporter.'' (s_dogstatsdHost (main_settings X))
            (s_dogstatsdPort (main_settings X)) (s_dogstatsdTags (main_settings X))))
     else Ret (Inr ())) = Ret (Inr ())"
    using ok by (auto simp: setup_ok_def is_ok_iff)
  have set: "vp_IsSet (main_viper X) ''CLUSTER_ID''" using ok by (simp add: setup_ok_def)
  show ?thesis
    unfolding main_setup_def Let_def stats p ips
    by (rule exI [of _ sels], rule exI [of _ "\<lparr>ic_ClientSet = cs0, ic_ResyncPeriod =
          duration (s_serviceResyncPeriod (main_settings X) * minute)\<rparr>"],
        rule exI [of _ "\<lparr>ic_ClientSet = cs1, ic_ResyncPeriod = 15 * minute\<rparr>"])
      (simp add: set informer_configs)
qed

text \<open>The outcome of the setup in one place.\<close>

definition starts_with :: "('w, 'kc, 'cs, 'sd) externals \<Rightarrow> string \<Rightarrow> bool" where
  "starts_with X ip =
     (setup_ok X \<and> (\<exists>ips. x_LookupIP X (s_consulHost (main_settings X)) = Inr (ip # ips)) \<and> plain_ip ip \<and>
      is_ok (x_NewClient X (consul_cfg X (main_settings X) ip)) \<and>
      is_ok (x_NewClient X (target_cfg X (main_viper X) (main_settings X) ip)))"

lemma main_setup_starts:
  assumes ip: "ip_texts X" and r: "starts_with X ip"
  shows "\<exists>app. main_setup X e = Ret (Inr (app, emit (Gauge ''start'' 1 []) e)) \<and>
    t_elector (app_target app) = elector_of (app_elector app) \<and> hostIP (app_target app) = ip \<and>
    kvPrefix (app_target app) = le_prefix (app_elector app) \<and>
    t_clusterId (app_target app) = le_clusterId (app_elector app) \<and>
    sw_clusterId (app_sw app) = t_clusterId (app_target app) \<and>
    le_clusterId (app_elector app) = s_clusterId (main_settings X) \<and>
    namespaces (app_sw app) = s_namespaces (main_settings X) \<and>
    ParseNodeSelectors (x_float X) (s_nodeSelector (main_settings X)) = Inr (Selectors (app_nw app)) \<and>
    MinCount (app_nw app) = s_minSelectorNodes (main_settings X)"
proof -
  let ?S = "main_settings X" and ?v = "main_viper X"
  obtain ips c1 c2 where l: "x_LookupIP X (s_consulHost ?S) = Inr (ip # ips)" "plain_ip ip" "setup_ok X"
    and c: "x_NewClient X (consul_cfg X ?S ip) = Inr c1" "x_NewClient X (target_cfg X ?v ?S ip) = Inr c2"
    using r by (auto simp: starts_with_def is_ok_iff)
  have "ip \<noteq> []" "hd ip \<noteq> CHR ''[''" using ip l(1) by (auto simp: ip_texts_def)
  note parts = build_parts_eq [OF this, where X = X and S = ?S and v = ?v, unfolded c]
  obtain sels ic nodeIC where p: "ParseNodeSelectors (x_float X) (s_nodeSelector ?S) = Inr sels"
    and m: "main_setup X e = bindR (build_parts X ?v ?S sels ic nodeIC ip (clock e))
      (\<lambda>app. Ret (Inr (app, emit (Gauge ''start'' 1 []) e)))"
    using main_setup_parts [OF l(3,1), of e] by auto
  show ?thesis using parts [where sels = sels and ic = ic and nodeIC = nodeIC and clk = "clock e"] l(2) p m by auto
qed

lemma main_setup_fails:
  assumes ip: "ip_texts X" and no: "\<And>ip. \<not> starts_with X ip"
  shows "\<nexists>app e'. main_setup X e = Ret (Inr (app, e'))"
proof (cases "setup_ok X")
  case False
  then show ?thesis using main_setup_refused [of X e] by auto
next
  case True
  let ?S = "main_settings X" and ?v = "main_viper X"
  obtain ips where l: "x_LookupIP X (s_consulHost ?S) = Inr ips" using True by (auto simp: setup_ok_def is_ok_iff)
  show ?thesis
  proof (cases ips)
    case Nil
    then show ?thesis using main_setup_parts [OF True l, of e] by auto
  next
    case (Cons i more_ips)
    have "i \<noteq> []" "hd i \<noteq> CHR ''[''" using ip l Cons by (auto simp: ip_texts_def)
    note parts = build_parts_eq [OF this, where X = X and S = ?S and v = ?v]
    have "\<exists>err. build_parts X ?v ?S sels ic nodeIC i (clock e) = Ret (Inl err)" for sels ic nodeIC
      using parts [where sels = sels and ic = ic and nodeIC = nodeIC and clk = "clock e"] no [of i] True l Cons
      by (auto simp: starts_with_def is_ok_def split: sum.splits if_splits)
    then show ?thesis using main_setup_parts [OF True l, of e] Cons by (auto; metis bindR_simps(2) go.inject(1) sum.distinct(1))
  qed
qed

section \<open>Running and stopping\<close>

text \<open>
  The four parts that run until the process is told to stop, in the order of \<open>runStoppers\<close>. Each
  \<open>Run\<close> is in its own goroutine, an error of which ends the process; one more goroutine calls the
  \<open>Stop\<close> methods one after the other while \<open>main\<close> waits for it or for a timer.
\<close>

datatype runner = RElector | RServiceWatcher | RNodeWatcher | RServer

definition runStoppers :: "runner list" where
  "runStoppers = [RElector, RServiceWatcher, RNodeWatcher, RServer]"

fun runner_String :: "runner \<Rightarrow> string" where
  "runner_String RElector = ''Consul leadership elector''"
| "runner_String RServiceWatcher = ''Kubernetes Service handler''"
| "runner_String RNodeWatcher = ''Kubernetes Node handler''"
| "runner_String RServer = ''http server''"

datatype outcome = StoppedAll | TookTooLong | Fatal go_error

datatype phase = Serving | Stopping | Exited outcome

datatype run_state = NotStarted | Running | Returned

record process =
  pr_phase :: phase
  pr_runs :: "runner \<Rightarrow> run_state"
  pr_begun :: "runner list" \<comment> \<open>the calls of \<open>Stop\<close> that have been made\<close>
  pr_ended :: "runner list" \<comment> \<open>and those that have come back\<close>

text \<open>
  What \<open>Run\<close> may return, before and after \<open>Stop\<close> has been called on the part: the elector fails
  only when it cannot make its lock, both watchers return nil and only after they were stopped, and
  \<open>ListenAndServe\<close> always returns an error, which after \<open>Shutdown\<close> is \<open>http.ErrServerClosed\<close>.
\<close>

definition ErrServerClosed :: go_error where
  "ErrServerClosed = New ''http: Server closed''"

fun run_result :: "runner \<Rightarrow> bool \<Rightarrow> go_error option \<Rightarrow> bool" where
  "run_result RElector stopped_before r = (r = None \<longrightarrow> stopped_before)"
| "run_result RServiceWatcher stopped_before r = (r = None \<and> stopped_before)"
| "run_result RNodeWatcher stopped_before r = (r = None \<and> stopped_before)"
| "run_result RServer stopped_before r = (if stopped_before then r = Some ErrServerClosed else r \<noteq> None)"

inductive main_step :: "process \<Rightarrow> process \<Rightarrow> bool" where
  start: "\<lbrakk>\<forall>oc. pr_phase s \<noteq> Exited oc; pr_runs s r = NotStarted\<rbrakk> \<Longrightarrow>
    main_step s (s\<lparr>pr_runs := (pr_runs s)(r := Running)\<rparr>)"
| returns: "\<lbrakk>\<forall>oc. pr_phase s \<noteq> Exited oc; pr_runs s r = Running; run_result r (r \<in> set (pr_begun s)) None\<rbrakk> \<Longrightarrow>
    main_step s (s\<lparr>pr_runs := (pr_runs s)(r := Returned)\<rparr>)"
| fatal: "\<lbrakk>\<forall>oc. pr_phase s \<noteq> Exited oc; pr_runs s r = Running; run_result r (r \<in> set (pr_begun s)) (Some err)\<rbrakk> \<Longrightarrow>
    main_step s (s\<lparr>pr_phase := Exited (Fatal (Wrap err (''Error starting '' @ runner_String r)))\<rparr>)"
| signal: "pr_phase s = Serving \<Longrightarrow> main_step s (s\<lparr>pr_phase := Stopping\<rparr>)"
| stop: "\<lbrakk>pr_phase s = Stopping; pr_begun s = pr_ended s; pr_begun s @ r # rest = runStoppers\<rbrakk> \<Longrightarrow>
    main_step s (s\<lparr>pr_begun := pr_begun s @ [r]\<rparr>)"
| stop_ends: "\<lbrakk>pr_phase s = Stopping; pr_begun s = pr_ended s @ [r]; r = RElector \<longrightarrow> pr_runs s r = Returned\<rbrakk> \<Longrightarrow>
    main_step s (s\<lparr>pr_ended := pr_ended s @ [r]\<rparr>)"
| all_stopped: "\<lbrakk>pr_phase s = Stopping; pr_ended s = runStoppers\<rbrakk> \<Longrightarrow> main_step s (s\<lparr>pr_phase := Exited StoppedAll\<rparr>)"
| timeout: "pr_phase s = Stopping \<Longrightarrow> main_step s (s\<lparr>pr_phase := Exited TookTooLong\<rparr>)"

definition main_init :: process where
  "main_init = \<lparr>pr_phase = Serving, pr_runs = (\<lambda>_. NotStarted), pr_begun = [], pr_ended = []\<rparr>"

inductive main_reached :: "process \<Rightarrow> bool" where
  init: "main_reached main_init"
| step: "main_reached s \<Longrightarrow> main_step s s' \<Longrightarrow> main_reached s'"

inductive_cases main_stepE: "main_step s s'"

definition main_inv :: "process \<Rightarrow> bool" where
  "main_inv s =
     (prefix (pr_begun s) runStoppers \<and> (pr_ended s = pr_begun s \<or> (\<exists>r. pr_begun s = pr_ended s @ [r])) \<and>
      (pr_phase s = Serving \<longrightarrow> pr_begun s = []) \<and>
      (RElector \<in> set (pr_ended s) \<longrightarrow> pr_runs s RElector = Returned) \<and>
      (pr_phase s = Exited StoppedAll \<longrightarrow> pr_ended s = runStoppers))"

lemma main_inv_step:
  assumes "main_inv s" "main_step s s'"
  shows "main_inv s'"
  using assms(2)
proof cases
  case (stop r rest)
  have "prefix (pr_begun s @ [r]) runStoppers"
    using stop(4) by (metis append.assoc append_Cons append_Nil prefix_def)
  then show ?thesis using assms(1) stop by (auto simp: main_inv_def)
next
  case (stop_ends r)
  then show ?thesis using assms(1) by (cases "r = RElector") (auto simp: main_inv_def)
qed (use assms(1) in \<open>auto simp: main_inv_def\<close>)

lemma main_inv_reached: "main_reached s \<Longrightarrow> main_inv s"
proof (induction rule: main_reached.induct)
  case init
  then show ?case by (simp add: main_inv_def main_init_def)
qed (rule main_inv_step)

section \<open>Properties\<close>

text \<open>C26: the process starts exactly when the cluster id is set, the node selectors parse, the statsd
  client (if enabled), both Kubernetes clients and both Consul clients can be made, and the Consul
  host resolves to an address whose text has no colon: with an IPv6 address it does not start. When
  it starts, the target asks the elector that is run, target, elector and service watcher agree on
  cluster id and prefix, and the watchers have the configured namespaces, selectors and minimum.\<close>

theorem main_setup_outcome:
  assumes "ip_texts X"
  shows "if \<exists>ip. starts_with X ip then
      \<exists>ip app. starts_with X ip \<and> main_setup X e = Ret (Inr (app, emit (Gauge ''start'' 1 []) e)) \<and>
        t_elector (app_target app) = elector_of (app_elector app) \<and> hostIP (app_target app) = ip \<and>
        kvPrefix (app_target app) = le_prefix (app_elector app) \<and>
        t_clusterId (app_target app) = le_clusterId (app_elector app) \<and>
        sw_clusterId (app_sw app) = t_clusterId (app_target app) \<and>
        le_clusterId (app_elector app) = s_clusterId (main_settings X) \<and>
        namespaces (app_sw app) = s_namespaces (main_settings X) \<and>
        ParseNodeSelectors (x_float X) (s_nodeSelector (main_settings X)) = Inr (Selectors (app_nw app)) \<and>
        MinCount (app_nw app) = s_minSelectorNodes (main_settings X)
    else \<nexists>app e'. main_setup X e = Ret (Inr (app, e'))"
proof (cases "\<exists>ip. starts_with X ip")
  case True
  then show ?thesis using main_setup_starts [OF assms] by (simp only: if_True) blast
next
  case False
  then show ?thesis using main_setup_fails [OF assms] by simp
qed

text \<open>A reader that finds the cluster id and the node selector in the environment and takes everything
  else from the defaults, and a host that resolves to itself.\<close>

definition demo_viper :: "string \<Rightarrow> (string \<times> setting) list \<Rightarrow> viper" where
  "demo_viper pre defs =
     (let look = map_of ([(''CLUSTER_ID'', SStr ''c1''), (''NODE_SELECTOR'', SStr ''role=lb'')] @ defs)
      in \<lparr>vp_IsSet = (\<lambda>k. look k \<noteq> None),
          vp_GetString = (\<lambda>k. case look k of Some (SStr s) \<Rightarrow> s | _ \<Rightarrow> []),
          vp_GetInt = (\<lambda>k. case look k of Some (SInt i) \<Rightarrow> i | _ \<Rightarrow> 0),
          vp_GetBool = (\<lambda>k. case look k of Some (SBool b) \<Rightarrow> b | _ \<Rightarrow> False),
          vp_GetStringSlice = (\<lambda>_. []), vp_GetStringMapString = (\<lambda>_. [])\<rparr>)"

definition demo_externals :: "string \<Rightarrow> (memory, unit, unit, unit) externals" where
  "demo_externals ip =
     \<lparr>x_viper = demo_viper, x_float = Some, x_statsd_New = (\<lambda>_ _ _. Inr ()), x_ClientConfig = (\<lambda>_. Inr ()), x_NewForConfig = (\<lambda>_ _. Inr ()),
      x_LookupIP = (\<lambda>_. Inr [ip]), x_DefaultConfig = \<lparr>cfg_Address = [], cfg_Datacenter = []\<rparr>,
      x_NewClient = (\<lambda>_. Inr memory_api)\<rparr>"

lemma demo_selector: "ParseNodeSelectors Some ''role=lb'' = Inr [''role=lb'']"
proof -
  have "leading_space ''role=lb'' = None" "trailing_space ''role=lb'' = None" by code_simp+
  then show ?thesis by (simp add: ParseNodeSelectors_def TrimSpace_id)
qed

lemma demo_starts: "starts_with (demo_externals ip) ip' \<longleftrightarrow> ip' = ip \<and> plain_ip ip"
  by (auto simp: starts_with_def setup_ok_def demo_externals_def NewClientSet_def read_settings_def demo_viper_def setting_defaults_def
      demo_selector Configure_def)

theorem main_setup_outcome_witness:
  "(\<exists>app. main_setup (demo_externals ''10.0.0.1'') plain_env = Ret (Inr (app, emit (Gauge ''start'' 1 []) plain_env)) \<and>
      hostIP (app_target app) = ''10.0.0.1'' \<and> sw_clusterId (app_sw app) = ''c1'') \<and>
   (\<nexists>app e. main_setup (demo_externals ''::1'') plain_env = Ret (Inr (app, e)))"
proof
  have "s_clusterId (main_settings (demo_externals ip)) = ''c1''" for ip
    by (simp add: demo_externals_def read_settings_def demo_viper_def)
  note c1 = this
  have "ip_texts (demo_externals ''10.0.0.1'')" by (simp add: ip_texts_def demo_externals_def)
  from main_setup_outcome [OF this, of plain_env]
  show "\<exists>app. main_setup (demo_externals ''10.0.0.1'') plain_env = Ret (Inr (app, emit (Gauge ''start'' 1 []) plain_env)) \<and>
      hostIP (app_target app) = ''10.0.0.1'' \<and> sw_clusterId (app_sw app) = ''c1''"
    by (auto simp: demo_starts plain_ip_def c1)
  have "ip_texts (demo_externals ''::1'')" by (simp add: ip_texts_def demo_externals_def)
  from main_setup_outcome [OF this, of plain_env]
  show "\<nexists>app e. main_setup (demo_externals ''::1'') plain_env = Ret (Inr (app, e))"
    by (simp add: demo_starts plain_ip_def)
qed


text \<open>One run of the process: everything starts, a signal arrives, the parts are stopped in turn.\<close>

definition serving :: process where
  "serving = \<lparr>pr_phase = Serving, pr_runs = (\<lambda>_. Running), pr_begun = [], pr_ended = []\<rparr>"

definition stopping :: "runner list \<Rightarrow> runner list \<Rightarrow> process" where
  "stopping bs es = \<lparr>pr_phase = Stopping, pr_runs = (\<lambda>_. Running)(RElector := Returned), pr_begun = bs, pr_ended = es\<rparr>"

lemma start_all: "main_reached serving"
proof -
  let ?s = "\<lambda>f. \<lparr>pr_phase = Serving, pr_runs = f, pr_begun = [], pr_ended = []\<rparr>"
  have go: "main_reached (?s f) \<Longrightarrow> f r = NotStarted \<Longrightarrow> main_reached (?s (f(r := Running)))" for f r
    using main_reached.step [OF _ start [of "?s f" r]] by simp
  have "main_reached (?s (\<lambda>_. NotStarted))" using main_reached.init by (simp add: main_init_def)
  from go [OF go [OF go [OF go [OF this, of RElector], of RServiceWatcher], of RNodeWatcher], of RServer]
  have "main_reached (?s ((\<lambda>_. NotStarted)(RElector := Running, RServiceWatcher := Running, RNodeWatcher := Running,
      RServer := Running)))" by simp
  moreover have "((\<lambda>_. NotStarted)(RElector := Running, RServiceWatcher := Running, RNodeWatcher := Running,
      RServer := Running)) = (\<lambda>_. Running)"
    using runner.exhaust by (auto simp: fun_eq_iff)
  ultimately show ?thesis by (simp add: serving_def)
qed

lemma stop_elector: "main_reached (stopping [RElector] [])"
proof -
  let ?s1 = "serving\<lparr>pr_phase := Stopping\<rparr>" and ?s2 = "serving\<lparr>pr_phase := Stopping, pr_begun := [RElector]\<rparr>"
  have "main_reached ?s1" by (rule main_reached.step [OF start_all signal]) (simp add: serving_def)
  then have "main_reached (?s1\<lparr>pr_begun := pr_begun ?s1 @ [RElector]\<rparr>)"
    by (rule main_reached.step) (rule stop, simp_all add: serving_def runStoppers_def)
  then have "main_reached ?s2" by (simp add: serving_def)
  then have "main_reached (?s2\<lparr>pr_runs := (pr_runs ?s2)(RElector := Returned)\<rparr>)"
    by (rule main_reached.step) (rule returns, simp_all add: serving_def)
  then show ?thesis by (simp add: stopping_def serving_def)
qed

lemma stop_next:
  assumes "main_reached (stopping (es @ [r]) es)" "es @ r # r' # rest = runStoppers"
  shows "main_reached (stopping (es @ [r, r']) (es @ [r]))"
proof -
  let ?s = "stopping (es @ [r]) es" and ?t = "stopping (es @ [r]) (es @ [r])"
  have "main_reached (?s\<lparr>pr_ended := pr_ended ?s @ [r]\<rparr>)"
    by (rule main_reached.step [OF assms(1)], rule stop_ends) (simp_all add: stopping_def)
  then have "main_reached ?t" by (simp add: stopping_def)
  then have "main_reached (?t\<lparr>pr_begun := pr_begun ?t @ [r']\<rparr>)"
    by (rule main_reached.step) (rule stop, use assms(2) in \<open>simp_all add: stopping_def\<close>)
  then show ?thesis by (simp add: stopping_def)
qed

lemma stop_server: "main_reached (stopping runStoppers [RElector, RServiceWatcher, RNodeWatcher])"
proof -
  note a = stop_next [where es = "[]", simplified, OF stop_elector]
  have "main_reached (stopping [RElector, RServiceWatcher] [RElector])" by (rule a) (simp add: runStoppers_def)
  then have "main_reached (stopping [RElector, RServiceWatcher, RNodeWatcher] [RElector, RServiceWatcher])"
    using stop_next [of "[RElector]" RServiceWatcher RNodeWatcher] by (simp add: runStoppers_def)
  then show ?thesis
    using stop_next [of "[RElector, RServiceWatcher]" RNodeWatcher RServer] by (simp add: runStoppers_def)
qed


text \<open>C39: an ordinary shutdown, after a signal and with every part stopped in turn, can end the process
  as a failure: stopping the server makes its \<open>Run\<close> return \<open>http.ErrServerClosed\<close>, which \<open>main\<close>
  takes for a failed start and ends with \<open>log.Fatal\<close>, possibly before the last \<open>Stop\<close> came back.\<close>

theorem shutdown_can_be_fatal:
  "\<exists>s. main_reached s \<and> pr_begun s = runStoppers \<and>
     pr_phase s = Exited (Fatal (Wrap ErrServerClosed ''Error starting http server''))"
proof -
  let ?s = "stopping runStoppers [RElector, RServiceWatcher, RNodeWatcher]"
  have "main_step ?s (?s\<lparr>pr_phase := Exited (Fatal (Wrap ErrServerClosed (''Error starting '' @ runner_String RServer)))\<rparr>)"
    by (rule fatal) (simp_all add: stopping_def runStoppers_def)
  from main_reached.step [OF stop_server this] show ?thesis by (auto simp: stopping_def intro!: exI)
qed

end
