(* ===== verification/EndToEnd.thy ===== *)
theory EndToEnd
  imports MainProg
begin

text \<open>
  The components together: a Service that the informer accrues goes through the handler, the queue,
  the worker and the Consul target, with the elector's answers and the metrics of the process.
\<close>

section \<open>Metrics only accumulate\<close>

text \<open>Metrics are only added; and the operations of the target leave the counter of failures alone.\<close>

abbreviation accrues :: "'x env_scheme \<Rightarrow> 'x env_scheme \<Rightarrow> bool" where
  "accrues e e' \<equiv> grows emitted (\<lambda>_. True) e e'"

abbreviation quiet :: "'x env_scheme \<Rightarrow> 'x env_scheme \<Rightarrow> bool" where
  "quiet e e' \<equiv> grows emitted (\<lambda>m. \<forall>tags. m \<noteq> Incr ''target.service.fail'' tags) e e'"

lemma raised_accrues: "accrues e e' \<Longrightarrow> raised n e \<le> raised n e'"
  by (auto simp: grows_def raised_def)

lemma raised_quiet: "quiet e e' \<Longrightarrow> raised ''target.service.fail'' e' = raised ''target.service.fail'' e"
  by (auto simp: grows_def raised_def list_all_iff)

lemma grows_refl [simp]: "grows lg P e e"
  by (simp add: grows_none)

lemma grows_fields:
  "grows emitted P w (w'\<lparr>asked := n\<rparr>) = grows emitted P w w'" "grows emitted P w (w'\<lparr>flipped := n\<rparr>) = grows emitted P w w'"
  "grows emitted P (w\<lparr>asked := n\<rparr>) w' = grows emitted P w w'" "grows emitted P (w\<lparr>flipped := n\<rparr>) w' = grows emitted P w w'"
  by (simp_all add: grows_def)

text \<open>Whatever the calls of the clients report, creating an exported service reports nothing else.\<close>

locale reporting =
  fixes P :: "metric \<Rightarrow> bool" and D :: deps and t :: "'w ConsulTarget" and le :: "'w ConsulLeaderElector"
  assumes elector: "t_elector t = elector_of le"
    and leader_reads: "grows emitted P w (snd (KV_Get (le_client le) k q tags w))"
    and reads_ok: "grows emitted P w (snd (KV_Get (t_client t) k q tags w))"
    and puts_ok: "grows emitted P w (snd (KV_Put (t_client t) p tags w))"
    and registers_ok: "grows emitted P w (snd (ServiceRegister (t_client t) a w))"
    and lists_ok: "grows emitted P w (snd (Services (t_client t) w))"
begin

lemma HasLeader_reports: "grows emitted P w (snd (HasLeader le w))"
  by (auto simp: HasLeader_def Let_def case_prod_beta leader_reads split: sum.split option.split)

lemma WaitForLeader_reports: "grows emitted P w (snd (WaitForLeader le wait tick w))"
  using HasLeader_reports [of "w\<lparr>flipped := Suc (flipped w)\<rparr>"]
  by (auto simp: WaitForLeader_def Let_def case_prod_beta grows_fields)

lemma createKV_reports: "grows emitted P w (snd (createKV D t es w))"
proof -
  let ?w1 = "w\<lparr>asked := Suc (asked w)\<rparr>"
  have "grows emitted P ?w1 (snd (shouldUpdateKV D t es ?w1))"
    by (auto simp: shouldUpdateKV_def Let_def case_prod_beta reads_ok split: sum.split option.split)
  then have s: "grows emitted P w (snd (shouldUpdateKV D t es ?w1))" by (simp add: grows_fields)
  moreover have "grows emitted P w (snd (writeKV D t es (snd (shouldUpdateKV D t es ?w1))))"
    by (rule grows_trans [OF s]) (auto simp: writeKV_def puts_ok split: sum.split)
  ultimately show ?thesis
    using elector by (auto simp: createKV_def IsLeader_def Let_def case_prod_beta grows_fields split: sum.split bool.split)
qed

lemma createService_reports: "grows emitted P w (snd (createService t es w))"
proof -
  let ?w1 = "snd (WaitForLeader le (seconds 15) (seconds 1) w)"
  let ?u = "shouldUpdateService t (asrFromExportedService t es) ?w1"
  have w1: "grows emitted P w ?w1" by (rule WaitForLeader_reports)
  have "grows emitted P ?w1 (snd ?u)"
    by (auto simp: shouldUpdateService_def Let_def case_prod_beta lists_ok split: sum.split option.split)
  then have u: "grows emitted P w (snd ?u)" by (rule grows_trans [OF w1])
  then have "grows emitted P w (snd (ServiceRegister (t_client t) a (snd ?u)))" for a
    by (rule grows_trans) (rule registers_ok)
  then show ?thesis
    using elector w1 u
    by (auto simp: createService_def Let_def case_prod_beta split: option.split sum.split bool.split)
qed

lemma WriteNodes_reports: "grows emitted P w (snd (WriteNodes D t nodes w))"
proof -
  let ?g = "KV_Get (t_client t) (nodesKey t) False [''kv:nodes''] (w\<lparr>asked := Suc (asked w)\<rparr>)"
  have g: "grows emitted P w (snd ?g)" using reads_ok [where w = "w\<lparr>asked := Suc (asked w)\<rparr>"] by (simp add: grows_fields)
  have "grows emitted P w (snd (KV_Put (t_client t) p tags (snd ?g)))" for p tags
    by (rule grows_trans [OF g puts_ok])
  then show ?thesis
    using elector g
    by (auto simp: WriteNodes_def IsLeader_def Let_def case_prod_beta grows_fields split: sum.split option.split)
qed

lemma Create_reports: "grows emitted P w (snd (Create D t es w))"
  using createService_reports [of w es] grows_trans [OF createService_reports [of w es] createKV_reports]
  by (auto simp: Create_def Let_def case_prod_beta split: option.split)

end

text \<open>No call of a client counts a failed target operation.\<close>

interpretation qt: reporting "\<lambda>m. \<forall>tags. m \<noteq> Incr ''target.service.fail'' tags" D "consul_target t le" le
  for D :: deps and t :: "'w ConsulTarget" and le :: "'w ConsulLeaderElector"
  by unfold_locales (simp_all add: grows_def instrumented_calls instrumented_def Let_def split: prod.split)

lemma Create_quiet:
  assumes "t_elector t = elector_of le"
  shows "quiet w (snd (Create D t es w))"
proof -
  have "consul_target t le = t" using assms by (cases t) simp
  then show ?thesis using qt.Create_reports [where t = t and le = le and D = D and w = w and es = es] by simp
qed

lemma Create_accrues:
  "t_elector t = elector_of le \<Longrightarrow> accrues w (snd (Create D t es w))"
  by (rule grows_mono [OF Create_quiet]) simp_all

lemma Create_leads:
  assumes "t_elector t = elector_of le"
  shows "leads (snd (Create D t es w)) = leads w"
proof -
  have "leads (snd (createKV D t es w')) = leads w'" for w'
    using assms shouldUpdateKV_world(2) [of D t es "w'\<lparr>asked := Suc (asked w')\<rparr>"]
    by (auto simp: createKV_def IsLeader_def Let_def case_prod_beta writeKV_def consul_simps split: sum.split bool.split)
  then show ?thesis
    using createService_world(1) [OF assms, of es w]
    by (auto simp: Create_def Let_def case_prod_beta split: option.split)
qed

lemma Create_result: "snd (fst (Create D t es w)) = None \<Longrightarrow> fst (fst (Create D t es w))"
  by (auto simp: Create_def createKV_def Let_def case_prod_beta split: option.splits sum.splits bool.splits if_splits)

lemma target_stat_count:
  "raised ''target.service.fail'' (target_stat h es err e) =
     raised ''target.service.fail'' e + (if err = None then 0 else 1)"
  by (simp add: target_stat_def IncrSuccessOrFail_def)

lemma target_stat_world [simp]:
  "accrues e (target_stat h es err e)"
  "leads (target_stat h es err w) = leads w" "server (target_stat h es err w) = server w"
  by (simp_all add: target_stat_def IncrSuccessOrFail_def grows_def emit_def)

section \<open>Creating all services of a Service\<close>

lemma create_loop_accrues:
  assumes "t_elector t = elector_of le"
  shows "accrues w (create_loop (target_of D t) ess w)"
proof (induction ess arbitrary: w)
  case (Cons es ess)
  let ?c = "Create D t es w"
  let ?w1 = "target_stat ''create'' es (snd (fst ?c)) (snd ?c)"
  have "accrues w ?w1" by (rule grows_trans [OF Create_accrues [OF assms] target_stat_world(1)])
  then have "accrues w (create_loop (target_of D t) ess ?w1)" by (rule grows_trans) (rule Cons.IH)
  then show ?case by (simp add: target_of_def case_prod_beta)
qed simp

lemma create_loop_stores:
  assumes ok: "consul_ok (t_client t) kvs svcs" and cl: "reads_only (le_client le) kvs"
    and el: "t_elector t = elector_of le" and lead: "\<forall>n. leads w n"
    and keys: "\<forall>es \<in> set ess. readable D es \<and> metadataPrefix D t es = Inr (key_of es)"
    and dist: "distinct (map key_of ess)"
    and no_fail: "raised ''target.service.fail'' (create_loop (target_of D t) ess w) = raised ''target.service.fail'' w"
  shows "(\<forall>es \<in> set ess. \<exists>p. kvs (server (create_loop (target_of D t) ess w)) (key_of es) = Some p \<and>
      up_to_date D es (kv_Value p)) \<and>
    (\<forall>k. k \<notin> key_of ` set ess \<longrightarrow> kvs (server (create_loop (target_of D t) ess w)) k = kvs (server w) k)"
  using lead keys dist no_fail
proof (induction ess arbitrary: w)
  case (Cons es ess)
  let ?fails = "raised ''target.service.fail''"
  obtain b err w1 where c: "Create D t es w = ((b, err), w1)" by (metis prod.exhaust)
  let ?w2 = "target_stat ''create'' es err w1"
  have loop: "create_loop (target_of D t) (es # ess) w = create_loop (target_of D t) ess ?w2"
    by (simp add: target_of_def c)
  have "?fails w \<le> ?fails w1"
    using raised_accrues [OF Create_accrues [OF el, of w D es]] c by simp
  moreover have "?fails ?w2 \<le> ?fails (create_loop (target_of D t) ess ?w2)"
    by (rule raised_accrues [OF create_loop_accrues [OF el]])
  ultimately have err: "err = None" and rest: "?fails (create_loop (target_of D t) ess ?w2) = ?fails ?w2"
    using Cons.prems(4) target_stat_count [of "''create''" es err w1] unfolding loop by (auto split: if_splits)
  have c': "Create D t es w = ((True, None), w1)" using Create_result [of D t es w] c err by simp
  have lead2: "\<forall>n. leads ?w2 n" using Create_leads [OF el, of D es w] c Cons.prems(1) by simp
  have es: "readable D es" "metadataPrefix D t es = Inr (key_of es)" using Cons.prems(2) by simp_all
  note stored = Create_stored [OF ok el cl Cons.prems(1) [rule_format] es c']
  have "\<forall>es \<in> set ess. readable D es \<and> metadataPrefix D t es = Inr (key_of es)" "distinct (map key_of ess)"
    using Cons.prems(2,3) by simp_all
  note ih = Cons.IH [OF lead2 this rest]
  have "key_of es \<notin> key_of ` set ess" using Cons.prems(3) by simp
  then show ?case unfolding loop using ih stored by (auto simp: target_stat_world)
qed simp

section \<open>One Service from the informer to Consul\<close>

text \<open>An item in an empty queue is the one that is processed, and then the worker is done.\<close>

lemma AddFunc_queue:
  assumes "deref obj = KService svc" "\<not> ignored sw svc" "MetaNamespaceKeyFunc (KService svc) = Inr key"
  shows "AddFunc M obj sw = enqueue M (NewKeyOp key obj AddOp) sw"
  using assms by (simp add: AddFunc_def)

lemma Get_single:
  assumes "pq_inv q" "pq_abs q = Map.empty"
  obtains q' where "Get M (Add M v (Fin 0) q) = (Inr v, q')" "pq_inv q'" "pq_abs q' = Map.empty"
proof -
  have a: "pq_inv (Add M v (Fin 0) q)" "pq_abs (Add M v (Fin 0) q) = [v \<mapsto> Fin 0]"
    using pq.add_inv [OF assms(1)] pq.add_abs [OF assms(1)] assms(2) by auto
  obtain r q' where g: "Get M (Add M v (Fin 0) q) = (r, q')" by fastforce
  have "r = Inr v" using pq.add_get_same [OF assms] g by (metis fst_conv float64.distinct)
  then show ?thesis
    using that [of q'] g pq.get_ok [OF a(1)] pq.get_inv [OF a(1), of M] a(2) by auto
qed

lemma Get_none:
  assumes "pq_inv q" "pq_abs q = Map.empty"
  shows "\<exists>err. Get M q = (Inl err, q)"
proof -
  obtain r q' where g: "Get M q = (r, q')" by fastforce
  show ?thesis using g pq.get_ok [OF assms(1)] pq.get_err [OF assms(1)] assms(2) by (cases r) fastforce+
qed

lemma handler_start_world:
  assumes "handler_start h w = (m, w')"
  shows "leads w' = leads w" "server w' = server w" "raised ''target.service.fail'' w' = raised ''target.service.fail'' w"
    "\<exists>took tags. m = Timing ''kubernetes.service_handler.time'' took tags"
  using assms by (auto simp: handler_start_def time_Since_def time_Now_def Let_def raised_def emit_def)

lemma run_single:
  assumes sw: "pq_inv (sw_queue sw)" "pq_abs (sw_queue sw) = Map.empty"
    and ix: "ko_Operation ko \<noteq> DeleteOp \<longrightarrow> ix (ko_Key ko) = Inr (Some (KService svc))"
    and d: "\<And>q. dispatch fl ix T ko (if ko_Operation ko = DeleteOp then None else Some svc) (sw\<lparr>sw_queue := q\<rparr>) w =
      Ret (b, sw1\<lparr>sw_queue := q\<rparr>, w1)"
  shows "\<exists>q. runWorker fl M local (\<lambda>_. ix) T (Suc (Suc 0)) (enqueue M ko sw) w = Ret (Some (sw1\<lparr>sw_queue := q\<rparr>, w1)) \<and>
    pq_abs q = Map.empty"
proof -
  obtain q where g: "Get M (Add M (Val ko) (Fin 0) (sw_queue sw)) = (Inr (Val ko), q)" "pq_inv q" "pq_abs q = Map.empty"
    by (rule Get_single [OF sw])
  let ?q = "if b then Forget M (Ptr local) q else q"
  have q: "pq_inv ?q" "pq_abs ?q = Map.empty"
    using pq.forget_inv [OF g(2)] pq.forget_abs [OF g(2)] g(2,3) by auto
  obtain err where none: "Get M ?q = (Inl err, ?q)" using Get_none [OF q] by blast
  have "processNextItem fl M local ix T (enqueue M ko sw) w = Ret (True, sw1\<lparr>sw_queue := ?q\<rparr>, w1)"
    using g(1) ix d [of q]
    by (cases "ko_Operation ko = DeleteOp"; cases b) (simp_all add: processNextItem_def enqueue_def finish_item_def)
  moreover have "processNextItem fl M local ix T (sw1\<lparr>sw_queue := ?q\<rparr>) w1 = Ret (False, sw1\<lparr>sw_queue := ?q\<rparr>, w1)"
    using none by (simp add: processNextItem_def)
  ultimately show ?thesis using q(2) by (intro exI [of _ ?q]) simp
qed

lemma run_added:
  assumes sw: "pq_inv (sw_queue sw)" "pq_abs (sw_queue sw) = Map.empty"
    and obj: "deref obj = KService svc" "\<not> ignored sw svc" "MetaNamespaceKeyFunc (KService svc) = Inr key"
    and ix: "ix key = Inr (Some (KService svc))"
    and ex: "IsExportableService (Some svc) = Ret True"
      "NewExportedServicesFromKubeService fl ix (Some svc) (sw_clusterId sw) = Ret (Inr ess)"
    and st: "handler_start ''add'' w = (timing, w1)"
  shows "\<exists>sw'. runWorker fl M local (\<lambda>_. ix) T (Suc (Suc 0)) (AddFunc M obj sw) w =
      Ret (Some (sw', emit timing (create_loop T ess w1))) \<and> pq_abs (sw_queue sw') = Map.empty"
proof -
  let ?ko = "NewKeyOp key obj AddOp" and ?w2 = "emit timing (create_loop T ess w1)"
  have "addService fl ix (sw_clusterId sw) T (Some svc) w = Ret (None, ?w2)"
    using ex st by (simp add: addService_def)
  then have "dispatch fl ix T ?ko (Some svc) (sw\<lparr>sw_queue := q\<rparr>) w = Ret (True, sw\<lparr>sw_queue := q\<rparr>, ?w2)" for q
    by (simp add: dispatch_def NewKeyOp_def)
  moreover have "ko_Operation ?ko = AddOp" "ko_Key ?ko = key" by (simp_all add: NewKeyOp_def)
  ultimately obtain q where "runWorker fl M local (\<lambda>_. ix) T (Suc (Suc 0)) (enqueue M ?ko sw) w = Ret (Some (sw\<lparr>sw_queue := q\<rparr>, ?w2))"
    "pq_abs q = Map.empty"
    using run_single [OF sw, of ?ko ix svc fl T w True sw ?w2 M local] ix by auto
  then show ?thesis unfolding AddFunc_queue [OF obj] by auto
qed

section \<open>Properties\<close>

text \<open>C2: a Service that the informer adds is exported. When the handler puts it on the empty queue of
  a process that leads, the worker gets through it; and if no failed target operation is counted,
  then for every exported service of the Service the metadata key in Consul holds a JSON object
  with the service's hash, and no other key has changed.\<close>

theorem added_service_is_stored:
  assumes "consul_ok (t_client t) kvs svcs" "reads_only (le_client le) kvs" "t_elector t = elector_of le"
    "\<forall>n. leads w n"
    "pq_inv (sw_queue sw)" "pq_abs (sw_queue sw) = Map.empty"
    "deref obj = KService svc" "\<not> ignored sw svc" "MetaNamespaceKeyFunc (KService svc) = Inr key"
    "ix key = Inr (Some (KService svc))" "IsExportableService (Some svc) = Ret True"
    "NewExportedServicesFromKubeService fl ix (Some svc) (sw_clusterId sw) = Ret (Inr ess)"
    "\<forall>es \<in> set ess. readable D es \<and> metadataPrefix D t es = Inr (key_of es)" "distinct (map key_of ess)"
  shows "\<exists>sw' w'. runWorker fl M local (\<lambda>_. ix) (target_of D t) (Suc (Suc 0)) (AddFunc M obj sw) w = Ret (Some (sw', w')) \<and>
    pq_abs (sw_queue sw') = Map.empty \<and>
    (raised ''target.service.fail'' w' = raised ''target.service.fail'' w \<longrightarrow>
       (\<forall>es \<in> set ess. \<exists>p. kvs (server w') (key_of es) = Some p \<and> up_to_date D es (kv_Value p)) \<and>
       (\<forall>k. k \<notin> key_of ` set ess \<longrightarrow> kvs (server w') k = kvs (server w) k))"
proof -
  obtain timing w1 where st: "handler_start ''add'' w = (timing, w1)" by fastforce
  note h = handler_start_world [OF st]
  let ?w2 = "create_loop (target_of D t) ess w1"
  obtain sw' where run: "runWorker fl M local (\<lambda>_. ix) (target_of D t) (Suc (Suc 0)) (AddFunc M obj sw) w =
      Ret (Some (sw', emit timing ?w2))" "pq_abs (sw_queue sw') = Map.empty"
    using run_added [where fl = fl and M = M and local = local and T = "target_of D t", OF assms(5-12) st] by blast
  have "\<forall>n. leads w1 n" using assms(4) h(1) by simp
  note stores = create_loop_stores [OF assms(1-3) this assms(13,14)]
  have f: "raised ''target.service.fail'' (emit timing ?w2) = raised ''target.service.fail'' ?w2" using h(4) by auto
  have s: "server (emit timing ?w2) = server ?w2" by (simp add: emit_def)
  show ?thesis
    by (rule exI [of _ sw'], rule exI [of _ "emit timing ?w2"]) (use run f s stores h(2,3) in simp)
qed

theorem added_service_is_stored_witness:
  "\<exists>sw w p. runWorker Some no_metrics 0 (\<lambda>_ _. Inr (Some (KService demo_service))) (target_of demo_deps demo_target) (Suc (Suc 0))
       (AddFunc no_metrics (Ref 0 (KService demo_service)) (NewServiceWatcher [] ''c1'' ())) (memory_world demo_kv True) =
       Ret (Some (sw, w)) \<and>
     fst (server w) (''kse/services/'' @ Id demo_es @ ''/clusters/'' @ ClusterId demo_es) = Some p \<and>
     up_to_date demo_deps demo_es (kv_Value p)"
proof -
  let ?w = "memory_world demo_kv True" and ?T = "target_of demo_deps demo_target"
  let ?sw = "NewServiceWatcher [] ''c1'' () :: unit ServiceWatcher" and ?obj = "Ref 0 (KService demo_service)"
  let ?ix = "\<lambda>_. Inr (Some (KService demo_service)) :: kobject option result"
  let ?key_of = "\<lambda>es. ''kse/services/'' @ Id es @ ''/clusters/'' @ ClusterId es"
  let ?fails = "raised ''target.service.fail''"
  have sw: "pq_inv (sw_queue ?sw)" "pq_abs (sw_queue ?sw) = Map.empty" "\<not> ignored ?sw demo_service" "sw_clusterId ?sw = ''c1''"
    by (simp_all add: NewServiceWatcher_def New_inv New_abs ignored_def)
  have key: "MetaNamespaceKeyFunc (KService demo_service) = Inr ''default/web''" by (simp add: demo_service_def)
  have export: "NewExportedServicesFromKubeService Some ?ix (Some demo_service) (sw_clusterId ?sw) = Ret (Inr [demo_es])"
    unfolding sw(4) by (rule demo_export_any)
  obtain timing w1 where st: "handler_start ''add'' ?w = (timing, w1)" by fastforce
  note h = handler_start_world [OF st]
  have "coins w1 = coins ?w"
    using st by (auto simp: handler_start_def time_Since_def time_Now_def Let_def emit_def)
  then obtain w2 where c: "Create demo_deps demo_target demo_es w1 = ((True, None), w2)"
    using demo_Create_from [of w1] h(1,2) by (auto simp: memory_world_def)
  have fails: "?fails (emit timing (create_loop ?T [demo_es] w1)) = ?fails ?w"
    using raised_quiet [OF Create_quiet [of demo_target demo_elector w1 demo_deps demo_es]] c h(3,4)
    by (auto simp: target_of_def target_stat_count)
  have keys: "\<forall>es \<in> set [demo_es]. readable demo_deps es \<and> metadataPrefix demo_deps demo_target es = Inr (?key_of es)"
    using demo_readable by (simp add: demo_prefix)
  have lead: "\<forall>n. leads ?w n" by (simp add: memory_world_def)
  obtain sw' where run: "runWorker Some no_metrics 0 (\<lambda>_. ?ix) ?T (Suc (Suc 0)) (AddFunc no_metrics ?obj ?sw) ?w =
      Ret (Some (sw', emit timing (create_loop ?T [demo_es] w1)))"
    using run_added [where fl = Some and M = no_metrics and local = 0 and T = ?T and obj = ?obj and ix = ?ix,
        OF sw(1,2) _ sw(3) key _ demo_exportable export st] by auto
  have "\<exists>sw' w'. runWorker Some no_metrics 0 (\<lambda>_. ?ix) ?T (Suc (Suc 0)) (AddFunc no_metrics ?obj ?sw) ?w = Ret (Some (sw', w')) \<and>
      pq_abs (sw_queue sw') = Map.empty \<and>
      (?fails w' = ?fails ?w \<longrightarrow>
         (\<forall>es \<in> set [demo_es]. \<exists>p. fst (server w') (?key_of es) = Some p \<and> up_to_date demo_deps es (kv_Value p)) \<and>
         (\<forall>k. k \<notin> ?key_of ` set [demo_es] \<longrightarrow> fst (server w') k = fst (server ?w) k))"
    by (rule added_service_is_stored [where le = demo_elector and svcs = snd and key = "''default/web''" and svc = demo_service,
          OF _ _ _ lead sw(1,2) _ sw(3) key _ demo_exportable export keys])
      (simp_all add: memory_ok memory_reads)
  then show ?thesis using run fails by auto
qed

end
