(* ===== verification/Lifecycle.thy ===== *)
theory Lifecycle
  imports EndToEnd
begin

text \<open>
  The rest of a Service's life: what an update and a deletion leave in Consul, and what a node event
  leaves there, from the handler of the informer to the store.
\<close>

section \<open>Failures that are counted\<close>

text \<open>The failures of target operations and of Consul calls that the process has counted.\<close>

definition faults :: "'x env_scheme \<Rightarrow> nat" where
  "faults e = raised ''target.service.fail'' e + raised ''consul.kv.fail'' e + raised ''consul.service.fail'' e"

lemma faults_accrues: "accrues e e' \<Longrightarrow> faults e \<le> faults e'"
  unfolding faults_def by (intro add_mono raised_accrues)

lemma faults_env [simp]:
  "faults (e\<lparr>reads := n\<rparr>) = faults e" "faults (emit (Timing s took tags) e) = faults e"
  by (simp_all add: faults_def raised_def emit_def)

lemma faults_stat: "faults (target_stat h es err e) = faults e + (if err = None then 0 else 1)"
  by (simp add: faults_def raised_def target_stat_def IncrSuccessOrFail_def emit_def)

lemma faults_start: "handler_start h e = (m, e') \<Longrightarrow> faults e' = faults e"
  by (auto simp: handler_start_def time_Since_def time_Now_def Let_def faults_def raised_def emit_def)

lemma accrues_calls [simp]:
  "accrues w (snd (KV_DeleteTree api pre tags w))" "accrues w (snd (ServiceDeregister api i w))"
  "accrues w (w'\<lparr>asked := n\<rparr>) = accrues w w'"
  by (simp_all add: grows_def instrumented_calls instrumented_def Let_def split: prod.split)

lemma accrues_asked: "accrues (w\<lparr>asked := n\<rparr>) w' \<Longrightarrow> accrues w w'"
  by (simp add: grows_def)

lemma failed_call:
  "fst (KV_DeleteTree api pre tags w) = Some er \<Longrightarrow> faults w < faults (snd (KV_DeleteTree api pre tags w))"
  "fst (ServiceDeregister api i w) = Some er \<Longrightarrow> faults w < faults (snd (ServiceDeregister api i w))"
  by (auto simp: instrumented_calls instrumented_def Let_def faults_def raised_def split: prod.splits)

section \<open>Deleting\<close>

lemma Delete_world:
  assumes el: "t_elector t = elector_of le"
  shows "accrues w (snd (Delete D t es w))" "leads (snd (Delete D t es w)) = leads w"
proof -
  let ?w1 = "(snd (ServiceDeregister (t_client t) (Id es) w))\<lparr>asked := Suc (asked w)\<rparr>"
  have a: "accrues w ?w1" by simp
  then have "accrues w (snd (KV_DeleteTree (t_client t) p g ?w1))" for p g by (rule grows_trans) simp
  then show "accrues w (snd (Delete D t es w))"
    using el a by (auto simp: Delete_def IsLeader_def Let_def case_prod_beta consul_simps split: sum.split)
  show "leads (snd (Delete D t es w)) = leads w"
    using el by (auto simp: Delete_def IsLeader_def Let_def case_prod_beta consul_simps split: sum.split)
qed

lemma Delete_fault:
  assumes el: "t_elector t = elector_of le" and key: "metadataPrefix D t es = Inr key"
    and d: "Delete D t es w = ((b, Some er), w')"
  shows "faults w < faults w'"
proof (cases "fst (ServiceDeregister (t_client t) (Id es) w)")
  case (Some er')
  then have "w' = snd (ServiceDeregister (t_client t) (Id es) w)"
    using d by (auto simp: Delete_def Let_def case_prod_beta split: if_splits)
  then show ?thesis using failed_call(2) [OF Some] by simp
next
  case None
  let ?w1 = "(snd (ServiceDeregister (t_client t) (Id es) w))\<lparr>asked := Suc (asked w)\<rparr>"
  have "fst (KV_DeleteTree (t_client t) key [''kv:metadata''] ?w1) = Some er"
    "w' = snd (KV_DeleteTree (t_client t) key [''kv:metadata''] ?w1)"
    using d None el key
    by (auto simp: Delete_def IsLeader_def Let_def case_prod_beta consul_simps split: if_splits)
  then show ?thesis using failed_call(1) [where w = ?w1] faults_accrues [of w ?w1] by fastforce
qed

text \<open>One \<open>Delete\<close> of the leader in which nothing fails.\<close>

lemma Delete_done:
  assumes ok: "consul_ok (t_client t) kvs svcs" and el: "t_elector t = elector_of le" and lead: "\<forall>n. leads w n"
    and key: "metadataPrefix D t es = Inr key" and d: "Delete D t es w = ((b, None), w')"
  shows "kvs (server w') k = (if prefix key k then None else kvs (server w) k)"
    and "svcs (server w') = (svcs (server w))(Id es := None)"
    and "\<forall>n. leads w' n"
proof -
  have "Delete D t es w = ((True, None), w')" using Delete_no_error [OF d] d by simp
  note l = Delete_leader [OF ok el lead [rule_format] key this]
  show "kvs (server w') k = (if prefix key k then None else kvs (server w) k)" by (rule l)
  show "svcs (server w') = (svcs (server w))(Id es := None)" by (rule l)
  show "\<forall>n. leads w' n" using Delete_world(2) [OF el, of D es w] d lead by simp
qed

definition under :: "(ExportedService \<Rightarrow> string) \<Rightarrow> ExportedService set \<Rightarrow> string \<Rightarrow> bool" where
  "under key_of ess k = (\<exists>es \<in> ess. prefix (key_of es) k)"

lemma under_simps [simp]:
  "\<not> under key_of {} k" "under key_of (insert es ess) k \<longleftrightarrow> prefix (key_of es) k \<or> under key_of ess k"
  by (auto simp: under_def)

lemma delete_loop_accrues:
  assumes "t_elector t = elector_of le"
  shows "accrues w (delete_loop (target_of D t) ess w)"
proof (induction ess arbitrary: w)
  case (Cons es ess)
  let ?d = "Delete D t es w"
  let ?w1 = "target_stat ''delete'' es (snd (fst ?d)) (snd ?d)"
  have "accrues w ?w1" by (rule grows_trans [OF Delete_world(1) [OF assms] target_stat_world(1)])
  then have "accrues w (delete_loop (target_of D t) ess ?w1)" by (rule grows_trans) (rule Cons.IH)
  then show ?case by (simp add: target_of_def case_prod_beta)
qed simp

lemma delete_loop_removes:
  assumes ok: "consul_ok (t_client t) kvs svcs" and el: "t_elector t = elector_of le" and lead: "\<forall>n. leads w n"
    and keys: "\<forall>es \<in> set ess. metadataPrefix D t es = Inr (key_of es)"
    and no_fail: "faults (delete_loop (target_of D t) ess w) = faults w"
  shows "(\<forall>k. kvs (server (delete_loop (target_of D t) ess w)) k =
      (if under key_of (set ess) k then None else kvs (server w) k)) \<and>
    svcs (server (delete_loop (target_of D t) ess w)) = svcs (server w) |` (- Id ` set ess) \<and>
    (\<forall>n. leads (delete_loop (target_of D t) ess w) n)"
  using lead keys no_fail
proof (induction ess arbitrary: w)
  case (Cons es ess)
  obtain b err w1 where d: "Delete D t es w = ((b, err), w1)" by (metis prod.exhaust)
  let ?w2 = "target_stat ''delete'' es err w1"
  have loop: "delete_loop (target_of D t) (es # ess) w = delete_loop (target_of D t) ess ?w2"
    by (simp add: target_of_def d)
  have "faults w \<le> faults w1" using faults_accrues [OF Delete_world(1) [OF el, of w D es]] d by simp
  moreover have "faults ?w2 \<le> faults (delete_loop (target_of D t) ess ?w2)"
    by (rule faults_accrues [OF delete_loop_accrues [OF el]])
  ultimately have err: "err = None" and rest: "faults (delete_loop (target_of D t) ess ?w2) = faults ?w2"
    using Cons.prems(3) faults_stat [of "''delete''" es err w1] unfolding loop by (auto split: if_splits)
  have key: "metadataPrefix D t es = Inr (key_of es)" using Cons.prems(2) by simp
  note gone = Delete_done [OF ok el Cons.prems(1) key d [unfolded err]]
  have "\<forall>n. leads ?w2 n" "\<forall>es \<in> set ess. metadataPrefix D t es = Inr (key_of es)"
    using gone(3) Cons.prems(2) by simp_all
  note ih = Cons.IH [OF this rest]
  show ?case unfolding loop using ih gone by (auto simp: restrict_map_def fun_eq_iff)
qed (simp add: restrict_map_def)

text \<open>The services that an update leaves without a successor.\<close>

lemma orphan_loop_accrues:
  assumes "t_elector t = elector_of le"
  shows "accrues w (orphan_loop (target_of D t) ids ess w)"
proof (induction ess arbitrary: w)
  case (Cons es ess)
  have "accrues w (orphan_loop (target_of D t) ids ess (snd (Delete D t es w)))"
    by (rule grows_trans [OF Delete_world(1) [OF assms]]) (rule Cons.IH)
  then show ?case using Cons.IH by (simp add: target_of_def)
qed simp

lemma orphan_loop_removes:
  assumes ok: "consul_ok (t_client t) kvs svcs" and el: "t_elector t = elector_of le" and lead: "\<forall>n. leads w n"
    and keys: "\<forall>es \<in> set ess. metadataPrefix D t es = Inr (key_of es)"
    and no_fail: "faults (orphan_loop (target_of D t) ids ess w) = faults w"
  shows "kvs (server (orphan_loop (target_of D t) ids ess w)) k =
      (if under key_of {es \<in> set ess. Id es \<notin> ids} k then None else kvs (server w) k)"
  using lead keys no_fail
proof (induction ess arbitrary: w)
  case (Cons es ess)
  have split: "{x \<in> set (es # ess). Id x \<notin> ids} =
      (if Id es \<in> ids then {x \<in> set ess. Id x \<notin> ids} else insert es {x \<in> set ess. Id x \<notin> ids})"
    by auto
  show ?case
  proof (cases "Id es \<in> ids")
    case False
    obtain b err w1 where d: "Delete D t es w = ((b, err), w1)" by (metis prod.exhaust)
    have loop: "orphan_loop (target_of D t) ids (es # ess) w = orphan_loop (target_of D t) ids ess w1"
      using False by (simp add: target_of_def d)
    have "faults w1 \<le> faults (orphan_loop (target_of D t) ids ess w1)"
      by (rule faults_accrues [OF orphan_loop_accrues [OF el]])
    moreover have "faults w \<le> faults w1" using faults_accrues [OF Delete_world(1) [OF el, of w D es]] d by simp
    moreover have key: "metadataPrefix D t es = Inr (key_of es)" using Cons.prems(2) by simp
    note Delete_fault [OF el key, of w b _ w1]
    ultimately have err: "err = None" and rest: "faults (orphan_loop (target_of D t) ids ess w1) = faults w1"
      using Cons.prems(3) d unfolding loop by (cases err, auto)
    note gone = Delete_done [OF ok el Cons.prems(1) key d [unfolded err]]
    have "\<forall>es \<in> set ess. metadataPrefix D t es = Inr (key_of es)" using Cons.prems(2) by simp
    note ih = Cons.IH [OF gone(3) this rest]
    show ?thesis unfolding loop split ih gone(1) using False by simp
  next
    case True
    then show ?thesis using Cons unfolding split by simp
  qed
qed simp

section \<open>Updating\<close>

lemma Update_world:
  assumes el: "t_elector t = elector_of le"
  shows "accrues w (snd (Update D t old_ptr es w))" "leads (snd (Update D t old_ptr es w)) = leads w"
proof -
  let ?w1 = "snd (Create D t es w)" and ?w2 = "snd (clean D t old_ptr es (snd (Create D t es w)))"
  have c: "accrues ?w1 ?w2 \<and> leads ?w2 = leads ?w1"
    using Delete_world(1) [OF el, of ?w1 D] Delete_world(2) [OF el, of D _ ?w1]
    by (auto simp: clean_def split: option.split)
  have u: "snd (Update D t old_ptr es w) = ?w1 \<or> snd (Update D t old_ptr es w) = ?w2"
    by (auto simp: Update_def Let_def case_prod_beta split: option.split)
  show "accrues w (snd (Update D t old_ptr es w))"
    using u Create_accrues [OF el, of w D es] c grows_trans by metis
  show "leads (snd (Update D t old_ptr es w)) = leads w" using u Create_leads [OF el, of D es w] c by auto
qed

text \<open>
  One \<open>Update\<close> of the leader in which nothing fails: the new key is up to date, and of a predecessor
  with another key nothing is left.
\<close>

definition replaced :: "(ExportedService \<Rightarrow> string) \<Rightarrow> ExportedService option \<Rightarrow> ExportedService \<Rightarrow> ExportedService set" where
  "replaced key_of old_ptr es = {old. old_ptr = Some old \<and> key_of old \<noteq> key_of es}"

lemma Update_done:
  assumes ok: "consul_ok (t_client t) kvs svcs" and cl: "reads_only (le_client le) kvs"
    and el: "t_elector t = elector_of le" and lead: "\<forall>n. leads w n" and re: "readable D es"
    and keys: "metadataPrefix D t es = Inr (key_of es)" "\<And>old. old_ptr = Some old \<Longrightarrow> metadataPrefix D t old = Inr (key_of old)"
    and u: "Update D t old_ptr es w = ((b, None), w')"
    and own: "\<not> under key_of (replaced key_of old_ptr es) (key_of es)"
  shows "\<exists>p. kvs (server w') (key_of es) = Some p \<and> up_to_date D es (kv_Value p)"
    and "k \<noteq> key_of es \<Longrightarrow> \<not> under key_of (replaced key_of old_ptr es) k \<Longrightarrow> kvs (server w') k = kvs (server w) k"
    and "\<forall>n. leads w' n"
proof -
  obtain c w1 where c: "Create D t es w = ((c, None), w1)" and n: "snd (fst (clean D t old_ptr es w1)) = None"
    and w': "w' = snd (clean D t old_ptr es w1)"
    using u by (auto simp: Update_def Let_def case_prod_beta split: option.splits) (metis prod.collapse)+
  have c': "Create D t es w = ((True, None), w1)" using Create_result [of D t es w] c by simp
  note stored = Create_stored [OF ok el cl lead [rule_format] re keys(1) c']
  have lead1: "\<forall>n. leads w1 n" using Create_leads [OF el, of D es w] c lead by simp
  have cleaned: "kvs (server w') k = (if under key_of (replaced key_of old_ptr es) k then None else kvs (server w1) k)" for k
  proof (cases "replaced key_of old_ptr es = {}")
    case True
    then have "w' = w1" using w' keys by (auto simp: clean_def replaced_def split: option.split)
    then show ?thesis using True by simp
  next
    case False
    then obtain old where old: "old_ptr = Some old" "key_of old \<noteq> key_of es" by (auto simp: replaced_def)
    then have r: "replaced key_of old_ptr es = {old}" by (auto simp: replaced_def)
    have "clean D t old_ptr es w1 = Delete D t old w1"
      using old keys(1) keys(2) [OF old(1)] by (simp add: clean_def or_empty_def)
    then obtain b' where "Delete D t old w1 = ((b', None), w')" using n w' by (metis prod.collapse)
    from Delete_done(1) [OF ok el lead1 keys(2) [OF old(1)] this] show ?thesis by (simp add: r)
  qed
  show "\<exists>p. kvs (server w') (key_of es) = Some p \<and> up_to_date D es (kv_Value p)"
    using stored own by (simp add: cleaned)
  show "kvs (server w') k = kvs (server w) k" if "k \<noteq> key_of es" "\<not> under key_of (replaced key_of old_ptr es) k"
    using stored that by (simp add: cleaned)
  show "\<forall>n. leads w' n" using Update_world(2) [OF el, of D old_ptr es w] u lead by simp
qed

lemma update_loop_world:
  assumes el: "t_elector t = elector_of le"
  shows "accrues w (snd (update_loop (target_of D t) olds n ess ids w))"
proof (induction ess arbitrary: ids w)
  case (Cons es ess)
  let ?u = "Update D t (oldES_of olds n es) es w"
  let ?w1 = "target_stat ''update'' es (snd (fst ?u)) (snd ?u)"
  have w1: "accrues w ?w1" by (rule grows_trans [OF Update_world(1) [OF el] target_stat_world(1)])
  then have "accrues w (snd (update_loop (target_of D t) olds n ess (insert (Id es) ids) ?w1))"
    by (rule grows_trans) (rule Cons.IH)
  then show ?case
    using w1 by (cases "snd (fst ?u)") (simp_all add: target_of_def case_prod_beta Let_def)
qed simp

text \<open>The predecessors that an update loop replaces.\<close>

definition moved :: "(ExportedService \<Rightarrow> string) \<Rightarrow> ExportedService list \<Rightarrow> nat \<Rightarrow> ExportedService list \<Rightarrow> ExportedService set" where
  "moved key_of olds n ess = (\<Union>es \<in> set ess. replaced key_of (oldES_of olds n es) es)"

lemma under_moved [simp]:
  "\<not> under key_of (moved key_of olds n []) k"
  "under key_of (moved key_of olds n (es # ess)) k \<longleftrightarrow>
     under key_of (replaced key_of (oldES_of olds n es) es) k \<or> under key_of (moved key_of olds n ess) k"
  by (auto simp: moved_def under_def)

lemma update_loop_stores:
  assumes ok: "consul_ok (t_client t) kvs svcs" and cl: "reads_only (le_client le) kvs"
    and el: "t_elector t = elector_of le" and lead: "\<forall>n. leads w n"
    and keys: "\<forall>es \<in> set ess. readable D es \<and> metadataPrefix D t es = Inr (key_of es)"
      "\<forall>old \<in> set olds. metadataPrefix D t old = Inr (key_of old)"
    and dist: "distinct (map key_of ess)"
    and own: "\<forall>es \<in> set ess. \<not> under key_of (moved key_of olds n ess) (key_of es)"
    and no_fail: "faults (snd (update_loop (target_of D t) olds n ess ids w)) = faults w"
  shows "fst (update_loop (target_of D t) olds n ess ids w) = (None, ids \<union> Id ` set ess) \<and>
    (\<forall>es \<in> set ess. \<exists>p. kvs (server (snd (update_loop (target_of D t) olds n ess ids w))) (key_of es) = Some p \<and>
       up_to_date D es (kv_Value p)) \<and>
    (\<forall>k. k \<notin> key_of ` set ess \<and> \<not> under key_of (moved key_of olds n ess) k \<longrightarrow>
       kvs (server (snd (update_loop (target_of D t) olds n ess ids w))) k = kvs (server w) k) \<and>
    (\<forall>m. leads (snd (update_loop (target_of D t) olds n ess ids w)) m)"
  using lead keys(1) dist own no_fail
proof (induction ess arbitrary: ids w)
  case (Cons es ess)
  obtain b err w1 where u: "Update D t (oldES_of olds n es) es w = ((b, err), w1)" by (metis prod.exhaust)
  let ?w2 = "target_stat ''update'' es err w1" and ?ids = "insert (Id es) ids"
  let ?done = "snd (update_loop (target_of D t) olds n (es # ess) ids w)"
  have "faults w \<le> faults w1" using faults_accrues [OF Update_world(1) [OF el, of w D _ es]] u by (metis snd_conv)
  moreover have "faults ?w2 \<le> faults ?done"
    using faults_accrues [OF update_loop_world [OF el, of ?w2 D olds n ess ?ids]] u
    by (cases err) (simp_all add: target_of_def Let_def)
  ultimately have err: "err = None" and w2: "faults ?w2 = faults ?done"
    using Cons.prems(5) faults_stat [of "''update''" es err w1] by (auto split: if_splits)
  have loop: "update_loop (target_of D t) olds n (es # ess) ids w = update_loop (target_of D t) olds n ess ?ids ?w2"
    using u err by (simp add: target_of_def)
  have es: "readable D es" "metadataPrefix D t es = Inr (key_of es)" using Cons.prems(2) by simp_all
  have old: "metadataPrefix D t old = Inr (key_of old)" if "oldES_of olds n es = Some old" for old
    using that keys(2) ct.oldES_of_mem by blast
  have "\<not> under key_of (replaced key_of (oldES_of olds n es) es) (key_of es)" using Cons.prems(4) by simp
  note one = Update_done [OF ok cl el Cons.prems(1) es old u [unfolded err] this]
  have "\<forall>m. leads ?w2 m" "\<forall>es \<in> set ess. readable D es \<and> metadataPrefix D t es = Inr (key_of es)"
    "distinct (map key_of ess)" "\<forall>es \<in> set ess. \<not> under key_of (moved key_of olds n ess) (key_of es)"
    using one(3) Cons.prems(2-4) by simp_all
  note ih = Cons.IH [OF this w2 [unfolded loop, symmetric]]
  have "kvs (server (snd (update_loop (target_of D t) olds n ess ?ids ?w2))) (key_of es) = kvs (server w1) (key_of es)"
    using ih Cons.prems(3,4) by simp
  then show ?case unfolding loop using ih one(1,2) by auto
qed simp

section \<open>From the handler to the store\<close>

lemma deleteService_eq:
  assumes "NewExportedServicesFromKubeService fl ix p c = Ret (Inr ess)" "handler_start ''delete'' w = (timing, w1)"
  shows "deleteService fl ix c T p w = Ret (emit timing (delete_loop T ess w1))"
  using assms by (simp add: deleteService_def)

lemma run_deleted:
  assumes sw: "pq_inv (sw_queue sw)" "pq_abs (sw_queue sw) = Map.empty"
    and obj: "deref obj = KService svc" "\<not> ignored sw svc" "MetaNamespaceKeyFunc (KService svc) = Inr key"
    and ex: "NewExportedServicesFromKubeService fl ix (Some svc) (sw_clusterId sw) = Ret (Inr ess)"
    and st: "handler_start ''delete'' w = (timing, w1)"
  shows "\<exists>sw'. runWorker fl M local (\<lambda>_. ix) T (Suc (Suc 0)) (DeleteFunc M obj sw) w =
      Ret (Some (sw', emit timing (delete_loop T ess w1))) \<and> pq_abs (sw_queue sw') = Map.empty"
proof -
  let ?ko = "NewKeyOp key obj DeleteOp" and ?w2 = "emit timing (delete_loop T ess w1)"
  have "DeleteFunc M obj sw = enqueue M ?ko sw" using obj by (simp add: DeleteFunc_def)
  moreover have "dispatch fl ix T ?ko None (sw\<lparr>sw_queue := q\<rparr>) w = Ret (True, sw\<lparr>sw_queue := q\<rparr>, ?w2)" for q
    using deleteService_eq [OF ex st] obj(1) by (cases obj) (simp add: dispatch_def NewKeyOp_def)
  moreover have "ko_Operation ?ko = DeleteOp" by (simp add: NewKeyOp_def)
  ultimately obtain q where "runWorker fl M local (\<lambda>_. ix) T (Suc (Suc 0)) (DeleteFunc M obj sw) w =
      Ret (Some (sw\<lparr>sw_queue := q\<rparr>, ?w2))" "pq_abs q = Map.empty"
    using run_single [OF sw, of ?ko ix svc fl T w True sw ?w2 M local] by auto
  then show ?thesis by auto
qed

text \<open>What an update does before its loops: a Service that is not exported any more is deleted.\<close>

definition unexported ::
  "'x env_scheme ExportTarget \<Rightarrow> bool \<Rightarrow> ExportedService list \<Rightarrow> 'x env_scheme \<Rightarrow> 'x env_scheme" where
  "unexported T exportable olds e =
     (if exportable then e
      else let (timing, e) = handler_start ''delete'' e in emit timing (delete_loop T olds e))"

definition updated_world ::
  "'x env_scheme ExportTarget \<Rightarrow> bool \<Rightarrow> ExportedService list \<Rightarrow> ExportedService list \<Rightarrow> 'x env_scheme \<Rightarrow>
   go_error option \<times> 'x env_scheme" where
  "updated_world T exportable olds news e =
     (case update_loop T olds (length news) news {} (unexported T exportable olds e) of
        ((Some err, _), e) \<Rightarrow> (Some err, e)
      | ((None, ids), e) \<Rightarrow> (None, orphan_loop T ids olds e))"

lemma updateService_eq:
  assumes ex: "IsExportableService (Some svc) = Ret b"
    "NewExportedServicesFromKubeService fl ix (Some old) c = Ret (Inr olds)"
    "NewExportedServicesFromKubeService fl ix (Some svc) c = Ret (Inr news)"
    and st: "handler_start ''update'' w = (timing, w1)"
  shows "updateService fl ix c T (Some old) (Some svc) w =
    Ret (fst (updated_world T b olds news w1), emit timing (snd (updated_world T b olds news w1)))"
proof -
  obtain t2 w2 where d: "handler_start ''delete'' w1 = (t2, w2)" by fastforce
  have "(if b then Ret w1 else deleteService fl ix c T (Some old) w1) = Ret (unexported T b olds w1)"
    using deleteService_eq [OF ex(2) d] d by (simp add: unexported_def)
  then show ?thesis
    using ex st
    by (cases b; cases "fst (fst (update_loop T olds (length news) news {} (unexported T b olds w1)))")
      (auto simp: updateService_def updated_world_def list_of_def split: prod.splits)
qed

lemma run_updated:
  assumes sw: "pq_inv (sw_queue sw)" "pq_abs (sw_queue sw) = Map.empty"
    and obj: "deref oldObj = KService old" "deref obj = KService svc" "\<not> ignored sw old"
      "MetaNamespaceKeyFunc (KService svc) = Inr key"
    and ix: "ix key = Inr (Some (KService svc))"
    and ex: "IsExportableService (Some svc) = Ret b"
      "NewExportedServicesFromKubeService fl ix (Some old) (sw_clusterId sw) = Ret (Inr olds)"
      "NewExportedServicesFromKubeService fl ix (Some svc) (sw_clusterId sw) = Ret (Inr news)"
    and st: "handler_start ''update'' w = (timing, w1)"
  shows "\<exists>sw'. runWorker fl M local (\<lambda>_. ix) T (Suc (Suc 0)) (UpdateFunc M oldObj obj sw) w =
      Ret (Some (sw', emit timing (snd (updated_world T b olds news w1)))) \<and> pq_abs (sw_queue sw') = Map.empty"
proof -
  let ?ko = "NewKeyOp key obj UpdateOp" and ?sw = "sw\<lparr>cacheOlds := (cacheOlds sw)(key \<mapsto> old)\<rparr>"
  let ?u = "updated_world T b olds news w1"
  let ?sw1 = "if fst ?u = None then ?sw\<lparr>cacheOlds := (cacheOlds sw)(key := None)\<rparr> else ?sw"
  have "UpdateFunc M oldObj obj sw = enqueue M ?ko ?sw" using obj by (simp add: UpdateFunc_def)
  moreover have "dispatch fl ix T ?ko (Some svc) (?sw\<lparr>sw_queue := q\<rparr>) w =
      Ret (fst ?u = None, ?sw1\<lparr>sw_queue := q\<rparr>, emit timing (snd ?u))" for q
    using updateService_eq [OF ex st, of T] by (simp add: dispatch_def NewKeyOp_def)
  moreover have "ko_Operation ?ko = UpdateOp" "ko_Key ?ko = key" by (simp_all add: NewKeyOp_def)
  moreover have "pq_inv (sw_queue ?sw)" "pq_abs (sw_queue ?sw) = Map.empty" using sw by simp_all
  ultimately obtain q where "runWorker fl M local (\<lambda>_. ix) T (Suc (Suc 0)) (UpdateFunc M oldObj obj sw) w =
      Ret (Some (?sw1\<lparr>sw_queue := q\<rparr>, emit timing (snd ?u)))" "pq_abs q = Map.empty"
    using run_single [of ?sw ?ko ix svc fl T w "fst ?u = None" ?sw1 "emit timing (snd ?u)" M local] ix by auto
  then show ?thesis by auto
qed

text \<open>
  The services that an update leaves without a successor, and the condition under which neither their
  keys nor those of a replaced service reach into the key of a new one.
\<close>

definition orphans :: "ExportedService list \<Rightarrow> ExportedService list \<Rightarrow> ExportedService set" where
  "orphans olds news = {x \<in> set olds. Id x \<notin> Id ` set news}"

definition keys_apart :: "(ExportedService \<Rightarrow> string) \<Rightarrow> ExportedService list \<Rightarrow> ExportedService list \<Rightarrow> bool" where
  "keys_apart key_of olds news =
     (\<forall>x \<in> set olds. \<forall>y \<in> set news. prefix (key_of x) (key_of y) \<or> Id x = Id y \<longrightarrow> Id x = Id y \<and> key_of x = key_of y)"

lemma moved_orphans:
  assumes "keys_apart key_of olds news"
  shows "moved key_of olds (length news) news \<subseteq> orphans olds news"
proof
  fix x assume "x \<in> moved key_of olds (length news) news"
  then obtain es where es: "es \<in> set news" "oldES_of olds (length news) es = Some x" "key_of x \<noteq> key_of es"
    by (auto simp: moved_def replaced_def)
  have x: "x \<in> set olds" by (rule ct.oldES_of_mem [OF es(2)])
  have ne: "Id x \<noteq> Id es" using assms es(1,3) x unfolding keys_apart_def by blast
  have m: "matchingExportedService l es = Some y \<Longrightarrow> Id y = Id es" for l y
    by (induction l) (auto split: if_splits)
  then have "matchingExportedService olds es = None"
    using es(2) ne by (auto simp: oldES_of_def Let_def split: if_splits)
  then have "length news = 1" using es(2) by (auto simp: oldES_of_def Let_def split: if_splits)
  then have "set news = {es}" using es(1) by (auto simp: length_Suc_conv)
  then show "x \<in> orphans olds news" using x ne by (simp add: orphans_def)
qed

lemma orphans_apart:
  assumes "keys_apart key_of olds news" "y \<in> set news"
  shows "\<not> under key_of (orphans olds news) (key_of y)"
  using assms unfolding keys_apart_def orphans_def under_def by blast

lemma under_mono: "under key_of A k \<Longrightarrow> A \<subseteq> B \<Longrightarrow> under key_of B k"
  by (auto simp: under_def)

text \<open>The world before the loops, and the one after them.\<close>

lemma unexported_ok:
  assumes ok: "consul_ok (t_client t) kvs svcs" and el: "t_elector t = elector_of le" and lead: "\<forall>n. leads w n"
    and keys: "\<forall>old \<in> set olds. metadataPrefix D t old = Inr (key_of old)"
  shows "accrues w (unexported (target_of D t) b olds w)"
    "faults (unexported (target_of D t) b olds w) = faults w \<Longrightarrow> (\<forall>n. leads (unexported (target_of D t) b olds w) n) \<and>
       (\<forall>k. kvs (server (unexported (target_of D t) b olds w)) k =
          (if \<not> b \<and> under key_of (set olds) k then None else kvs (server w) k))"
proof -
  obtain m w1 where st: "handler_start ''delete'' w = (m, w1)" by fastforce
  note h = handler_start_world [OF st]
  have s: "server (emit m e) = server e" "leads (emit m e) = leads e" "accrues e (emit m e)" for e :: "'a world"
    by (simp_all add: emit_def grows_def)
  have f: "faults (emit m e) = faults e" for e :: "'a world" using h(4) by auto
  have a: "accrues w w1"
    using st by (auto simp: handler_start_def time_Since_def time_Now_def Let_def grows_def emit_def)
  show "accrues w (unexported (target_of D t) b olds w)"
    using grows_trans [OF grows_trans [OF a delete_loop_accrues [OF el]] s(3)] st by (simp add: unexported_def)
  show "(\<forall>n. leads (unexported (target_of D t) b olds w) n) \<and>
       (\<forall>k. kvs (server (unexported (target_of D t) b olds w)) k =
          (if \<not> b \<and> under key_of (set olds) k then None else kvs (server w) k))"
    if nf: "faults (unexported (target_of D t) b olds w) = faults w"
  proof (cases b)
    case False
    have "\<forall>n. leads w1 n" using lead h(1) by simp
    moreover have "faults (delete_loop (target_of D t) olds w1) = faults w1"
      using nf False st f faults_start [OF st] by (simp add: unexported_def)
    ultimately show ?thesis
      using delete_loop_removes [OF ok el _ keys, of w1] False st s h(2) by (simp add: unexported_def)
  qed (use lead in \<open>simp add: unexported_def\<close>)
qed

lemma updated_world_stores:
  assumes ok: "consul_ok (t_client t) kvs svcs" and cl: "reads_only (le_client le) kvs"
    and el: "t_elector t = elector_of le" and lead: "\<forall>n. leads w n"
    and keys: "\<forall>es \<in> set news. readable D es \<and> metadataPrefix D t es = Inr (key_of es)"
      "\<forall>old \<in> set olds. metadataPrefix D t old = Inr (key_of old)"
    and dist: "distinct (map key_of news)" and apart: "keys_apart key_of olds news" and b: "b \<or> news = []"
    and no_fail: "faults (snd (updated_world (target_of D t) b olds news w)) = faults w"
  shows "(\<forall>es \<in> set news. \<exists>p. kvs (server (snd (updated_world (target_of D t) b olds news w))) (key_of es) = Some p \<and>
       up_to_date D es (kv_Value p)) \<and>
    (\<forall>k. k \<notin> key_of ` set news \<longrightarrow> kvs (server (snd (updated_world (target_of D t) b olds news w))) k =
       (if under key_of (orphans olds news) k then None else kvs (server w) k))"
proof -
  let ?T = "target_of D t"
  let ?w1 = "unexported ?T b olds w"
  let ?u = "update_loop ?T olds (length news) news {} ?w1"
  let ?w3 = "snd (updated_world ?T b olds news w)"
  have w3: "?w3 = (if fst (fst ?u) = None then orphan_loop ?T (snd (fst ?u)) olds (snd ?u) else snd ?u)"
    by (cases "fst (fst ?u)") (auto simp: updated_world_def split: prod.splits)
  note pre = unexported_ok [OF ok el lead keys(2)]
  have f1: "faults w \<le> faults ?w1" by (rule faults_accrues [OF pre(1)])
  have f2: "faults ?w1 \<le> faults (snd ?u)" by (rule faults_accrues [OF update_loop_world [OF el]])
  have f3: "faults (snd ?u) \<le> faults ?w3" using faults_accrues [OF orphan_loop_accrues [OF el]] by (simp add: w3)
  note p = pre(2) [of b]
  have w1: "\<forall>n. leads ?w1 n" and k1: "\<And>k. kvs (server ?w1) k = (if \<not> b \<and> under key_of (set olds) k then None else kvs (server w) k)"
    using p f1 f2 f3 no_fail by auto
  have own: "\<forall>es \<in> set news. \<not> under key_of (moved key_of olds (length news) news) (key_of es)"
    using orphans_apart [OF apart] under_mono [OF _ moved_orphans [OF apart]] by blast
  have "faults (snd ?u) = faults ?w1" using f1 f2 f3 no_fail by simp
  note loop = update_loop_stores [OF ok cl el w1 keys dist own this]
  have w3': "?w3 = orphan_loop ?T (Id ` set news) olds (snd ?u)" using loop w3 by simp
  have lead2: "\<forall>n. leads (snd ?u) n" using loop by simp
  have "faults (orphan_loop ?T (Id ` set news) olds (snd ?u)) = faults (snd ?u)" using f1 f2 f3 no_fail w3' by simp
  note gone = orphan_loop_removes [OF ok el lead2 keys(2) this, folded w3' orphans_def]
  have all: "under key_of (orphans olds news) k" if "\<not> b" "under key_of (set olds) k" for k
    using that b by (simp add: orphans_def)
  have "kvs (server (snd ?u)) k = kvs (server w) k" if "k \<notin> key_of ` set news" "\<not> under key_of (orphans olds news) k" for k
  proof -
    have "\<not> under key_of (moved key_of olds (length news) news) k"
      using that(2) under_mono [OF _ moved_orphans [OF apart]] by blast
    then have "kvs (server (snd ?u)) k = kvs (server ?w1) k" using loop that(1) by blast
    then show ?thesis using k1 [of k] all that(2) by auto
  qed
  then show ?thesis using loop orphans_apart [OF apart] by (auto simp: gone)
qed

section \<open>Properties of updates and deletions\<close>

text \<open>C4: a Service that the informer deletes is removed. When the handler queues the deletion on the
  empty queue of a process that leads, the worker gets through it, whether or not the Service is
  still in the cache; and if no failed call is counted, then no key is left under the metadata key
  of any of its exported services, the agent knows none of their Ids, and nothing else has changed.\<close>

theorem deleted_service_is_removed:
  assumes "consul_ok (t_client t) kvs svcs" "t_elector t = elector_of le" "\<forall>n. leads w n"
    "pq_inv (sw_queue sw)" "pq_abs (sw_queue sw) = Map.empty"
    "deref obj = KService svc" "\<not> ignored sw svc" "MetaNamespaceKeyFunc (KService svc) = Inr key"
    "NewExportedServicesFromKubeService fl ix (Some svc) (sw_clusterId sw) = Ret (Inr ess)"
    "\<forall>es \<in> set ess. metadataPrefix D t es = Inr (key_of es)"
  shows "\<exists>sw' w'. runWorker fl M local (\<lambda>_. ix) (target_of D t) (Suc (Suc 0)) (DeleteFunc M obj sw) w = Ret (Some (sw', w')) \<and>
    pq_abs (sw_queue sw') = Map.empty \<and>
    (faults w' = faults w \<longrightarrow>
       (\<forall>k. kvs (server w') k = (if \<exists>es \<in> set ess. prefix (key_of es) k then None else kvs (server w) k)) \<and>
       svcs (server w') = svcs (server w) |` (- Id ` set ess))"
proof -
  obtain timing w1 where st: "handler_start ''delete'' w = (timing, w1)" by fastforce
  note h = handler_start_world [OF st]
  let ?w2 = "delete_loop (target_of D t) ess w1"
  obtain sw' where run: "runWorker fl M local (\<lambda>_. ix) (target_of D t) (Suc (Suc 0)) (DeleteFunc M obj sw) w =
      Ret (Some (sw', emit timing ?w2))" "pq_abs (sw_queue sw') = Map.empty"
    using run_deleted [where fl = fl and M = M and local = local and T = "target_of D t", OF assms(4-9) st] by blast
  have "\<forall>n. leads w1 n" using assms(3) h(1) by simp
  note gone = delete_loop_removes [OF assms(1,2) this assms(10)]
  have f: "faults (emit timing ?w2) = faults ?w2" using h(4) by auto
  have s: "server (emit timing ?w2) = server ?w2" by (simp add: emit_def)
  show ?thesis
    by (rule exI [of _ sw'], rule exI [of _ "emit timing ?w2"])
      (use run f s gone h(2) faults_start [OF st] in \<open>simp add: under_def\<close>)
qed

text \<open>On the Consul in memory nothing fails.\<close>

abbreviation faultless :: "metric \<Rightarrow> bool" where
  "faultless m \<equiv> (\<forall>tags. m \<noteq> Incr ''target.service.fail'' tags \<and> m \<noteq> Incr ''consul.kv.fail'' tags \<and>
     m \<noteq> Incr ''consul.service.fail'' tags)"

lemma faults_same: "grows emitted faultless e e' \<Longrightarrow> faults e' = faults e"
  by (auto simp: grows_def faults_def raised_def list_all_iff)

interpretation memory: reporting faultless demo_deps demo_target demo_elector
  by unfold_locales
    (auto simp: grows_def instrumented_calls instrumented_def Let_def memory_api_def err_of_def split: prod.split)

lemma demo_Delete_faultless: "\<exists>w'. Delete demo_deps demo_target es w = ((True, None), w') \<and> faults w' = faults w"
proof -
  have "grows emitted faultless w (snd (Delete demo_deps demo_target es w))"
    by (auto simp: Delete_def Let_def case_prod_beta instrumented_calls instrumented_def grows_def IsLeader_def
        demo_prefix memory_api_def split: prod.split)
  then show ?thesis using demo_Delete [of es w] faults_same by fastforce
qed

text \<open>The demo Service in a watcher, and the key of what it exports.\<close>

definition demo_key :: "ExportedService \<Rightarrow> string" where
  "demo_key es = ''kse/services/'' @ Id es @ ''/clusters/'' @ ClusterId es"

definition demo_sw :: "unit ServiceWatcher" where
  "demo_sw = NewServiceWatcher [] ''c1'' ()"

lemma demo_sw_facts:
  "pq_inv (sw_queue demo_sw)" "pq_abs (sw_queue demo_sw) = Map.empty" "\<not> ignored demo_sw svc" "sw_clusterId demo_sw = ''c1''"
  by (simp_all add: demo_sw_def NewServiceWatcher_def New_inv New_abs ignored_def)

lemma demo_facts2:
  "MetaNamespaceKeyFunc (KService demo_service) = Inr ''default/web''"
  "NewExportedServicesFromKubeService Some ix (Some demo_service) (sw_clusterId demo_sw) = Ret (Inr [demo_es])"
  "\<forall>es \<in> set [demo_es]. metadataPrefix demo_deps demo_target es = Inr (demo_key es)"
  "\<forall>n. leads (memory_world kv True) n"
  unfolding demo_sw_facts(4) by (simp add: demo_service_def, rule demo_export_any, simp_all add: demo_prefix demo_key_def memory_world_def)

definition stale_pair :: KVPair where
  "stale_pair = \<lparr>kv_Key = demo_key demo_es, kv_Value = ''{}'', kv_Session = []\<rparr>"

theorem deleted_service_is_removed_witness:
  "\<exists>sw w. runWorker Some no_metrics 0 (\<lambda>_ _. Inr None) (target_of demo_deps demo_target) (Suc (Suc 0))
       (DeleteFunc no_metrics (Ref 0 (KService demo_service)) demo_sw) (memory_world [demo_key demo_es \<mapsto> stale_pair] True) =
       Ret (Some (sw, w)) \<and> fst (server w) = Map.empty"
proof -
  let ?w = "memory_world [demo_key demo_es \<mapsto> stale_pair] True" and ?T = "target_of demo_deps demo_target"
  let ?ix = "\<lambda>_. Inr None :: kobject option result" and ?obj = "Ref 0 (KService demo_service)"
  obtain timing w1 where st: "handler_start ''delete'' ?w = (timing, w1)" by fastforce
  obtain w2 where d: "Delete demo_deps demo_target demo_es w1 = ((True, None), w2)" "faults w2 = faults w1"
    using demo_Delete_faultless by blast
  have obj: "deref ?obj = KService demo_service" by simp
  have "faults (emit timing (delete_loop ?T [demo_es] w1)) = faults ?w"
    using d handler_start_world(4) [OF st] faults_start [OF st] by (auto simp: target_of_def faults_stat)
  then obtain sw' w' where run: "runWorker Some no_metrics 0 (\<lambda>_. ?ix) ?T (Suc (Suc 0)) (DeleteFunc no_metrics ?obj demo_sw) ?w =
      Ret (Some (sw', w'))" "faults w' = faults ?w"
    using run_deleted [where fl = Some and M = no_metrics and local = 0 and T = ?T,
        OF demo_sw_facts(1,2) obj demo_sw_facts(3) demo_facts2(1,2) st] by blast
  note deleted_service_is_removed [where M = no_metrics and local = 0 and kvs = fst and svcs = snd and le = demo_elector and t = demo_target
        and ix = ?ix and w = ?w,
      OF _ _ demo_facts2(4) demo_sw_facts(1,2) obj demo_sw_facts(3) demo_facts2(1,2,3)]
  from this
  have "fst (server w') k = (if prefix (demo_key demo_es) k then None else fst (server ?w) k)" for k
    using run memory_ok by (simp del: runWorker.simps)
  then have "fst (server w') = Map.empty" by (auto simp: memory_world_def fun_eq_iff)
  then show ?thesis using run(1) by blast
qed

text \<open>C3: an update of a Service is carried out. When the handler queues it on the empty queue of a
  process that leads, the worker gets through it; and if no failed call is counted, then every
  exported service of the new version is up to date in Consul, no key is left under the metadata
  key of a service that only the old version exported (all of them if the new one is not exported
  at all), and nothing else has changed. The keys of old and new services must not reach into each
  other.\<close>

theorem updated_service_is_stored:
  assumes "consul_ok (t_client t) kvs svcs" "reads_only (le_client le) kvs" "t_elector t = elector_of le"
    "\<forall>n. leads w n"
    "pq_inv (sw_queue sw)" "pq_abs (sw_queue sw) = Map.empty"
    "deref oldObj = KService old" "deref obj = KService svc" "\<not> ignored sw old"
    "MetaNamespaceKeyFunc (KService svc) = Inr key" "ix key = Inr (Some (KService svc))"
    "NewExportedServicesFromKubeService fl ix (Some old) (sw_clusterId sw) = Ret (Inr olds)"
    "NewExportedServicesFromKubeService fl ix (Some svc) (sw_clusterId sw) = Ret (Inr news)"
    "\<forall>es \<in> set news. readable D es \<and> metadataPrefix D t es = Inr (key_of es)"
    "\<forall>es \<in> set olds. metadataPrefix D t es = Inr (key_of es)"
    "distinct (map key_of news)" "keys_apart key_of olds news"
  shows "\<exists>sw' w'. runWorker fl M local (\<lambda>_. ix) (target_of D t) (Suc (Suc 0)) (UpdateFunc M oldObj obj sw) w =
      Ret (Some (sw', w')) \<and> pq_abs (sw_queue sw') = Map.empty \<and>
    (faults w' = faults w \<longrightarrow>
       (\<forall>es \<in> set news. \<exists>p. kvs (server w') (key_of es) = Some p \<and> up_to_date D es (kv_Value p)) \<and>
       (\<forall>k. k \<notin> key_of ` set news \<longrightarrow> kvs (server w') k =
          (if \<exists>es \<in> set olds. Id es \<notin> Id ` set news \<and> prefix (key_of es) k then None else kvs (server w) k)))"
proof -
  obtain timing w1 where st: "handler_start ''update'' w = (timing, w1)" by fastforce
  note h = handler_start_world [OF st]
  have u: "under key_of (orphans olds news) k \<longleftrightarrow> (\<exists>es \<in> set olds. Id es \<notin> Id ` set news \<and> prefix (key_of es) k)" for k
    by (auto simp: under_def orphans_def)
  obtain b where b: "IsExportableService (Some svc) = Ret b" by (auto simp: IsExportableService_def)
  then have none: "b \<or> news = []" using assms(13) by (cases b) (simp_all add: NewExportedServicesFromKubeService_def)
  let ?w2 = "snd (updated_world (target_of D t) b olds news w1)"
  obtain sw' where run: "runWorker fl M local (\<lambda>_. ix) (target_of D t) (Suc (Suc 0)) (UpdateFunc M oldObj obj sw) w =
      Ret (Some (sw', emit timing ?w2))" "pq_abs (sw_queue sw') = Map.empty"
    using run_updated [where fl = fl and M = M and local = local and T = "target_of D t",
        OF assms(5-11) b assms(12,13) st] by blast
  have "\<forall>n. leads w1 n" using assms(4) h(1) by simp
  note stores = updated_world_stores [OF assms(1-3) this assms(14-17) none, unfolded u]
  have f: "faults (emit timing ?w2) = faults ?w2" using h(4) by auto
  have s: "server (emit timing ?w2) = server ?w2" by (simp add: emit_def)
  have "faults ?w2 = faults w1" if "faults (emit timing ?w2) = faults w"
    using that f faults_start [OF st] by simp
  note stored = stores [OF this, unfolded h(2), folded s]
  show ?thesis
    by (intro exI [of _ sw'] exI [of _ "emit timing ?w2"] conjI impI run stored [THEN conjunct1] stored [THEN conjunct2])
qed

theorem updated_service_is_stored_witness:
  "\<exists>sw w p. runWorker Some no_metrics 0 (\<lambda>_ _. Inr (Some (KService demo_service))) (target_of demo_deps demo_target) (Suc (Suc 0))
       (UpdateFunc no_metrics (Ref 0 (KService demo_service)) (Ref 1 (KService demo_service)) demo_sw) (memory_world demo_kv True) =
       Ret (Some (sw, w)) \<and> fst (server w) (demo_key demo_es) = Some p \<and> up_to_date demo_deps demo_es (kv_Value p)"
proof -
  let ?w = "memory_world demo_kv True" and ?T = "target_of demo_deps demo_target"
  let ?ix = "\<lambda>_. Inr (Some (KService demo_service)) :: kobject option result"
  let ?old = "Ref 0 (KService demo_service)" and ?obj = "Ref 1 (KService demo_service)"
  obtain timing w1 where st: "handler_start ''update'' ?w = (timing, w1)" by fastforce
  note h = handler_start_world [OF st]
  have "coins w1 = coins ?w"
    using st by (auto simp: handler_start_def time_Since_def time_Now_def Let_def emit_def)
  then obtain w2 where c: "Create demo_deps demo_target demo_es w1 = ((True, None), w2)"
    using demo_Create_from [of w1] h(1,2) by (auto simp: memory_world_def)
  have f: "faults w2 = faults w1" using faults_same [OF memory.Create_reports [of w1 demo_es]] c by simp
  have u: "Update demo_deps demo_target (Some demo_es) demo_es w1 = ((True, None), w2)"
    using c by (simp add: Update_def clean_def)
  have obj: "deref ?old = KService demo_service" "deref ?obj = KService demo_service" "?ix ''default/web'' = Inr (Some (KService demo_service))"
    by simp_all
  let ?u = "snd (updated_world ?T True [demo_es] [demo_es] w1)"
  have "?u = target_stat ''update'' demo_es None w2"
    using u by (simp add: updated_world_def unexported_def target_of_def oldES_of_def Let_def)
  then have "faults (emit timing ?u) = faults ?w"
    using f h(4) faults_start [OF st] by (auto simp: faults_stat)
  then obtain sw' w' where run: "runWorker Some no_metrics 0 (\<lambda>_. ?ix) ?T (Suc (Suc 0)) (UpdateFunc no_metrics ?old ?obj demo_sw) ?w =
      Ret (Some (sw', w'))" "faults w' = faults ?w"
    using run_updated [where fl = Some and M = no_metrics and local = 0 and T = ?T and ix = ?ix,
        OF demo_sw_facts(1,2) obj(1,2) demo_sw_facts(3) demo_facts2(1) obj(3) demo_exportable demo_facts2(2,2) st] by blast
  have es: "\<forall>es \<in> set [demo_es]. readable demo_deps es \<and> metadataPrefix demo_deps demo_target es = Inr (demo_key es)"
    using demo_readable demo_facts2(3) by simp
  have "distinct (map demo_key [demo_es])" "keys_apart demo_key [demo_es] [demo_es]"
    by (simp_all add: keys_apart_def)
  note updated_service_is_stored [where M = no_metrics and local = 0 and kvs = fst and svcs = snd and le = demo_elector
        and t = demo_target and ix = ?ix and w = ?w,
      OF _ _ _ demo_facts2(4) demo_sw_facts(1,2) obj(1,2) demo_sw_facts(3) demo_facts2(1) obj(3) demo_facts2(2,2) es demo_facts2(3) this]
  from this have "\<exists>p. fst (server w') (demo_key demo_es) = Some p \<and> up_to_date demo_deps demo_es (kv_Value p)"
    using run memory_ok memory_reads by (simp del: runWorker.simps)
  then show ?thesis using run(1) by blast
qed

section \<open>A node event\<close>

text \<open>What only reports metrics and reads the clock leaves the rest of the world alone.\<close>

abbreviation aside :: "'x env_scheme \<Rightarrow> 'x env_scheme \<Rightarrow> bool" where
  "aside e e' \<equiv> env.more e' = env.more e \<and> grows emitted faultless e e'"

lemma aside_trans: "aside e e' \<Longrightarrow> aside e' e'' \<Longrightarrow> aside e e''"
  by (auto intro: grows_trans)

lemma aside_env [simp]: "faultless m \<Longrightarrow> aside e (emit m e)" "aside e (e\<lparr>reads := n\<rparr>)"
  by (simp_all add: emit_def grows_def)

lemma aside_world: "aside w w' \<Longrightarrow> server w' = server w \<and> leads w' = leads w \<and> asked w' = asked w"
  by (cases w; cases w') simp

lemma aside_queue:
  "aside (snd s) (snd (q_AddAfter (handler_queue bucket) item d s))"
  "aside (snd s) (snd (q_Forget (handler_queue bucket) item s))"
  "aside (snd s) (snd (q_Done (handler_queue bucket) item s))"
  by (cases s; simp add: handler_queue_def as_queue_def dqs_AddAfter_def dqs_Forget_def dqs_Done_def dqs_incr_def
      dqs_length_def Let_def case_prod_beta emit_def grows_def NewDelayingQueueStatsd_def dqs_metric_def)+

lemma aside_on_queue:
  assumes "\<And>s. aside (snd s) (snd (f s))"
  shows "aside e (snd (on_queue f nw e))"
  using assms [of "(nw_queue nw, e)"] by (simp add: on_queue_def Let_def case_prod_beta)

lemma handler_queue_Get_aside:
  assumes "wq_queue (nw_queue nw) = item # rest"
  shows "\<exists>q e1. q_Get (handler_queue bucket) (nw_queue nw, e) = (Got item, q, e1) \<and> clock e1 = clock e \<and> aside e e1"
  using assms
  by (simp add: handler_queue_def as_queue_def dqs_Get_def NewDelayingQueueStatsd_def NewRateLimitingQueue_def
      wq_Get_def dqs_length_def wq_Len_def dqs_incr_def dqs_metric_def emit_def grows_def)

text \<open>
  What processing an operation for a stored node comes to: one \<open>WriteNodes\<close> for the chosen nodes, in
  a world that only differs by metrics and clock readings, and nothing else after it.
\<close>

lemma node_item_run:
  assumes hd: "wq_queue (nw_queue nw) = Val ko # rest" and add: "ko_Operation ko \<noteq> DeleteOp"
      "GetByKey st (ko_Key ko) = Inr (Some (SNode node))"
    and st: "steady st now (Selectors nw) (clock e)"
    and sel: "list_all (selector_ok st) (gets_to st now (MinCount nw) (Selectors nw))"
  shows "\<exists>nw' e1 e'. nw_processNextItem (handler_queue bucket) st T nw e = Ret (Some True, nw', e') \<and> aside e e1 \<and>
    aside (snd (tgt_WriteNodes T (chosen st now (MinCount nw) (Selectors nw)) e1)) e'"
proof -
  let ?Q = "handler_queue bucket" and ?nodes = "chosen st now (MinCount nw) (Selectors nw)"
  obtain q w1 where get: "q_Get ?Q (nw_queue nw, e) = (Got (Val ko), q, w1)" and w1: "clock w1 = clock e" "aside e w1"
    using handler_queue_Get_aside [OF hd, of bucket e] by blast
  let ?nw = "nw\<lparr>nw_queue := q\<rparr>" and ?e = "emit (Incr ''kubernetes.node_handler'' [handler_tag (ko_Operation ko)]) w1"
  have e: "aside e ?e" by (rule aside_trans [OF w1(2) aside_env(1)]) simp
  have "steady st now (Selectors ?nw) (clock ?e)" using st w1(1) by simp
  note exportNodes_eq [OF this, of T]
  then obtain nw2 e1 where ex: "exportNodes st T ?nw ?e = Ret (nw2, snd (tgt_WriteNodes T ?nodes e1))"
    and e1: "emitted e1 = emitted ?e @ map (node_gauge (last_tried st now (MinCount nw) (Selectors nw))) ?nodes"
      "env.more e1 = env.more ?e"
    using sel by auto
  have "aside ?e e1" using e1 by (simp add: grows_def list_all_iff node_gauge_def)
  with e have before: "aside e e1" by (rule aside_trans)
  let ?w2 = "snd (tgt_WriteNodes T ?nodes e1)"
  let ?e2 = "?w2\<lparr>reads := Suc (reads ?w2)\<rparr>" and ?after = "Sub (the (grace_until node)) (clock ?w2 (reads ?w2))"
  let ?f = "if in_grace (clock ?w2 (reads ?w2)) node \<and> 0 < ?after then q_AddAfter ?Q (Val ko) ?after else q_Forget ?Q (Val ko)"
  have fin: "nw_finish ?Q st T ko (Some node) ?nw w1 = Ret (on_queue ?f nw2 ?e2)"
    using ex by (simp add: nw_finish_def nw_dispatch_def time_Now_def ShouldInclude_eq)
  have "aside (snd s) (snd (?f s))" for s
    using aside_queue(1) [where s = s and bucket = bucket and item = "Val ko" and d = ?after]
      aside_queue(2) [where s = s and bucket = bucket and item = "Val ko"] by simp
  then have f: "aside ?w2 (snd (on_queue ?f nw2 ?e2))" by (rule aside_trans [OF aside_env(2) aside_on_queue])
  obtain nw3 w3 where on: "on_queue ?f nw2 ?e2 = (nw3, w3)" by fastforce
  let ?done = "on_queue (q_Done ?Q (Val ko)) nw3 w3"
  have "nw_processNextItem ?Q st T nw e = Ret (Some True, fst ?done, snd ?done)"
    using get fin on add by (simp add: nw_processNextItem_def nw_item_def)
  moreover have "aside ?w2 (snd ?done)"
    by (rule aside_trans [OF f [unfolded on snd_conv] aside_on_queue [OF aside_queue(3)]])
  ultimately show ?thesis using before by blast
qed

text \<open>A \<open>WriteNodes\<close> that fails is counted, though its error is only logged.\<close>

lemma WriteNodes_world:
  assumes el: "t_elector t = elector_of le"
  shows "accrues w (snd (WriteNodes D t nodes w))"
    "leads w (asked w) \<Longrightarrow> fst (WriteNodes D t nodes w) = Some er \<Longrightarrow> faults w < faults (snd (WriteNodes D t nodes w))"
proof -
  let ?w1 = "w\<lparr>asked := Suc (asked w)\<rparr>" and ?key = "nodesKey t"
  let ?g = "KV_Get (t_client t) ?key False [''kv:nodes''] ?w1"
  let ?p = "\<lparr>kv_Key = ?key, kv_Value = Marshal (nodes_json (d_sort D (exported_nodes nodes))), kv_Session = []\<rparr>"
  let ?put = "KV_Put (t_client t) ?p [''kv:nodes''] (snd ?g)"
  have g: "accrues w (snd ?g)"
    by (simp add: grows_def instrumented_calls instrumented_def Let_def split: prod.split)
  have p: "accrues (snd ?g) (snd ?put)"
    by (simp add: grows_def instrumented_calls instrumented_def Let_def split: prod.split)
  have fg: "fst ?g = Inl er' \<Longrightarrow> faults w < faults (snd ?g)" for er'
    by (auto simp: instrumented_calls instrumented_def Let_def faults_def raised_def err_of_def split: prod.splits)
  have fp: "fst ?put = Some er' \<Longrightarrow> faults (snd ?g) < faults (snd ?put)" for er'
    by (auto simp: instrumented_calls(2) instrumented_def Let_def faults_def raised_def split: prod.splits)
  show "accrues w (snd (WriteNodes D t nodes w))"
    using el g grows_trans [OF g p]
    by (auto simp: WriteNodes_def IsLeader_def Let_def case_prod_beta grows_def split: sum.split option.split)
  show "faults w < faults (snd (WriteNodes D t nodes w))"
    if "leads w (asked w)" "fst (WriteNodes D t nodes w) = Some er"
    using el that fg fp faults_accrues [OF g]
    by (auto simp: WriteNodes_def IsLeader_def Let_def case_prod_beta split: sum.splits option.splits if_splits)
qed



end
