(* ===== verification/Resync.thy ===== *)
theory Resync
  imports Lifecycle
begin

text \<open>
  The informer reports every Service again and again, unchanged: what a report costs that brings
  nothing new. It gets through the handler, the queue and the worker to the target, and no write is
  sent to the key/value store.
\<close>

section \<open>Operations on a service that is up to date\<close>

definition stored :: "deps \<Rightarrow> ('w \<Rightarrow> string \<rightharpoonup> KVPair) \<Rightarrow> (ExportedService \<Rightarrow> string) \<Rightarrow> 'w world \<Rightarrow> ExportedService \<Rightarrow> bool" where
  "stored D kvs key_of w es = (\<exists>p. kvs (server w) (key_of es) = Some p \<and> up_to_date D es (kv_Value p))"

lemma Create_keeps:
  assumes "consul_ok (t_client t) kvs svcs" "t_elector t = elector_of le" "reads_only (le_client le) kvs"
    "metadataPrefix D t es = Inr (key_of es)" "stored D kvs key_of w es" "Create D t es w = ((b, None), w')"
  shows "kvs (server w') = kvs (server w)"
proof -
  obtain w1 where s: "createService t es w = (None, w1)" and c: "createKV D t es w1 = ((True, None), w')"
    using assms(6) Create_result [of D t es w] by (auto elim: Create_success)
  have w1: "kvs (server w1) = kvs (server w)" by (rule createService_ok [OF assms(1-3) s])
  obtain u w2 where u: "shouldUpdateKV D t es (w1\<lparr>asked := Suc (asked w1)\<rparr>) = (u, w2)" by fastforce
  note k = shouldUpdateKV_ok [OF assms(1,4) u]
  have "u \<noteq> Inr True" using k(3) [of True] assms(5) w1 by (auto simp: stored_def)
  then have "kvs (server w') = kvs (server w1)"
    using c assms(2) u k(1) by (auto simp: createKV_def IsLeader_def Let_def split: sum.splits bool.splits if_splits)
  then show ?thesis using w1 by simp
qed

lemma Update_unchanged:
  assumes ok: "consul_ok (t_client t) kvs svcs" "t_elector t = elector_of le" "reads_only (le_client le) kvs"
    and key: "metadataPrefix D t es = Inr (key_of es)" and st: "stored D kvs key_of w es"
    and old: "\<And>old. old_ptr = Some old \<Longrightarrow> metadataPrefix D t old = metadataPrefix D t es"
    and u: "Update D t old_ptr es w = ((b, err), w')"
  shows "kv_writes w' = kv_writes w" and "err = None \<Longrightarrow> kvs (server w') = kvs (server w)"
proof -
  obtain c e w1 where c: "Create D t es w = ((c, e), w1)" by (metis prod.exhaust)
  have "clean D t old_ptr es w1 = ((False, None), w1)" using old by (cases old_ptr) (simp_all add: clean_def)
  then have w': "w' = w1" and e: "err = None \<Longrightarrow> e = None" using u c by (auto simp: Update_def split: option.splits)
  show "kv_writes w' = kv_writes w"
    using Create_idempotent [OF ok(1-3) key] st c w' by (force simp: stored_def)
  show "kvs (server w') = kvs (server w)" if "err = None"
    using Create_keeps [OF ok key st] c e [OF that] w' by simp
qed

section \<open>The loop over the services\<close>

lemma oldES_same:
  assumes "distinct (map Id ess)" "es \<in> set ess" "oldES_of ess (length ess) es = Some old"
  shows "old = es"
proof -
  have m: "matchingExportedService l es = Some y \<Longrightarrow> y \<in> set l \<and> Id y = Id es" for l y
    by (induction l) (auto split: if_splits)
  have n: "matchingExportedService l es = None \<Longrightarrow> es \<notin> set l" for l
    by (induction l) (auto split: if_splits)
  then have "matchingExportedService ess es = Some old"
    using assms(2,3) by (auto simp: oldES_of_def Let_def split: if_splits)
  from m [OF this] show ?thesis using assms(1,2) by (simp add: distinct_map inj_on_def)
qed

lemma update_loop_unchanged:
  assumes ok: "consul_ok (t_client t) kvs svcs" "t_elector t = elector_of le" "reads_only (le_client le) kvs"
    and keys: "\<forall>es \<in> set ess. metadataPrefix D t es = Inr (key_of es)"
    and old: "\<And>es old. es \<in> set ess \<Longrightarrow> oldES_of olds n es = Some old \<Longrightarrow> metadataPrefix D t old = metadataPrefix D t es"
    and st: "\<forall>es \<in> set ess. stored D kvs key_of w es"
  shows "kv_writes (snd (update_loop (target_of D t) olds n ess ids w)) = kv_writes w \<and>
    (fst (fst (update_loop (target_of D t) olds n ess ids w)) = None \<longrightarrow>
       snd (fst (update_loop (target_of D t) olds n ess ids w)) = ids \<union> Id ` set ess)"
  using keys old st
proof (induction ess arbitrary: ids w)
  case (Cons es ess)
  obtain b err w1 where u: "Update D t (oldES_of olds n es) es w = ((b, err), w1)" by (metis prod.exhaust)
  let ?w2 = "target_stat ''update'' es err w1"
  have es: "metadataPrefix D t es = Inr (key_of es)" "stored D kvs key_of w es" using Cons.prems(1,3) by simp_all
  note one = Update_unchanged [OF ok es Cons.prems(2) u, simplified]
  have w2: "kv_writes ?w2 = kv_writes w1" "server ?w2 = server w1"
    by (simp_all add: target_stat_def IncrSuccessOrFail_def) (simp add: emit_def)
  show ?case
  proof (cases err)
    case None
    then have "\<forall>es \<in> set ess. stored D kvs key_of ?w2 es" using Cons.prems(3) one(2) w2(2) by (simp add: stored_def)
    moreover have "\<forall>es \<in> set ess. metadataPrefix D t es = Inr (key_of es)" using Cons.prems(1) by simp
    moreover have "metadataPrefix D t old = metadataPrefix D t e" if "e \<in> set ess" "oldES_of olds n e = Some old" for e old
      using Cons.prems(2) [of e old] that by simp
    ultimately have ih: "kv_writes (snd (update_loop (target_of D t) olds n ess (insert (Id es) ids) ?w2)) = kv_writes ?w2 \<and>
      (fst (fst (update_loop (target_of D t) olds n ess (insert (Id es) ids) ?w2)) = None \<longrightarrow>
         snd (fst (update_loop (target_of D t) olds n ess (insert (Id es) ids) ?w2)) = insert (Id es) ids \<union> Id ` set ess)"
      by (intro Cons.IH) blast+
    have "update_loop (target_of D t) olds n (es # ess) ids w = update_loop (target_of D t) olds n ess (insert (Id es) ids) ?w2"
      using u None by (simp add: target_of_def)
    then show ?thesis using ih one(1) w2(1) by simp
  qed (use u one(1) w2(1) in \<open>simp add: target_of_def\<close>)
qed simp

lemma orphan_loop_none: "\<forall>es \<in> set ess. Id es \<in> ids \<Longrightarrow> orphan_loop T ids ess w = w"
  by (induction ess) simp_all

section \<open>From the informer's report\<close>

lemma updated_world_unchanged:
  assumes ok: "consul_ok (t_client t) kvs svcs" "t_elector t = elector_of le" "reads_only (le_client le) kvs"
    and keys: "\<forall>es \<in> set ess. metadataPrefix D t es = Inr (key_of es)" and dist: "distinct (map Id ess)"
    and st: "\<forall>es \<in> set ess. stored D kvs key_of w es" and b: "b \<or> ess = []"
  shows "kv_writes (snd (updated_world (target_of D t) b ess ess w)) = kv_writes w"
proof -
  have w: "unexported (target_of D t) b ess w = w \<or> ess = []" using b by (auto simp: unexported_def)
  show ?thesis
  proof (cases "ess = []")
    case True
    obtain m w1 where st: "handler_start ''delete'' w = (m, w1)" by fastforce
    then have "kv_writes (emit m w1) = kv_writes w"
      by (auto simp: handler_start_def time_Since_def time_Now_def Let_def)
    then show ?thesis using True st by (simp add: updated_world_def unexported_def)
  next
    case False
    let ?u = "update_loop (target_of D t) ess (length ess) ess {} w"
    have "metadataPrefix D t old = metadataPrefix D t es" if "es \<in> set ess" "oldES_of ess (length ess) es = Some old" for es old
      using oldES_same [OF dist that] by simp
    note loop = update_loop_unchanged [OF ok keys this st, where ids = "{}"]
    show ?thesis
    proof (cases "fst (fst ?u)")
      case None
      then have "orphan_loop (target_of D t) (snd (fst ?u)) ess (snd ?u) = snd ?u"
        using loop by (intro orphan_loop_none) auto
      then show ?thesis using loop w False None by (simp add: updated_world_def case_prod_beta)
    next
      case (Some er)
      then show ?thesis using loop w False by (simp add: updated_world_def case_prod_beta)
    qed
  qed
qed

text \<open>C6: a report that changes nothing writes nothing. When the informer reports an update of a Service
  whose exported services are the same before and after, and each of them is up to date in Consul,
  the worker gets through it and sends no write to the key/value store, whoever leads and whichever
  calls fail.\<close>

theorem unchanged_service_writes_nothing:
  assumes "consul_ok (t_client t) kvs svcs" "reads_only (le_client le) kvs" "t_elector t = elector_of le"
    "pq_inv (sw_queue sw)" "pq_abs (sw_queue sw) = Map.empty"
    "deref oldObj = KService old" "deref obj = KService svc" "\<not> ignored sw old"
    "MetaNamespaceKeyFunc (KService svc) = Inr key" "ix key = Inr (Some (KService svc))"
    "NewExportedServicesFromKubeService fl ix (Some old) (sw_clusterId sw) = Ret (Inr ess)"
    "NewExportedServicesFromKubeService fl ix (Some svc) (sw_clusterId sw) = Ret (Inr ess)"
    "distinct (map Id ess)" "\<forall>es \<in> set ess. metadataPrefix D t es = Inr (key_of es)"
    "\<forall>es \<in> set ess. \<exists>p. kvs (server w) (key_of es) = Some p \<and> up_to_date D es (kv_Value p)"
  shows "\<exists>sw' w'. runWorker fl M local (\<lambda>_. ix) (target_of D t) (Suc (Suc 0)) (UpdateFunc M oldObj obj sw) w =
      Ret (Some (sw', w')) \<and> pq_abs (sw_queue sw') = Map.empty \<and> kv_writes w' = kv_writes w"
proof -
  obtain timing w1 where st: "handler_start ''update'' w = (timing, w1)" by fastforce
  note h = handler_start_world [OF st]
  obtain b where b: "IsExportableService (Some svc) = Ret b" by (auto simp: IsExportableService_def)
  then have none: "b \<or> ess = []" using assms(12) by (cases b) (simp_all add: NewExportedServicesFromKubeService_def)
  let ?w2 = "snd (updated_world (target_of D t) b ess ess w1)"
  obtain sw' where run: "runWorker fl M local (\<lambda>_. ix) (target_of D t) (Suc (Suc 0)) (UpdateFunc M oldObj obj sw) w =
      Ret (Some (sw', emit timing ?w2))" "pq_abs (sw_queue sw') = Map.empty"
    using run_updated [where fl = fl and M = M and local = local and T = "target_of D t",
        OF assms(4-10) b assms(11,12) st] by blast
  have "\<forall>es \<in> set ess. stored D kvs key_of w1 es" using assms(15) h(2) by (simp add: stored_def)
  from updated_world_unchanged [OF assms(1,3,2,14,13) this none]
  have "kv_writes (emit timing ?w2) = kv_writes w1" by simp
  also have "\<dots> = kv_writes w" using st by (auto simp: handler_start_def time_Since_def time_Now_def Let_def)
  finally show ?thesis using run by blast
qed

theorem unchanged_service_writes_nothing_witness:
  "\<exists>w sw' w'. runWorker Some no_metrics 0 (\<lambda>_ _. Inr (Some (KService demo_service))) (target_of demo_deps demo_target) (Suc (Suc 0))
       (UpdateFunc no_metrics (Ref 0 (KService demo_service)) (Ref 1 (KService demo_service)) demo_sw) w = Ret (Some (sw', w')) \<and>
     fst (server w) (demo_key demo_es) \<noteq> None \<and> kv_writes w' = kv_writes w"
proof -
  let ?ix = "\<lambda>_. Inr (Some (KService demo_service)) :: kobject option result"
  let ?old = "Ref 0 (KService demo_service)" and ?obj = "Ref 1 (KService demo_service)"
  obtain w where c: "Create demo_deps demo_target demo_es (memory_world demo_kv True) = ((True, None), w)"
    using demo_Create by blast
  have k: "metadataPrefix demo_deps demo_target demo_es = Inr (demo_key demo_es)" using demo_facts2(3) by simp
  from Create_stored [of demo_target fst snd demo_elector, OF _ _ _ _ demo_readable k c] memory_ok memory_reads
  obtain p where p: "fst (server w) (demo_key demo_es) = Some p" "up_to_date demo_deps demo_es (kv_Value p)"
    by (auto simp: memory_world_def)
  then have st: "\<forall>es \<in> set [demo_es]. \<exists>p. fst (server w) (demo_key es) = Some p \<and> up_to_date demo_deps es (kv_Value p)"
    by simp
  have obj: "deref ?old = KService demo_service" "deref ?obj = KService demo_service" "?ix ''default/web'' = Inr (Some (KService demo_service))"
    and dist: "distinct (map Id [demo_es])"
    by simp_all
  note unchanged_service_writes_nothing [where M = no_metrics and local = 0 and kvs = fst and svcs = snd and le = demo_elector
        and t = demo_target and ix = ?ix and w = w,
      OF _ _ _ demo_sw_facts(1,2) obj(1,2) demo_sw_facts(3) demo_facts2(1) obj(3) demo_facts2(2,2) dist demo_facts2(3) st]
  then have "\<exists>sw' w'. runWorker Some no_metrics 0 (\<lambda>_. ?ix) (target_of demo_deps demo_target) (Suc (Suc 0))
       (UpdateFunc no_metrics ?old ?obj demo_sw) w = Ret (Some (sw', w')) \<and> kv_writes w' = kv_writes w"
    using memory_ok memory_reads by (simp del: runWorker.simps) blast
  then show ?thesis using p(1) by blast
qed

end
