(* ===== verification/Replicas.thy ===== *)
theory Replicas
  imports Leader
begin

text \<open>
  Several replicas of the process that compete for one leader lock. Each runs the elector of
  \<open>Leader\<close>; Consul gives the lock to at most one session at a time. A session may be invalidated by
  the server at any time, before the client that owns it has noticed.
\<close>

section \<open>The replicas and the lock\<close>

text \<open>
  \<open>holder\<close> is the replica whose session has the lock on the server, \<open>expired\<close> the replicas whose
  session was invalidated since they got the lock.
\<close>

record cluster =
  reps :: "nat \<Rightarrow> elector"
  holder :: "nat option"
  expired :: "nat set"

text \<open>
  One step of one replica: a step of its \<open>Run\<close> that leaves its lock object alone, getting the lock
  when nobody has it, giving it back, a step of its surroundings (\<open>Stop\<close>, or the channel that says
  that the lock is lost); or the server invalidates the session that has the lock.
\<close>

inductive cluster_step :: "(nat \<Rightarrow> string) \<Rightarrow> cluster \<Rightarrow> cluster \<Rightarrow> bool" for c :: "nat \<Rightarrow> string" where
  local: "\<lbrakk>run_step (c i) (reps s i) e; held e = held (reps s i)\<rbrakk> \<Longrightarrow>
    cluster_step c s (s\<lparr>reps := (reps s)(i := e)\<rparr>)"
| acquire: "\<lbrakk>run_step (c i) (reps s i) e; \<not> held (reps s i); held e; holder s = None\<rbrakk> \<Longrightarrow>
    cluster_step c s (s\<lparr>reps := (reps s)(i := e), holder := Some i, expired := expired s - {i}\<rparr>)"
| release: "\<lbrakk>run_step (c i) (reps s i) e; held (reps s i); \<not> held e\<rbrakk> \<Longrightarrow>
    cluster_step c s (s\<lparr>reps := (reps s)(i := e), holder := (if holder s = Some i then None else holder s),
      expired := expired s - {i}\<rparr>)"
| around: "env_step (reps s i) e \<Longrightarrow> cluster_step c s (s\<lparr>reps := (reps s)(i := e)\<rparr>)"
| expire: "holder s = Some i \<Longrightarrow> cluster_step c s (s\<lparr>holder := None, expired := insert i (expired s)\<rparr>)"

definition NewCluster :: cluster where
  "NewCluster = \<lparr>reps = (\<lambda>_. NewElector), holder = None, expired = {}\<rparr>"

inductive cluster_reached :: "(nat \<Rightarrow> string) \<Rightarrow> cluster \<Rightarrow> bool" for c :: "nat \<Rightarrow> string" where
  init: "cluster_reached c NewCluster"
| step: "\<lbrakk>cluster_reached c s; cluster_step c s s'\<rbrakk> \<Longrightarrow> cluster_reached c s'"

inductive_cases cluster_stepE: "cluster_step c s s'"

section \<open>Invariants\<close>

text \<open>Seen from one replica, the cluster is a run of its own elector.\<close>

lemma cluster_projects:
  assumes "cluster_reached c s"
  shows "reached (c i) (reps s i)"
  using assms
proof (induction arbitrary: i rule: cluster_reached.induct)
  case init
  then show ?case by (simp add: NewCluster_def reached.init)
next
  case (step s s')
  from step.hyps(2) step.IH show ?case
    by (cases rule: cluster_step.cases) (auto intro: reached.run reached.env)
qed

text \<open>The replica that has the lock knows it, and a replica that believes to have it either does or
  has lost its session.\<close>

definition lock_inv :: "cluster \<Rightarrow> bool" where
  "lock_inv s = ((\<forall>i. holder s = Some i \<longrightarrow> held (reps s i)) \<and>
     (\<forall>i. held (reps s i) \<longrightarrow> holder s = Some i \<or> i \<in> expired s))"

lemma env_step_held: "env_step s s' \<Longrightarrow> held s' = held s"
  by (erule env_stepE) simp_all

lemma lock_inv_step: "\<lbrakk>cluster_step c s s'; lock_inv s\<rbrakk> \<Longrightarrow> lock_inv s'"
  by (erule cluster_stepE) (auto simp: lock_inv_def dest: env_step_held)

lemma lock_inv_reached: "cluster_reached c s \<Longrightarrow> lock_inv s"
proof (induction rule: cluster_reached.induct)
  case init
  then show ?case by (simp add: lock_inv_def NewCluster_def NewElector_def)
qed (rule lock_inv_step)

text \<open>A replica that has just started gets the lock and raises its flag.\<close>

definition elected_by :: "string \<Rightarrow> elector" where
  "elected_by c = (setIsLeader c True (NewElector\<lparr>pos := AtSet LockChan, held := True, lost := False\<rparr>))\<lparr>pos := AtSelect LockChan\<rparr>"

lemma elected_by_flag: "isLeader (elected_by c)" "held (elected_by c)" "\<not> stopClosed (elected_by c)"
  by (simp_all add: elected_by_def) (simp add: NewElector_def)

lemma cluster_elects:
  assumes "cluster_reached c s" "reps s i = NewElector" "holder s = None"
  shows "cluster_reached c (s\<lparr>reps := (reps s)(i := elected_by (c i)), holder := Some i, expired := expired s - {i}\<rparr>)"
proof -
  let ?e1 = "NewElector\<lparr>pos := AtLock\<rparr>" and ?e2 = "NewElector\<lparr>pos := AtSet LockChan, held := True, lost := False\<rparr>"
  let ?s1 = "s\<lparr>reps := (reps s)(i := ?e1)\<rparr>"
  let ?s2 = "s\<lparr>reps := (reps s)(i := ?e2), holder := Some i, expired := expired s - {i}\<rparr>"
  have "run_step (c i) (reps s i) ?e1" using run_step.opts_ok [of NewElector "c i"] assms(2) by (simp add: NewElector_def)
  then have s1: "cluster_reached c ?s1"
    by (rule cluster_reached.step [OF assms(1) cluster_step.local]) (simp add: assms(2))
  have "run_step (c i) ?e1 ?e2" using run_step.lock_won [of ?e1 "c i"] by simp
  then have "cluster_step c ?s1 (?s1\<lparr>reps := (reps ?s1)(i := ?e2), holder := Some i, expired := expired ?s1 - {i}\<rparr>)"
    by (intro cluster_step.acquire) (simp_all add: assms(3), simp add: NewElector_def)
  from cluster_reached.step [OF s1 this] have s2: "cluster_reached c ?s2" by simp
  have "run_step (c i) (reps ?s2 i) (elected_by (c i))"
    using run_step.elected [of ?e2 LockChan "c i"] by (simp add: elected_by_def)
  then have "cluster_step c ?s2 (?s2\<lparr>reps := (reps ?s2)(i := elected_by (c i))\<rparr>)"
    by (intro cluster_step.local) (simp_all add: elected_by_flag)
  from cluster_reached.step [OF s2 this] show ?thesis by (cases s) simp
qed

section \<open>Properties\<close>

text \<open>C17: however the replicas, the server and the stop signals interleave, of two replicas whose leader
  flag is up at the same time at least one does not have the lock, and that one has lost its
  session without having noticed or is being stopped. As long as no session is invalidated and
  nobody is stopped there is at most one leader.\<close>

theorem leaders_exclude:
  assumes "cluster_reached c s" "i \<noteq> j" "isLeader (reps s i)" "isLeader (reps s j)"
  shows "\<exists>k \<in> {i, j}. holder s \<noteq> Some k \<and> (k \<in> expired s \<or> stopClosed (reps s k))"
proof -
  have flag: "held (reps s k) \<or> stopClosed (reps s k)" if "isLeader (reps s k)" for k
    by (rule inv_flag [OF reached_inv [OF cluster_projects [OF assms(1)]] that])
  have "k \<in> expired s \<or> stopClosed (reps s k)" if "isLeader (reps s k)" "holder s \<noteq> Some k" for k
    using flag [OF that(1)] lock_inv_reached [OF assms(1)] that(2) by (auto simp: lock_inv_def)
  then show ?thesis using assms(2-4) by (metis insertCI option.inject)
qed

text \<open>The window: replica 0 is elected, its session expires, and replica 1 is elected before replica 0
  has noticed.\<close>

theorem leaders_exclude_witness:
  "\<exists>s. cluster_reached (\<lambda>_. ''pod'') s \<and> isLeader (reps s 0) \<and> isLeader (reps s 1) \<and> holder s = Some 1 \<and>
     (0 \<in> expired s \<or> stopClosed (reps s 0))"
proof -
  let ?c = "\<lambda>_. ''pod''" and ?L = "elected_by ''pod''"
  let ?s1 = "NewCluster\<lparr>reps := (reps NewCluster)(0 := ?L), holder := Some 0, expired := expired NewCluster - {0}\<rparr>"
  let ?s2 = "?s1\<lparr>holder := None, expired := insert 0 (expired ?s1)\<rparr>"
  let ?s3 = "?s2\<lparr>reps := (reps ?s2)(1 := ?L), holder := Some 1, expired := expired ?s2 - {1}\<rparr>"
  have "cluster_reached ?c ?s1"
    by (rule cluster_elects [OF cluster_reached.init]) (simp_all add: NewCluster_def)
  then have "cluster_reached ?c ?s2"
    by (rule cluster_reached.step) (rule cluster_step.expire, simp)
  then have r: "cluster_reached ?c ?s3"
    by (rule cluster_elects) (simp_all add: NewCluster_def)
  have flags: "isLeader (reps ?s3 0)" "isLeader (reps ?s3 1)" by (simp_all add: elected_by_flag)
  from leaders_exclude [OF r _ flags] r flags show ?thesis by (intro exI [of _ ?s3]) auto
qed

end
