(* ===== verification/WatcherRun.thy ===== *)
theory WatcherRun
  imports Prelude
begin

text \<open>
  \<open>Run\<close> and \<open>Stop\<close>, which the service watcher and the node watcher have in common: \<open>Run\<close> starts
  the informer in a goroutine, waits until its cache is filled and then calls the worker over and
  over until the stop channel is closed; \<open>Stop\<close> closes the channel and waits for the informer. The
  informer calls the handlers while it runs. The steps of the three goroutines interleave.
\<close>

section \<open>The step relation\<close>

datatype informer_pos = NotStarted | InfRunning | InfDone

datatype worker_pos = NotCalled | AtSync | AtUntil | InWorker | RunReturned | Crashed string

datatype stop_pos = NotStopped | AtWait | StopReturned

text \<open>
  \<open>watched\<close> is the watcher itself with what it changes, \<open>processed\<close> counts the items the worker has
  taken. A call of \<open>processNextItem\<close> that blocks on an empty queue is made when it no longer blocks.
\<close>

record 'st watch =
  watched :: 'st
  informer :: informer_pos
  hasSynced :: bool
  worker :: worker_pos
  stopper :: stop_pos
  stopC_closed :: bool
  processed :: nat

inductive watch_step ::
  "('st \<Rightarrow> 'st \<Rightarrow> bool) \<Rightarrow> ('st \<Rightarrow> (bool option \<times> 'st) go \<Rightarrow> bool) \<Rightarrow> ('st \<Rightarrow> 'st \<Rightarrow> bool) \<Rightarrow> 'st watch \<Rightarrow> 'st watch \<Rightarrow> bool"
  for event :: "'st \<Rightarrow> 'st \<Rightarrow> bool" and item :: "'st \<Rightarrow> (bool option \<times> 'st) go \<Rightarrow> bool" and close :: "'st \<Rightarrow> 'st \<Rightarrow> bool" where
  run: "worker s = NotCalled \<Longrightarrow>
    watch_step event item close s (s\<lparr>worker := AtSync, informer := InfRunning\<rparr>)"
| handler: "\<lbrakk>informer s = InfRunning; event (watched s) st\<rbrakk> \<Longrightarrow>
    watch_step event item close s (s\<lparr>watched := st\<rparr>)"
| cache_full: "informer s = InfRunning \<Longrightarrow> watch_step event item close s (s\<lparr>hasSynced := True\<rparr>)"
| synced: "\<lbrakk>worker s = AtSync; hasSynced s\<rbrakk> \<Longrightarrow> watch_step event item close s (s\<lparr>worker := AtUntil\<rparr>)"
| sync_stopped: "\<lbrakk>worker s = AtSync; stopC_closed s\<rbrakk> \<Longrightarrow>
    watch_step event item close s (s\<lparr>worker := RunReturned\<rparr>)"
| round: "\<lbrakk>worker s = AtUntil; \<not> stopC_closed s\<rbrakk> \<Longrightarrow> watch_step event item close s (s\<lparr>worker := InWorker\<rparr>)"
| until_stopped: "\<lbrakk>worker s = AtUntil; stopC_closed s\<rbrakk> \<Longrightarrow>
    watch_step event item close s (s\<lparr>worker := RunReturned\<rparr>)"
| item_done: "\<lbrakk>worker s = InWorker; item (watched s) (Ret (Some True, st))\<rbrakk> \<Longrightarrow>
    watch_step event item close s (s\<lparr>watched := st, processed := Suc (processed s)\<rparr>)"
| round_ends: "\<lbrakk>worker s = InWorker; item (watched s) (Ret (Some False, st))\<rbrakk> \<Longrightarrow>
    watch_step event item close s (s\<lparr>watched := st, worker := AtUntil\<rparr>)"
| crash: "\<lbrakk>worker s = InWorker; item (watched s) (Panic msg)\<rbrakk> \<Longrightarrow>
    watch_step event item close s (s\<lparr>worker := Crashed msg\<rparr>)"
| stop: "\<lbrakk>stopper s = NotStopped; close (watched s) st\<rbrakk> \<Longrightarrow>
    watch_step event item close s (s\<lparr>stopper := AtWait, stopC_closed := True, watched := st\<rparr>)"
| informer_ends: "\<lbrakk>informer s = InfRunning; stopC_closed s\<rbrakk> \<Longrightarrow>
    watch_step event item close s (s\<lparr>informer := InfDone\<rparr>)"
| stop_returns: "\<lbrakk>stopper s = AtWait; informer s \<noteq> InfRunning\<rbrakk> \<Longrightarrow>
    watch_step event item close s (s\<lparr>stopper := StopReturned\<rparr>)"

definition NewWatch :: "'st \<Rightarrow> 'st watch" where
  "NewWatch st = \<lparr>watched = st, informer = NotStarted, hasSynced = False, worker = NotCalled, stopper = NotStopped,
     stopC_closed = False, processed = 0\<rparr>"

inductive watch_reached ::
  "('st \<Rightarrow> 'st \<Rightarrow> bool) \<Rightarrow> ('st \<Rightarrow> (bool option \<times> 'st) go \<Rightarrow> bool) \<Rightarrow> ('st \<Rightarrow> 'st \<Rightarrow> bool) \<Rightarrow> 'st \<Rightarrow> 'st watch \<Rightarrow> bool"
  for event :: "'st \<Rightarrow> 'st \<Rightarrow> bool" and item :: "'st \<Rightarrow> (bool option \<times> 'st) go \<Rightarrow> bool" and close :: "'st \<Rightarrow> 'st \<Rightarrow> bool" and st0 :: 'st where
  init: "watch_reached event item close st0 (NewWatch st0)"
| step: "\<lbrakk>watch_reached event item close st0 s; watch_step event item close s s'\<rbrakk> \<Longrightarrow>
    watch_reached event item close st0 s'"

text \<open>A crash ends the process: no step of the model matters after it.\<close>

text \<open>
  The worker as it starts on its first item after the informer has called some handlers, and the
  watcher after \<open>Stop\<close> has returned while the worker was on an item.
\<close>

definition Working :: "'st \<Rightarrow> 'st watch" where
  "Working st = \<lparr>watched = st, informer = InfRunning, hasSynced = True, worker = InWorker, stopper = NotStopped,
     stopC_closed = False, processed = 0\<rparr>"

lemma Working_reached:
  assumes "event\<^sup>*\<^sup>* st0 st"
  shows "watch_reached event item close st0 (Working st)"
proof -
  let ?s = "\<lambda>st h w. \<lparr>watched = st, informer = InfRunning, hasSynced = h, worker = w, stopper = NotStopped,
     stopC_closed = False, processed = 0\<rparr>"
  have "watch_reached event item close st0 (?s st False AtSync)"
    using assms
  proof (induction rule: rtranclp_induct)
    case base
    show ?case
      by (rule watch_reached.step [OF watch_reached.init])
        (use watch_step.run [of "NewWatch st0"] in \<open>simp add: NewWatch_def\<close>)
  next
    case (step y z)
    show ?case
      by (rule watch_reached.step [OF step.IH])
        (use watch_step.handler [where s = "?s y False AtSync" and st = z and event = event] step(2) in simp)
  qed
  from watch_reached.step [OF this cache_full] have "watch_reached event item close st0 (?s st True AtSync)" by simp
  from watch_reached.step [OF this synced] have "watch_reached event item close st0 (?s st True AtUntil)" by simp
  from watch_reached.step [OF this watch_step.round] show ?thesis by (simp add: Working_def)
qed

lemma Stop_returns_early:
  assumes "watch_reached event item close st0 s" "informer s = InfRunning" "stopper s = NotStopped"
    "close (watched s) st"
  shows "watch_reached event item close st0
    (s\<lparr>stopper := StopReturned, stopC_closed := True, watched := st, informer := InfDone\<rparr>)"
proof -
  let ?s1 = "s\<lparr>stopper := AtWait, stopC_closed := True, watched := st\<rparr>"
  have "watch_step event item close s ?s1"
    using assms(3,4) watch_step.stop [where s = s and st = st and close = close] by blast
  with assms(1) have r: "watch_reached event item close st0 ?s1" by (rule watch_reached.step)
  have "watch_reached event item close st0 (?s1\<lparr>informer := InfDone\<rparr>)"
    by (rule watch_reached.step [OF r informer_ends]) (use assms in simp_all)
  then have "watch_reached event item close st0 (?s1\<lparr>informer := InfDone, stopper := StopReturned\<rparr>)"
    by (rule watch_reached.step) (rule stop_returns, simp_all)
  then show ?thesis by (cases s) simp
qed

section \<open>The contract of a watcher\<close>

text \<open>
  The handlers and the worker keep the invariant, the worker finishes an item with fewer of them
  queued, and once the watcher is closed it does not block. What follows holds for both watchers.
\<close>

locale watcher =
  fixes event :: "'st \<Rightarrow> 'st \<Rightarrow> bool"
    and item :: "'st \<Rightarrow> (bool option \<times> 'st) go \<Rightarrow> bool"
    and close :: "'st \<Rightarrow> 'st \<Rightarrow> bool"
    and inv :: "'st \<Rightarrow> bool"
    and closed_st :: "'st \<Rightarrow> bool"
    and size_st :: "'st \<Rightarrow> nat"
  assumes event_inv: "\<lbrakk>inv st; event st st'\<rbrakk> \<Longrightarrow> inv st'"
    and event_closed: "\<lbrakk>closed_st st; event st st'\<rbrakk> \<Longrightarrow> closed_st st'"
    and item_inv: "\<lbrakk>inv st; item st (Ret (b, st'))\<rbrakk> \<Longrightarrow> inv st' \<and> (closed_st st \<longrightarrow> closed_st st')"
    and close_inv: "\<lbrakk>inv st; close st st'\<rbrakk> \<Longrightarrow> inv st' \<and> closed_st st'"
    and item_less: "\<lbrakk>inv st; item st (Ret (Some True, st'))\<rbrakk> \<Longrightarrow> size_st st' < size_st st"
    and item_progress: "\<lbrakk>inv st; closed_st st\<rbrakk> \<Longrightarrow> \<exists>r. item st r \<and> (\<forall>st'. r \<noteq> Ret (None, st'))"
begin

definition watch_inv :: "'st watch \<Rightarrow> bool" where
  "watch_inv s =
     (inv (watched s) \<and> (stopC_closed s \<longleftrightarrow> stopper s \<noteq> NotStopped) \<and>
      (stopC_closed s \<longrightarrow> closed_st (watched s)) \<and>
      (worker s = NotCalled \<longleftrightarrow> informer s = NotStarted) \<and>
      (informer s = InfDone \<longrightarrow> stopC_closed s) \<and>
      (worker s \<in> {AtUntil, InWorker} \<or> (\<exists>m. worker s = Crashed m) \<or> 0 < processed s \<longrightarrow> hasSynced s) \<and>
      (worker s \<in> {NotCalled, AtSync} \<longrightarrow> processed s = 0) \<and>
      (worker s = RunReturned \<longrightarrow> stopC_closed s))"

lemma watch_inv_step:
  assumes "watch_step event item close s s'" "watch_inv s"
  shows "watch_inv s'"
  using assms(1)
proof cases
  case (handler st)
  then show ?thesis
    using assms(2) event_inv [of "watched s" st] event_closed [of "watched s" st] by (auto simp: watch_inv_def)
next
  case (item_done st)
  then show ?thesis using assms(2) item_inv [of "watched s" "Some True" st] by (auto simp: watch_inv_def)
next
  case (round_ends st)
  then show ?thesis using assms(2) item_inv [of "watched s" "Some False" st] by (auto simp: watch_inv_def)
next
  case (stop st)
  then show ?thesis using assms(2) close_inv [of "watched s" st] by (auto simp: watch_inv_def)
qed (use assms(2) in \<open>auto simp: watch_inv_def\<close>)

lemma watch_inv_reached:
  assumes "inv st0" "watch_reached event item close st0 s"
  shows "watch_inv s"
  using assms(2)
proof (induction rule: watch_reached.induct)
  case init
  then show ?case using assms(1) by (simp add: watch_inv_def NewWatch_def)
qed (rule watch_inv_step)

text \<open>
  Once the informer has ended, every step brings the watcher closer to its end, and while the worker
  has not returned it can take one.
\<close>

fun worker_rank :: "worker_pos \<Rightarrow> nat \<Rightarrow> nat" where
  "worker_rank AtSync n = 2"
| "worker_rank AtUntil n = 1"
| "worker_rank InWorker n = n + 2"
| "worker_rank p n = 0"

definition left_over :: "'st watch \<Rightarrow> nat" where
  "left_over s = worker_rank (worker s) (size_st (watched s)) + (if stopper s = AtWait then 1 else 0)"

lemma ended_step:
  assumes "watch_step event item close s s'" "watch_inv s" "informer s = InfDone"
  shows "left_over s' < left_over s \<and> informer s' = InfDone"
  using assms(1)
proof cases
  case (item_done st)
  then show ?thesis
    using assms item_less [of "watched s" st] by (simp add: watch_inv_def left_over_def)
qed (use assms(2,3) in \<open>auto simp: watch_inv_def left_over_def\<close>)

lemma ended_progress:
  assumes "watch_inv s" "informer s = InfDone" "\<nexists>s'. watch_step event item close s s'"
  shows "worker s = RunReturned \<or> (\<exists>m. worker s = Crashed m)"
proof (cases "worker s")
  case InWorker
  have "inv (watched s)" "closed_st (watched s)" using assms(1,2) by (auto simp: watch_inv_def)
  then obtain r where r: "item (watched s) r" "\<forall>st'. r \<noteq> Ret (None, st')" using item_progress by blast
  show ?thesis
  proof (cases r)
    case (Panic m)
    then show ?thesis using r(1) assms(3) by (auto dest: watch_step.crash [OF InWorker])
  next
    case (Ret p)
    then obtain b st where "r = Ret (Some b, st)" using r(2) by (cases p) auto
    then show ?thesis
      using r(1) assms(3)
      by (cases b) (auto dest: watch_step.item_done [OF InWorker] watch_step.round_ends [OF InWorker])
  qed
next
  case AtSync
  then show ?thesis using assms watch_step.sync_stopped [OF AtSync] by (auto simp: watch_inv_def)
next
  case AtUntil
  then show ?thesis using assms watch_step.until_stopped [OF AtUntil] by (auto simp: watch_inv_def)
next
  case NotCalled
  then show ?thesis using assms(1,2) by (simp add: watch_inv_def)
qed simp_all

lemma ended_run:
  assumes "(watch_step event item close ^^ n) s s'" "watch_inv s" "informer s = InfDone"
  shows "n + left_over s' \<le> left_over s \<and> watch_inv s' \<and> informer s' = InfDone"
  using assms
proof (induction n arbitrary: s')
  case (Suc n)
  then obtain t where t: "(watch_step event item close ^^ n) s t" "watch_step event item close t s'" by auto
  show ?case using Suc.IH [OF t(1) Suc.prems(2,3)] ended_step [OF t(2)] watch_inv_step [OF t(2)] by auto
qed simp

end

end
