(* ===== verification/ServiceRun.thy ===== *)
theory ServiceRun
  imports ServiceWatcher WatcherRun
begin

text \<open>
  The service watcher as it runs: the handlers, the worker and \<open>Stop\<close> in any order. What the informer
  passes to the handlers is typed, and so is everything in the queue; the worker crashes only where
  the remembered old Service is missing; and it comes to an end once it is stopped.
\<close>

section \<open>Events and items\<close>

text \<open>
  The informer passes Services to the handlers, an update with two Services of the same namespace
  and name, and a deletion that it missed as a tombstone, which is not a Service.
\<close>

inductive sw_event :: "(queued, 'm) Metrics \<Rightarrow> 'm ServiceWatcher \<Rightarrow> 'm ServiceWatcher \<Rightarrow> bool"
  for M :: "(queued, 'm) Metrics" where
  added: "sw_event M sw (AddFunc M (Ref a (KService svc)) sw)"
| updated: "\<lbrakk>svc_namespace old = svc_namespace svc; svc_name old = svc_name svc\<rbrakk> \<Longrightarrow>
    sw_event M sw (UpdateFunc M (Ref a (KService old)) (Ref b (KService svc)) sw)"
| deleted: "sw_event M sw (DeleteFunc M (Ref a (KService svc)) sw)"
| tombstone: "sw_event M sw (DeleteFunc M (Ref a (KOther key)) sw)"

text \<open>
  One call of \<open>processNextItem\<close>, which never blocks, is one step. The cache and the environment are
  what they are at that time: other goroutines change them.
\<close>

fun sw_result :: "(bool \<times> 'm ServiceWatcher \<times> 'e) go \<Rightarrow> (bool option \<times> 'm ServiceWatcher) go" where
  "sw_result (Panic msg) = Panic msg"
| "sw_result (Ret (b, sw, e)) = Ret (Some b, sw)"

definition sw_item ::
  "(string \<Rightarrow> string option) \<Rightarrow> (queued, 'm) Metrics \<Rightarrow> 'x env_scheme ExportTarget \<Rightarrow> 'm ServiceWatcher \<Rightarrow>
   (bool option \<times> 'm ServiceWatcher) go \<Rightarrow> bool" where
  "sw_item fl M T sw r = (\<exists>local ix e. r = sw_result (processNextItem fl M local ix T sw e))"

text \<open>\<open>Stop\<close> closes the channel and leaves the queue as it is.\<close>

definition sw_step ::
  "(string \<Rightarrow> string option) \<Rightarrow> (queued, 'm) Metrics \<Rightarrow> 'x env_scheme ExportTarget \<Rightarrow> 'm ServiceWatcher watch \<Rightarrow>
   'm ServiceWatcher watch \<Rightarrow> bool" where
  "sw_step fl M T = watch_step (sw_event M) (sw_item fl M T) (=)"

definition sw_reached ::
  "(string \<Rightarrow> string option) \<Rightarrow> (queued, 'm) Metrics \<Rightarrow> 'x env_scheme ExportTarget \<Rightarrow> 'm ServiceWatcher \<Rightarrow>
   'm ServiceWatcher watch \<Rightarrow> bool" where
  "sw_reached fl M T = watch_reached (sw_event M) (sw_item fl M T) (=)"

section \<open>Types\<close>

text \<open>
  A queued value is a \<open>KeyOp\<close>, never a pointer, with a Service of a watched namespace in it and the
  key of that Service; a remembered Service is stored under its own key.
\<close>

definition service_of :: "'m ServiceWatcher \<Rightarrow> string \<Rightarrow> Service \<Rightarrow> bool" where
  "service_of sw key svc = (MetaNamespaceKeyFunc (KService svc) = Inr key \<and> \<not> ignored sw svc)"

fun typed_item :: "'m ServiceWatcher \<Rightarrow> queued \<Rightarrow> bool" where
  "typed_item sw (Ptr a) = False"
| "typed_item sw (Val ko) =
     (case ko_Obj ko of Some (Ref a (KService svc)) \<Rightarrow> service_of sw (ko_Key ko) svc \<and> ko_Attempts ko = 0 | _ \<Rightarrow> False)"

definition sw_typed :: "'m ServiceWatcher \<Rightarrow> bool" where
  "sw_typed sw =
     (sw_inv sw \<and> (\<forall>v \<in> pending sw. typed_item sw v) \<and> (\<forall>key svc. cacheOlds sw key = Some svc \<longrightarrow> service_of sw key svc))"

lemma service_of_cong: "namespaces sw' = namespaces sw \<Longrightarrow> service_of sw' = service_of sw"
  by (simp add: service_of_def ignored_def fun_eq_iff)

lemma typed_item_cong: "namespaces sw' = namespaces sw \<Longrightarrow> typed_item sw' v = typed_item sw v"
  by (cases v) (simp_all only: typed_item.simps service_of_cong [of sw' sw])

text \<open>The watcher stays typed when its queue loses items and its memory loses Services.\<close>

lemma sw_typed_less:
  assumes "sw_typed sw" "sw_inv sw'" "namespaces sw' = namespaces sw" "pending sw' \<subseteq> pending sw" "cacheOlds sw' \<subseteq>\<^sub>m cacheOlds sw"
  shows "sw_typed sw'"
  using assms typed_item_cong [OF assms(3)] service_of_cong [OF assms(3)]
  by (auto simp: sw_typed_def map_le_def dom_def)

lemma sw_typed_enqueue:
  assumes "sw_typed sw" "service_of sw key svc"
  shows "sw_typed (enqueue M (NewKeyOp key (Ref a (KService svc)) opn) sw)" (is "sw_typed ?sw")
proof -
  have inv: "sw_inv sw" using assms(1) by (simp add: sw_typed_def)
  note e = enqueue_pending [OF inv, of M "NewKeyOp key (Ref a (KService svc)) opn"]
  show ?thesis
    using assms e(1-3) typed_item_cong [OF e(4)] service_of_cong [OF e(4)]
    by (auto simp: sw_typed_def NewKeyOp_def)
qed

lemma sw_event_typed:
  assumes "sw_typed sw" "sw_event M sw sw'"
  shows "sw_typed sw'"
  using assms(2)
proof cases
  case (updated old svc a b)
  have key: "service_of sw key old \<and> service_of sw key svc"
    if "MetaNamespaceKeyFunc (KService svc) = Inr key" "\<not> ignored sw old" for key
    using that updated by (auto simp: service_of_def ignored_def)
  have "sw_typed (enqueue M (NewKeyOp key (Ref b (KService svc)) opn) (sw\<lparr>cacheOlds := (cacheOlds sw)(key \<mapsto> old)\<rparr>))"
    if "service_of sw key old" "service_of sw key svc" for key opn
  proof (rule sw_typed_enqueue)
    let ?sw = "sw\<lparr>cacheOlds := (cacheOlds sw)(key \<mapsto> old)\<rparr>"
    have c: "typed_item ?sw = typed_item sw" "service_of ?sw = service_of sw"
      using typed_item_cong [of ?sw sw] service_of_cong [of ?sw sw] by (simp_all add: fun_eq_iff)
    show "sw_typed ?sw" using assms(1) that by (auto simp: sw_typed_def c)
    show "service_of ?sw key svc" using that by (simp add: c)
  qed
  then show ?thesis
    unfolding updated(1) UpdateFunc_def using key assms(1)
    by (simp del: MetaNamespaceKeyFunc.simps add: Let_def split: sum.split)
next
  case (added a svc)
  have "service_of sw key svc" if "MetaNamespaceKeyFunc (KService svc) = Inr key" "\<not> ignored sw svc" for key
    using that by (simp add: service_of_def)
  then show ?thesis
    unfolding added(1) AddFunc_def using assms(1)
    by (simp del: MetaNamespaceKeyFunc.simps add: sw_typed_enqueue split: sum.split)
next
  case (deleted a svc)
  have "service_of sw key svc" if "MetaNamespaceKeyFunc (KService svc) = Inr key" "\<not> ignored sw svc" for key
    using that by (simp add: service_of_def)
  then show ?thesis
    unfolding deleted(1) DeleteFunc_def using assms(1)
    by (simp del: MetaNamespaceKeyFunc.simps add: sw_typed_enqueue split: sum.split)
next
  case (tombstone a key)
  then show ?thesis using assms(1) by (simp add: DeleteFunc_def split: sum.split)
qed

text \<open>The worker only takes from the queue and from the memory.\<close>

lemma dispatch_fields:
  assumes "dispatch fl ix T ko svc sw e = Ret (b, sw', e')"
  shows "namespaces sw' = namespaces sw \<and> cacheOlds sw' \<subseteq>\<^sub>m cacheOlds sw"
  using assms
  by (auto simp: dispatch_def map_le_def dom_def
      split: operation.splits go.splits prod.splits if_splits option.splits ref.splits kobject.splits)

lemma processNextItem_fields:
  assumes "processNextItem fl M local ix T sw e = Ret (b, sw', e')"
  shows "namespaces sw' = namespaces sw \<and> cacheOlds sw' \<subseteq>\<^sub>m cacheOlds sw"
proof -
  have "namespaces sw' = namespaces sw \<and> cacheOlds sw' \<subseteq>\<^sub>m cacheOlds sw"
    if f: "finish_item fl M local ix T ko svc (sw\<lparr>sw_queue := q\<rparr>) e = Ret (b, sw', e')" for ko svc q
  proof -
    obtain c sw1 e1 where "dispatch fl ix T ko svc (sw\<lparr>sw_queue := q\<rparr>) e = Ret (c, sw1, e1)"
      "namespaces sw' = namespaces sw1" "cacheOlds sw' = cacheOlds sw1"
      using f by (cases "dispatch fl ix T ko svc (sw\<lparr>sw_queue := q\<rparr>) e") (auto simp: finish_item_def split: if_splits)
    then show ?thesis using dispatch_fields by fastforce
  qed
  then show ?thesis
    using assms
    by (auto simp: processNextItem_def Let_def case_prod_beta
        split: sum.splits queued.splits if_splits option.splits kobject.splits)
qed

lemma sw_result_ret: "sw_result r = Ret (x, sw') \<longleftrightarrow> (\<exists>b e. r = Ret (b, sw', e) \<and> x = Some b)"
  by (cases r rule: sw_result.cases) auto

lemma sw_result_panic: "sw_result r = Panic msg \<longleftrightarrow> r = Panic msg"
  by (cases r rule: sw_result.cases) auto

lemma sw_item_ret:
  assumes "sw_typed sw" "sw_item fl M T sw (Ret (x, sw'))"
  shows "sw_typed sw' \<and> (x = Some True \<longrightarrow> card (pending sw') < card (pending sw))"
proof -
  obtain local ix e b e' where x: "x = Some b" and r: "processNextItem fl M local ix T sw e = Ret (b, sw', e')"
    using assms(2) by (auto simp: sw_item_def eq_commute [of "Ret _"] sw_result_ret)
  have inv: "sw_inv sw" using assms(1) by (simp add: sw_typed_def)
  note q = processNextItem_queue [OF inv r]
  have fin: "finite (pending sw)" using pq.size_abs [OF inv] by simp
  have "pending sw' \<subseteq> pending sw"
  proof (cases b)
    case False
    then have "pending sw = {}" using q(2) by simp
    then have "\<nexists>v q'. Get M (sw_queue sw) = (Inr v, q')" using pq.get_ok [OF inv] by blast
    then obtain er q' where "Get M (sw_queue sw) = (Inl er, q')" by (metis prod.collapse sum.exhaust)
    then show ?thesis using r pq.get_err [OF inv, of M er q'] by (auto simp: processNextItem_def)
  qed (use q(3) in auto)
  then show ?thesis
    using sw_typed_less [OF assms(1) q(1)] processNextItem_fields [OF r] q(3) x psubset_card_mono [OF fin] by auto
qed

text \<open>The worker on a typed queue: the only item that makes it panic is an update whose old Service is gone.\<close>

lemma sw_item_panic:
  assumes "sw_typed sw" "sw_item fl M T sw (Panic msg)"
  shows "\<exists>ko. Val ko \<in> pending sw \<and> ko_Operation ko = UpdateOp \<and> cacheOlds sw (ko_Key ko) = None"
proof -
  have inv: "sw_inv sw" using assms(1) by (simp add: sw_typed_def)
  obtain local ix e where r: "processNextItem fl M local ix T sw e = Panic msg"
    using assms(2) by (auto simp: sw_item_def eq_commute [of "Panic _"] sw_result_panic)
  then obtain v where "fst (Get M (sw_queue sw)) = Inr v"
    by (cases "fst (Get M (sw_queue sw))") (auto simp: processNextItem_def case_prod_beta)
  then obtain q where g: "Get M (sw_queue sw) = (Inr v, q)" by (metis prod.collapse)
  then have v: "v \<in> pending sw" using pq.get_ok [OF inv] by blast
  then have "typed_item sw v" using assms(1) by (simp add: sw_typed_def)
  then obtain ko where ko: "v = Val ko" "\<exists>a svc. ko_Obj ko = Some (Ref a (KService svc))"
    by (cases v) (auto split: option.splits ref.splits kobject.splits)
  then have "fst (Get M (sw_queue sw)) = Inr (Val ko)" using g by simp
  from processNextItem_panic [OF this, of fl local ix T e] show ?thesis using r ko v by auto
qed

interpretation sr: watcher "sw_event M" "sw_item fl M T" "(=)" sw_typed "\<lambda>_. True" "\<lambda>sw. card (pending sw)"
  for fl :: "string \<Rightarrow> string option" and M :: "(queued, 'm) Metrics" and T :: "'x env_scheme ExportTarget"
proof
  fix sw sw' :: "'m ServiceWatcher" and b
  show "sw_typed sw'" if "sw_typed sw" "sw_event M sw sw'" using that by (rule sw_event_typed)
  show "sw_typed sw' \<and> (True \<longrightarrow> True)" if "sw_typed sw" "sw_item fl M T sw (Ret (b, sw'))"
    using sw_item_ret [OF that] by simp
  show "card (pending sw') < card (pending sw)" if "sw_typed sw" "sw_item fl M T sw (Ret (Some True, sw'))"
    using sw_item_ret [OF that] by simp
  have "\<forall>st'. sw_result r \<noteq> Ret (None, st')" for r :: "(bool \<times> 'm ServiceWatcher \<times> 'x env_scheme) go"
    by (simp add: sw_result_ret)
  then show "\<exists>r. sw_item fl M T sw r \<and> (\<forall>st'. r \<noteq> Ret (None, st'))" unfolding sw_item_def by blast
qed simp_all

lemma NewServiceWatcher_typed: "sw_typed (NewServiceWatcher nss c m)"
  using NewServiceWatcher_inv [of nss c m] by (simp add: sw_typed_def) (simp add: NewServiceWatcher_def)

lemma sw_reached_inv:
  assumes "sw_reached fl M T (NewServiceWatcher nss c m) s"
  shows "sr.watch_inv s"
  by (rule sr.watch_inv_reached [OF NewServiceWatcher_typed assms [unfolded sw_reached_def]])

section \<open>What holds while the watcher runs\<close>

text \<open>C15: whatever the informer reports and whenever the watcher is stopped, the queue holds only
  operations that carry a Service of a watched namespace with its own key, and no pointers. So none
  of the worker's type assertions fails: if a call of \<open>processNextItem\<close> panics, an update is queued
  for whose key no old Service is remembered.\<close>

theorem queue_is_typed:
  assumes "sw_reached fl M T (NewServiceWatcher nss c m) s"
  shows "sw_typed (watched s) \<and>
    (\<forall>msg. sw_item fl M T (watched s) (Panic msg) \<longrightarrow>
       (\<exists>ko. Val ko \<in> pending (watched s) \<and> ko_Operation ko = UpdateOp \<and> cacheOlds (watched s) (ko_Key ko) = None))"
proof -
  have "sw_typed (watched s)" using sw_reached_inv [OF assms] by (simp add: sr.watch_inv_def)
  then show ?thesis using sw_item_panic by blast
qed

text \<open>The worker takes no item before the informer's cache is filled. The informer ends only
  when \<open>Stop\<close> has been called, and so does \<open>Run\<close>; \<open>Stop\<close> has returned only when the informer does
  not call handlers any more.\<close>

lemma nothing_before_sync:
  assumes "sw_reached fl M T (NewServiceWatcher nss c m) s"
  shows "(0 < processed s \<longrightarrow> hasSynced s) \<and> (informer s = InfDone \<or> worker s = RunReturned \<longrightarrow> stopper s \<noteq> NotStopped)"
  using sw_reached_inv [OF assms] by (auto simp: sr.watch_inv_def)

text \<open>C19: the watcher comes to an end. When it is stopped and the informer has ended, its goroutines
  take at most three steps more than there are queued items, and when they can take none, \<open>Run\<close> has
  returned or the worker has panicked.\<close>

theorem stopped_watcher_ends:
  assumes "sw_reached fl M T (NewServiceWatcher nss c m) s" "informer s = InfDone" "(sw_step fl M T ^^ n) s s'"
  shows "n \<le> card (pending (watched s)) + 3 \<and>
    ((\<exists>s''. sw_step fl M T s' s'') \<or> worker s' = RunReturned \<or> (\<exists>msg. worker s' = Crashed msg))"
proof -
  note inv = sw_reached_inv [OF assms(1)]
  note run = sr.ended_run [OF assms(3) [unfolded sw_step_def] inv assms(2)]
  have "sr.left_over s \<le> card (pending (watched s)) + 3"
    by (cases "worker s") (simp_all add: sr.left_over_def)
  then have "n \<le> card (pending (watched s)) + 3" using run by linarith
  moreover have "sr.watch_inv s'" "informer s' = InfDone" using run by auto
  note sr.ended_progress [OF this, of M fl T]
  ultimately show ?thesis unfolding sw_step_def by blast
qed

text \<open>Runs to show it on: one Service has been added, or updated twice.\<close>

lemma sw_working:
  assumes "(sw_event M)\<^sup>*\<^sup>* sw0 sw"
  shows "sw_reached fl M T sw0 (Working sw)"
  unfolding sw_reached_def by (rule Working_reached [OF assms])

lemma plain_sw_event: "(sw_event no_metrics)\<^sup>*\<^sup>* (NewServiceWatcher [] ''c1'' ()) plain_sw"
  unfolding plain_sw_def by (rule r_into_rtranclp, rule sw_event.added)

lemma plain_sw_pending:
  "pending plain_sw = {Val (NewKeyOp ''n/s'' (Ref 0 (KService (plain ''s''))) AddOp)}"
  using enqueue_pending(2) [OF NewServiceWatcher_inv(1), of no_metrics "NewKeyOp ''n/s'' (Ref 0 (KService (plain ''s''))) AddOp"]
  by (simp add: plain_sw_def AddFunc_def NewServiceWatcher_inv ignored_def plain_def)
    (simp add: NewServiceWatcher_def)

theorem queue_is_typed_witness:
  "sw_typed (NewServiceWatcher [] ''c1'' ()) \<and> sw_typed plain_sw \<and> pending plain_sw \<noteq> {} \<and>
   (\<forall>msg. \<not> sw_item Some no_metrics (recorder (\<lambda>_. None)) plain_sw (Panic msg))"
  using queue_is_typed [OF sw_working [OF plain_sw_event, of Some "recorder (\<lambda>_. None)"]]
    queue_is_typed [OF sw_working [OF rtranclp.rtrancl_refl, of Some no_metrics "recorder (\<lambda>_. None)"], of "[]" "''c1''" "()"]
  by (simp add: Working_def plain_sw_pending NewKeyOp_def)

theorem stopped_watcher_ends_witness:
  "\<exists>s. sw_reached Some no_metrics (recorder (\<lambda>_. None)) (NewServiceWatcher [] ''c1'' ()) s \<and>
     watched s = plain_sw \<and> worker s = InWorker \<and>
     (\<nexists>s'. (sw_step Some no_metrics (recorder (\<lambda>_. None)) ^^ 5) s s')"
proof -
  let ?s = "(Working plain_sw)\<lparr>stopper := StopReturned, stopC_closed := True, watched := watched (Working plain_sw), informer := InfDone\<rparr>"
  have r: "sw_reached Some no_metrics (recorder (\<lambda>_. None)) (NewServiceWatcher [] ''c1'' ()) ?s"
    unfolding sw_reached_def
    by (rule Stop_returns_early [OF Working_reached [OF plain_sw_event]]) (simp_all add: Working_def)
  have "informer ?s = InfDone" by simp
  from stopped_watcher_ends [OF r this, of 5] have "\<nexists>s'. (sw_step Some no_metrics (recorder (\<lambda>_. None)) ^^ 5) ?s s'"
    by (auto simp: Working_def plain_sw_pending)
  with r show ?thesis by (intro exI [of _ ?s]) (simp add: Working_def)
qed

lemma plain_sw_item: "\<exists>sw'. sw_item Some no_metrics (recorder (\<lambda>_. None)) plain_sw (Ret (Some True, sw'))"
proof -
  let ?p = "processNextItem Some no_metrics 0 plain_ix (recorder (\<lambda>_. None)) plain_sw plain_env"
  have "\<not> is_panic ?p" using processNextItem_panic [OF plain_sw_Get] by (simp add: NewKeyOp_def)
  then obtain b sw' e' where p: "?p = Ret (b, sw', e')" by (cases ?p) auto
  have "sw_inv plain_sw"
    using sw_reached_inv [OF sw_working [OF plain_sw_event, of Some "recorder (\<lambda>_. None)"]]
    by (simp add: sr.watch_inv_def sw_typed_def Working_def)
  then have b using processNextItem_queue(2) p by (metis plain_sw_pending insert_not_empty)
  then show ?thesis using p unfolding sw_item_def by (metis (full_types) sw_result.simps(2))
qed

lemma nothing_before_sync_witness:
  "\<exists>s. sw_reached Some no_metrics (recorder (\<lambda>_. None)) (NewServiceWatcher [] ''c1'' ()) s \<and> 0 < processed s \<and> hasSynced s"
proof -
  obtain sw' where i: "sw_item Some no_metrics (recorder (\<lambda>_. None)) plain_sw (Ret (Some True, sw'))"
    using plain_sw_item by blast
  let ?s = "(Working plain_sw)\<lparr>watched := sw', processed := Suc (processed (Working plain_sw))\<rparr>"
  have "sw_reached Some no_metrics (recorder (\<lambda>_. None)) (NewServiceWatcher [] ''c1'' ()) ?s"
    unfolding sw_reached_def
    by (rule watch_reached.step [OF Working_reached [OF plain_sw_event] watch_step.item_done])
      (use i in \<open>simp_all add: Working_def\<close>)
  note nothing_before_sync [OF this]
  with \<open>sw_reached _ _ _ _ ?s\<close> show ?thesis by (intro exI [of _ ?s]) simp
qed

text \<open>\<open>Stop\<close> waits for the informer and not for the worker: whatever the worker is doing when the
  watcher runs, \<open>Stop\<close> can return while it still does it, and the next item is still processed.\<close>

lemma Stop_leaves_worker:
  assumes "sw_reached fl M T sw0 s" "informer s = InfRunning" "stopper s = NotStopped" "worker s = InWorker"
    "sw_item fl M T (watched s) (Ret (Some True, sw'))"
  shows "\<exists>s1 s2. sw_reached fl M T sw0 s1 \<and> stopper s1 = StopReturned \<and> watched s1 = watched s \<and>
    sw_step fl M T s1 s2 \<and> processed s2 = Suc (processed s) \<and> watched s2 = sw'"
proof -
  let ?s = "s\<lparr>stopper := StopReturned, stopC_closed := True, watched := watched s, informer := InfDone\<rparr>"
  have "sw_reached fl M T sw0 ?s"
    using Stop_returns_early [OF assms(1) [unfolded sw_reached_def] assms(2,3) refl] unfolding sw_reached_def .
  moreover have "sw_step fl M T ?s (?s\<lparr>watched := sw', processed := Suc (processed ?s)\<rparr>)"
    unfolding sw_step_def by (rule watch_step.item_done) (use assms(4,5) in simp_all)
  moreover have "stopper ?s = StopReturned" "watched ?s = watched s" by simp_all
  moreover have "processed (?s\<lparr>watched := sw', processed := Suc (processed ?s)\<rparr>) = Suc (processed s)"
    "watched (?s\<lparr>watched := sw', processed := Suc (processed ?s)\<rparr>) = sw'" by simp_all
  ultimately show ?thesis by blast
qed

lemma Stop_leaves_worker_witness:
  "\<exists>s1 s2. sw_reached Some no_metrics (recorder (\<lambda>_. None)) (NewServiceWatcher [] ''c1'' ()) s1 \<and>
     stopper s1 = StopReturned \<and> sw_step Some no_metrics (recorder (\<lambda>_. None)) s1 s2 \<and> processed s2 = 1"
proof -
  obtain sw' where i: "sw_item Some no_metrics (recorder (\<lambda>_. None)) plain_sw (Ret (Some True, sw'))"
    using plain_sw_item by blast
  have w: "watched (Working plain_sw) = plain_sw" "processed (Working plain_sw) = 0"
    "informer (Working plain_sw) = InfRunning" "stopper (Working plain_sw) = NotStopped"
    "worker (Working plain_sw) = InWorker"
    by (simp_all add: Working_def)
  have "sw_item Some no_metrics (recorder (\<lambda>_. None)) (watched (Working plain_sw)) (Ret (Some True, sw'))"
    using i by (simp only: w(1))
  from Stop_leaves_worker [OF sw_working [OF plain_sw_event] w(3-5) this] show ?thesis
    unfolding w(2) by auto
qed

text \<open>A panic of the worker on its round is a crash of the running watcher.\<close>

lemma runWorker_crashes:
  assumes "is_panic (runWorker fl M local ixs T n (watched s) e)" "sw_reached fl M T sw0 s" "worker s = InWorker"
  shows "\<exists>s' msg. sw_reached fl M T sw0 s' \<and> worker s' = Crashed msg"
  using assms
proof (induction n arbitrary: s e)
  case (Suc n)
  let ?p = "processNextItem fl M local (ixs n) T (watched s) e"
  have i: "sw_item fl M T (watched s) (sw_result ?p)" by (auto simp: sw_item_def)
  show ?case
  proof (cases ?p)
    case (Panic msg)
    then have "sw_reached fl M T sw0 (s\<lparr>worker := Crashed msg\<rparr>)"
      using i Suc.prems(2,3) unfolding sw_reached_def by (auto intro: watch_reached.step watch_step.crash)
    then show ?thesis by (metis watch.select_convs(4) watch.surjective watch.update_convs(4))
  next
    case (Ret r)
    obtain b sw' e' where r: "r = (b, sw', e')" by (cases r) auto
    then have b using Suc.prems(1) Ret by (cases b) auto
    then have "sw_item fl M T (watched s) (Ret (Some True, sw'))" using i Ret r by simp
    then have "sw_reached fl M T sw0 (s\<lparr>watched := sw', processed := Suc (processed s)\<rparr>)"
      using Suc.prems(2,3) unfolding sw_reached_def by (auto intro: watch_reached.step watch_step.item_done)
    then show ?thesis
      by (rule Suc.IH [rotated]) (use Suc.prems Ret r \<open>b\<close> in simp_all)
  qed
qed simp

text \<open>The crash can happen: when the informer reports two updates of one Service before the worker
  gets to the first, the worker takes one of them, forgets the old Service that both need, and
  panics on the other. Nothing else has to go wrong for it.\<close>

lemma two_updates_crash:
  "\<exists>s msg. sw_reached Some no_metrics (recorder (\<lambda>_. None)) (NewServiceWatcher [] ''c1'' ()) s \<and> worker s = Crashed msg"
proof -
  let ?u = "\<lambda>a b. UpdateFunc no_metrics (Ref a (KService (plain ''s''))) (Ref b (KService (plain ''s'')))"
  let ?sw = "?u 1 2 (?u 0 1 (NewServiceWatcher [] ''c1'' ()))"
  have "(sw_event no_metrics)\<^sup>*\<^sup>* (NewServiceWatcher [] ''c1'' ()) ?sw"
    by (rule rtranclp.rtrancl_into_rtrancl [OF rtranclp.rtrancl_into_rtrancl [OF rtranclp.rtrancl_refl]])
      (rule sw_event.updated; simp)+
  note reached = sw_working [OF this, of Some "recorder (\<lambda>_. None)"]
  have "is_panic (runWorker Some no_metrics 0 (\<lambda>_. plain_ix) (recorder (\<lambda>_. None)) 3 (watched (Working ?sw)) plain_env)"
    using second_update_panics by (simp add: Working_def)
  from runWorker_crashes [OF this reached] show ?thesis by (simp add: Working_def)
qed

end
