(* ===== verification/NodeRun.thy ===== *)
theory NodeRun
  imports NodeWatcher WatcherRun
begin

text \<open>
  The node watcher as it runs: the handlers, the goroutine of the queue, the worker and \<open>Stop\<close> in any
  order. The watcher comes to an end once it is stopped; a deletion that is queued by then crashes it.
\<close>

section \<open>Events and items\<close>

text \<open>
  The handlers put an operation on the queue, and the queue's own goroutine moves an item there
  whose time has come. The environment is what it is at that time: other goroutines change it.
\<close>

inductive nw_event ::
  "(queued workqueue \<Rightarrow> int) \<Rightarrow> 'x env_scheme \<Rightarrow> queued workqueue NodeWatcher \<Rightarrow> queued workqueue NodeWatcher \<Rightarrow> bool"
  for bucket :: "queued workqueue \<Rightarrow> int" and e :: "'x env_scheme" where
  added: "nw_event bucket e nw (fst (nw_AddFunc (handler_queue bucket) obj nw e))"
| updated: "nw_event bucket e nw (fst (nw_UpdateFunc (handler_queue bucket) oldObj obj nw e))"
| deleted: "nw_event bucket e nw (fst (nw_DeleteFunc (handler_queue bucket) obj nw e))"
| woken: "wq_now (nw_queue nw) \<le> t \<Longrightarrow>
    nw_event bucket e nw (nw\<lparr>nw_queue := wake item ((nw_queue nw)\<lparr>wq_now := t\<rparr>)\<rparr>)"

text \<open>One call of \<open>processNextItem\<close>, and one of \<open>Stop\<close>.\<close>

fun nw_result :: "(bool option \<times> 'q NodeWatcher \<times> 'e) go \<Rightarrow> (bool option \<times> 'q NodeWatcher) go" where
  "nw_result (Panic msg) = Panic msg"
| "nw_result (Ret (b, nw, e)) = Ret (b, nw)"

definition nw_step_item ::
  "(queued workqueue \<Rightarrow> int) \<Rightarrow> 'x env_scheme ExportTarget \<Rightarrow> queued workqueue NodeWatcher \<Rightarrow>
   (bool option \<times> queued workqueue NodeWatcher) go \<Rightarrow> bool" where
  "nw_step_item bucket T nw r =
     (\<exists>(st :: string node_store) e. r = nw_result (nw_processNextItem (handler_queue bucket) st T nw e))"

definition nw_close ::
  "(queued workqueue \<Rightarrow> int) \<Rightarrow> 'x env_scheme \<Rightarrow> queued workqueue NodeWatcher \<Rightarrow> queued workqueue NodeWatcher \<Rightarrow> bool" where
  "nw_close bucket e nw nw' = (\<exists>e'. nw_Stop (handler_queue bucket) nw e = Ret (nw', e'))"

definition nw_step ::
  "(queued workqueue \<Rightarrow> int) \<Rightarrow> 'x env_scheme ExportTarget \<Rightarrow> queued workqueue NodeWatcher watch \<Rightarrow>
   queued workqueue NodeWatcher watch \<Rightarrow> bool" where
  "nw_step bucket T =
     watch_step (\<lambda>nw nw'. \<exists>e :: 'x env_scheme. nw_event bucket e nw nw') (nw_step_item bucket T)
       (\<lambda>nw nw'. \<exists>e :: 'x env_scheme. nw_close bucket e nw nw')"

definition nw_reached ::
  "(queued workqueue \<Rightarrow> int) \<Rightarrow> 'x env_scheme ExportTarget \<Rightarrow> queued workqueue NodeWatcher \<Rightarrow>
   queued workqueue NodeWatcher watch \<Rightarrow> bool" where
  "nw_reached bucket T =
     watch_reached (\<lambda>nw nw'. \<exists>e :: 'x env_scheme. nw_event bucket e nw nw') (nw_step_item bucket T)
       (\<lambda>nw nw'. \<exists>e :: 'x env_scheme. nw_close bucket e nw nw')"

section \<open>The queue of a running watcher\<close>

text \<open>
  Between two calls of \<open>processNextItem\<close> no item is being processed; everything that is queued or
  waiting is a \<open>KeyOp\<close> that carries an object; the queue is shut down when the channel is closed.
\<close>

fun node_op :: "queued \<Rightarrow> bool" where
  "node_op (Ptr a) = False"
| "node_op (Val ko) = (ko_Attempts ko = 0 \<and> ko_Obj ko \<noteq> None)"

definition nw_ok :: "queued workqueue NodeWatcher \<Rightarrow> bool" where
  "nw_ok nw =
     (wq_inv (nw_queue nw) \<and> processing (nw_queue nw) = {} \<and> nw_stopC nw = shuttingDown (nw_queue nw) \<and>
      (\<forall>v \<in> dirty (nw_queue nw) \<union> dom (waiting (nw_queue nw)). node_op v))"

lemma nw_ok_view:
  "nw_ok nw \<longleftrightarrow> wq_inv (nw_queue nw) \<and> busy (wq_view (nw_queue nw)) = {} \<and>
     nw_stopC nw = shut (wq_view (nw_queue nw)) \<and>
     (\<forall>v \<in> todo (wq_view (nw_queue nw)) \<union> later (wq_view (nw_queue nw)). node_op v)"
  by (simp add: nw_ok_def wq_view_def)

lemma on_queue_stopC: "nw_stopC (fst (on_queue f nw e)) = nw_stopC nw"
  by (simp add: on_queue_def Let_def case_prod_beta)

lemma nw_enqueue_view:
  assumes "nw_ok nw" and obj: "ko_Obj ko \<noteq> None" "ko_Attempts ko = 0"
  shows "nw_ok (fst (nw_enqueue (handler_queue bucket) ko nw e))"
    "wq_view (nw_queue (fst (nw_enqueue (handler_queue bucket) ko nw e))) = spec_add (Val ko) (wq_view (nw_queue nw))"
proof -
  let ?q = "q_Add (handler_queue bucket) (Val ko) (nw_queue nw, e)"
  have "wq_inv (nw_queue nw)" using assms(1) by (simp add: nw_ok_def)
  then have q: "wq_inv (fst ?q)" "wq_view (fst ?q) = spec_add (Val ko) (wq_view (nw_queue nw))"
    using nq.add_ok [of "(nw_queue nw, e)" bucket "Val ko"] by simp_all
  then show "wq_view (nw_queue (fst (nw_enqueue (handler_queue bucket) ko nw e))) = spec_add (Val ko) (wq_view (nw_queue nw))"
    by (simp add: nw_enqueue_def Let_def case_prod_beta)
  then show "nw_ok (fst (nw_enqueue (handler_queue bucket) ko nw e))"
    using assms q by (auto simp: nw_ok_view nw_enqueue_def Let_def case_prod_beta spec_add_def)
qed

lemma handler_ok:
  assumes "nw_ok nw"
  shows "nw_ok (case MetaNamespaceKeyFunc obj of Inl err \<Rightarrow> nw
    | Inr key \<Rightarrow> fst (nw_enqueue (handler_queue bucket) (NewKeyOp key r opn) nw e))"
  using assms nw_enqueue_view(1) [OF assms, of "NewKeyOp _ r opn" bucket e]
  by (auto simp: NewKeyOp_def split: sum.split)

lemma nw_event_eqs:
  "fst (nw_AddFunc Q obj nw e) = (case MetaNamespaceKeyFunc (deref obj) of Inl err \<Rightarrow> nw
    | Inr key \<Rightarrow> fst (nw_enqueue Q (NewKeyOp key obj AddOp) nw e))"
  "fst (nw_UpdateFunc Q oldObj obj nw e) = (case MetaNamespaceKeyFunc (deref obj) of Inl err \<Rightarrow> nw
    | Inr key \<Rightarrow> fst (nw_enqueue Q (NewKeyOp key obj UpdateOp) nw e))"
  "fst (nw_DeleteFunc Q obj nw e) = (case MetaNamespaceKeyFunc (deref obj) of Inl err \<Rightarrow> nw
    | Inr key \<Rightarrow> fst (nw_enqueue Q (NewKeyOp key obj DeleteOp) nw e))"
  by (simp_all add: nw_AddFunc_def nw_UpdateFunc_def nw_DeleteFunc_def split: sum.split)

lemma wake_view:
  assumes "wq_inv q"
  shows "wq_inv (wake x q)" "processing (wake x q) = processing q" "shuttingDown (wake x q) = shuttingDown q"
    "dirty (wake x q) \<union> dom (waiting (wake x q)) \<subseteq> dirty q \<union> dom (waiting q)"
    "shuttingDown q \<Longrightarrow> wake x q = q"
  using wake_ok(1) [OF assms] by (auto simp: wake_def wq_Add_def Let_def split: option.splits)

lemma nw_event_ok:
  assumes "nw_ok nw" "nw_event bucket e nw nw'"
  shows "nw_ok nw'"
  using assms(2)
proof cases
  case (woken t item)
  have "wq_inv ((nw_queue nw)\<lparr>wq_now := t\<rparr>)" using assms(1) by (simp add: nw_ok_def wq_inv_def)
  note w = wake_view [OF this, of item]
  have "node_op v"
    if "v \<in> dirty (nw_queue nw') \<union> dom (waiting (nw_queue nw'))" for v
  proof -
    have "v \<in> dirty (nw_queue nw) \<union> dom (waiting (nw_queue nw))" using that w(4) unfolding woken(1) by simp blast
    then show ?thesis using assms(1) unfolding nw_ok_def by blast
  qed
  then show ?thesis using w(1-3) assms(1) woken(1) by (simp add: nw_ok_def)
qed (use assms(1) in \<open>simp_all only: nw_event_eqs handler_ok\<close>)

lemma exportNodes_stopC: "exportNodes st T nw e = Ret (nw', e') \<Longrightarrow> nw_stopC nw' = nw_stopC nw"
  by (auto simp: exportNodes_def Let_def split: go.splits prod.splits if_splits)

lemma nw_item_stopC:
  assumes "nw_item Q st T item nw e = Ret (nw', e')"
  shows "nw_stopC nw' = nw_stopC nw"
proof -
  have fin: "nw_stopC nw' = nw_stopC nw" if f: "nw_finish Q st T ko node nw e = Ret (nw', e')" for ko node
  proof -
    obtain b nw1 e1 where d: "nw_dispatch st T (ko_Operation ko) nw e = Ret (b, nw1, e1)"
      using f by (cases "nw_dispatch st T (ko_Operation ko) nw e") (auto simp: nw_finish_def)
    then have "nw_stopC nw1 = nw_stopC nw"
      by (auto simp: nw_dispatch_def Let_def split: go.splits dest: exportNodes_stopC)
    moreover have "\<exists>f e2. (nw', e') = on_queue f nw1 e2 \<or> nw' = nw1"
      using f d by (auto simp: nw_finish_def Let_def time_Now_def split: go.splits if_splits) metis+
    ultimately show ?thesis using on_queue_stopC by (metis fst_conv)
  qed
  show ?thesis
    using assms fin on_queue_stopC [of "q_Forget Q item" nw e]
    by (auto simp: nw_item_def Let_def split: queued.splits if_splits sum.splits option.splits stored.splits)
qed

lemma nw_processNextItem_stopC:
  assumes "nw_processNextItem Q st T nw e = Ret (b, nw', e')"
  shows "nw_stopC nw' = nw_stopC nw"
proof -
  obtain g q e1 where g: "q_Get Q (nw_queue nw, e) = (g, q, e1)" by (metis prod.exhaust)
  show ?thesis
  proof (cases g)
    case (Got item)
    then obtain nw1 e2 where i: "nw_item Q st T item (nw\<lparr>nw_queue := q\<rparr>) e1 = Ret (nw1, e2)"
      and d: "on_queue (q_Done Q item) nw1 e2 = (nw', e')"
      using assms g by (auto simp: nw_processNextItem_def split: go.splits)
    have "nw_stopC nw' = nw_stopC nw1" using on_queue_stopC [of "q_Done Q item" nw1 e2] d by simp
    then show ?thesis using nw_item_stopC [OF i] by simp
  qed (use assms g in \<open>auto simp: nw_processNextItem_def\<close>)
qed

text \<open>One item: the queue loses it, it is not a deletion, and what is new in the queue waits.\<close>

lemma nw_item_ok:
  assumes ok: "nw_ok nw" and r: "nw_processNextItem (handler_queue bucket) st T nw e = Ret (b, nw', e')"
  shows "nw_ok nw'" "nw_stopC nw' = nw_stopC nw"
    "b = Some True \<Longrightarrow> \<exists>item. item \<in> dirty (nw_queue nw) \<and> \<not> deletion item \<and>
       dirty (nw_queue nw') = dirty (nw_queue nw) - {item}"
    "b \<noteq> Some True \<Longrightarrow> dirty (nw_queue nw') = dirty (nw_queue nw) \<and> dirty (nw_queue nw) = {} \<and>
       (b = Some False \<longleftrightarrow> nw_stopC nw)"
proof -
  have i: "(wq_inv \<circ> fst) (nw_queue nw, e)" "busy ((wq_view \<circ> fst) (nw_queue nw, e)) = {}"
    using ok by (simp_all add: nw_ok_view)
  note p = nq.nw_processNextItem_view [OF i r, of e]
  show s: "nw_stopC nw' = nw_stopC nw" by (rule nw_processNextItem_stopC [OF r])
  show none: "dirty (nw_queue nw') = dirty (nw_queue nw) \<and> dirty (nw_queue nw) = {} \<and> (b = Some False \<longleftrightarrow> nw_stopC nw)"
    if "b \<noteq> Some True"
    using p(3) [OF that] ok by (simp add: wq_view_def nw_ok_def)
  have some: "\<exists>item now. item \<in> dirty (nw_queue nw) \<and> \<not> deletion item \<and> wq_view (nw_queue nw') =
      (let v = (wq_view (nw_queue nw))\<lparr>todo := dirty (nw_queue nw) - {item}\<rparr>
       in if delayed st now item then spec_after item 1 v else v)" if "b = Some True"
    using p(2) [OF that] by (simp add: wq_view_def)
  show "\<exists>item. item \<in> dirty (nw_queue nw) \<and> \<not> deletion item \<and> dirty (nw_queue nw') = dirty (nw_queue nw) - {item}"
    if "b = Some True"
    using some [OF that] by (auto simp: wq_view_def spec_after_def Let_def split: if_splits)
  have "busy (wq_view (nw_queue nw')) = {} \<and> shut (wq_view (nw_queue nw')) = shut (wq_view (nw_queue nw)) \<and>
      todo (wq_view (nw_queue nw')) \<union> later (wq_view (nw_queue nw')) \<subseteq> todo (wq_view (nw_queue nw)) \<union> later (wq_view (nw_queue nw))"
  proof (cases "b = Some True")
    case True
    then obtain item now where item: "item \<in> todo (wq_view (nw_queue nw))" and v: "wq_view (nw_queue nw') =
      (let v = (wq_view (nw_queue nw))\<lparr>todo := dirty (nw_queue nw) - {item}\<rparr>
       in if delayed st now item then spec_after item 1 v else v)"
      using some by (auto simp: wq_view_def)
    have "dirty (nw_queue nw) = todo (wq_view (nw_queue nw))" by (simp add: wq_view_def)
    then show ?thesis using ok item unfolding v nw_ok_view by (simp add: spec_after_def Let_def) blast
  next
    case False
    then show ?thesis using p(3) [OF False] ok by (auto simp: nw_ok_view)
  qed
  then show "nw_ok nw'" using p(1) ok s by (auto simp: nw_ok_view)
qed

lemma nw_result_ret: "nw_result r = Ret (b, nw') \<longleftrightarrow> (\<exists>e. r = Ret (b, nw', e))"
  by (cases r rule: nw_result.cases) auto

lemma nw_step_item_ret:
  assumes "nw_ok nw" "nw_step_item bucket T nw (Ret (b, nw'))"
  shows "nw_ok nw' \<and> nw_stopC nw' = nw_stopC nw"
    "b = Some True \<Longrightarrow> \<exists>item. item \<in> dirty (nw_queue nw) \<and> \<not> deletion item \<and>
       dirty (nw_queue nw') = dirty (nw_queue nw) - {item}"
    "b \<noteq> Some True \<Longrightarrow> dirty (nw_queue nw') = dirty (nw_queue nw) \<and> dirty (nw_queue nw) = {} \<and>
       (b = Some False \<longleftrightarrow> nw_stopC nw)"
proof -
  obtain st e e' where r: "nw_processNextItem (handler_queue bucket) (st :: string node_store) T nw e = Ret (b, nw', e')"
    using assms(2) by (auto simp: nw_step_item_def eq_commute [of "Ret _"] nw_result_ret)
  show "nw_ok nw' \<and> nw_stopC nw' = nw_stopC nw"
    "b = Some True \<Longrightarrow> \<exists>item. item \<in> dirty (nw_queue nw) \<and> \<not> deletion item \<and>
       dirty (nw_queue nw') = dirty (nw_queue nw) - {item}"
    "b \<noteq> Some True \<Longrightarrow> dirty (nw_queue nw') = dirty (nw_queue nw) \<and> dirty (nw_queue nw) = {} \<and>
       (b = Some False \<longleftrightarrow> nw_stopC nw)"
    using nw_item_ok [OF assms(1) r] by simp_all
qed

lemma nw_event_stopC: "nw_event bucket e nw nw' \<Longrightarrow> nw_stopC nw' = nw_stopC nw"
proof (induction rule: nw_event.induct)
  case (woken nw t item)
  show ?case by simp
qed (simp_all add: nw_event_eqs nw_enqueue_def Let_def case_prod_beta split: sum.split)

lemma nw_close_ok:
  assumes "nw_ok nw" "nw_close bucket e nw nw'"
  shows "nw_ok nw' \<and> nw_stopC nw'" "dirty (nw_queue nw') = dirty (nw_queue nw)"
proof -
  let ?q = "q_ShutDown (handler_queue bucket) (nw_queue nw, e)"
  have "wq_inv (nw_queue nw)" using assms(1) by (simp add: nw_ok_def)
  then have q: "wq_inv (fst ?q)" "wq_view (fst ?q) = (wq_view (nw_queue nw))\<lparr>shut := True\<rparr>"
    using nq.shutdown_ok [of "(nw_queue nw, e)" bucket] by simp_all
  have nw': "nw' = nw\<lparr>nw_stopC := True, nw_queue := fst ?q\<rparr>"
    using assms(2) by (auto simp: nw_close_def nw_Stop_def on_queue_def Let_def case_prod_beta split: if_splits)
  show "nw_ok nw' \<and> nw_stopC nw'" using q assms(1) nw' by (simp add: nw_ok_view)
  show "dirty (nw_queue nw') = dirty (nw_queue nw)" using q(2) nw' by (simp add: wq_view_def)
qed

interpretation nr: watcher
  "\<lambda>nw nw'. \<exists>e :: 'x env_scheme. nw_event bucket e nw nw'" "nw_step_item bucket T"
  "\<lambda>nw nw'. \<exists>e :: 'x env_scheme. nw_close bucket e nw nw'" nw_ok nw_stopC "\<lambda>nw. card (dirty (nw_queue nw))"
  for bucket :: "queued workqueue \<Rightarrow> int" and T :: "'x env_scheme ExportTarget"
proof
  fix nw nw' :: "queued workqueue NodeWatcher" and b
  show "nw_ok nw'" if "nw_ok nw" "\<exists>e :: 'x env_scheme. nw_event bucket e nw nw'"
    using that nw_event_ok by blast
  show "nw_stopC nw'" if "nw_stopC nw" "\<exists>e :: 'x env_scheme. nw_event bucket e nw nw'"
    using that nw_event_stopC by blast
  show "nw_ok nw' \<and> (nw_stopC nw \<longrightarrow> nw_stopC nw')" if "nw_ok nw" "nw_step_item bucket T nw (Ret (b, nw'))"
    using nw_step_item_ret(1) [OF that] by simp
  show "nw_ok nw' \<and> nw_stopC nw'" if "nw_ok nw" "\<exists>e :: 'x env_scheme. nw_close bucket e nw nw'"
    using that nw_close_ok(1) by blast
  show "card (dirty (nw_queue nw')) < card (dirty (nw_queue nw))"
    if "nw_ok nw" "nw_step_item bucket T nw (Ret (Some True, nw'))"
  proof -
    have "finite (dirty (nw_queue nw))" using that(1) by (simp add: nw_ok_def wq_inv_def)
    then show ?thesis using nw_step_item_ret(2) [OF that] by (metis card_Diff1_less)
  qed
  show "\<exists>r. nw_step_item bucket T nw r \<and> (\<forall>nw'. r \<noteq> Ret (None, nw'))" if "nw_ok nw" "nw_stopC nw"
  proof -
    let ?r = "nw_result (nw_processNextItem (handler_queue bucket) (undefined :: string node_store) T nw undefined)"
    have i: "nw_step_item bucket T nw ?r" by (auto simp: nw_step_item_def)
    then have "?r \<noteq> Ret (None, nw')" for nw' using nw_step_item_ret(3) [OF that(1), of bucket T None nw'] that(2) by auto
    with i show ?thesis by blast
  qed
qed

lemma NewNodeWatcher_ok: "nw_ok (NewNodeWatcher nc (newQueue now))"
  by (simp add: nw_ok_def NewNodeWatcher_def) (simp add: newQueue_def)

lemma nw_reached_inv:
  assumes "nw_reached bucket T (NewNodeWatcher nc (newQueue now)) s"
  shows "nr.watch_inv s"
  by (rule nr.watch_inv_reached [OF NewNodeWatcher_ok assms [unfolded nw_reached_def]])

text \<open>The channel is closed by \<open>Stop\<close> only, and a closed watcher takes nothing in.\<close>

lemma nw_not_stopped:
  assumes "nw_reached bucket T (NewNodeWatcher nc (newQueue now)) s"
  shows "nw_stopC (watched s) \<Longrightarrow> stopper s \<noteq> NotStopped"
  using assms unfolding nw_reached_def
proof (induction rule: watch_reached.induct)
  case init
  then show ?case by (simp add: NewWatch_def NewNodeWatcher_def)
next
  case (step s s')
  have ok: "nw_ok (watched s)"
    using nr.watch_inv_reached [OF NewNodeWatcher_ok step.hyps(1)] by (simp add: nr.watch_inv_def)
  show ?case
    using step.hyps(2)
  proof cases
    case (handler nw')
    then show ?thesis using step nw_event_stopC by auto
  next
    case (item_done nw')
    then show ?thesis using step nw_step_item_ret(1) [OF ok item_done(3)] by simp
  next
    case (round_ends nw')
    then show ?thesis using step nw_step_item_ret(1) [OF ok round_ends(3)] by simp
  qed (use step in simp_all)
qed

lemma nw_event_shut:
  assumes "nw_ok nw" "nw_stopC nw" "nw_event bucket e nw nw'"
  shows "dirty (nw_queue nw') = dirty (nw_queue nw)"
  using assms(3)
proof cases
  case (woken t item)
  then show ?thesis using assms(1,2) by (simp add: nw_ok_def wake_def split: option.split)
next
  have h: "dirty (nw_queue (case MetaNamespaceKeyFunc obj of Inl err \<Rightarrow> nw
      | Inr key \<Rightarrow> fst (nw_enqueue (handler_queue bucket) (NewKeyOp key r opn) nw e))) = dirty (nw_queue nw)" for obj r opn
    using nw_enqueue_view(2) [OF assms(1), of "NewKeyOp _ r opn" bucket e] assms(1,2)
    by (simp add: NewKeyOp_def spec_add_def nw_ok_def wq_view_def split: sum.split)
  { case added then show ?thesis by (simp only: nw_event_eqs h) }
  { case updated then show ?thesis by (simp only: nw_event_eqs h) }
  { case deleted then show ?thesis by (simp only: nw_event_eqs h) }
qed

text \<open>A queued deletion stays in the queue until the worker panics on it.\<close>

lemma deletion_stays_step:
  assumes "nw_step bucket T s s'" "nr.watch_inv s" "informer s = InfDone" "deletion item"
    "worker s = InWorker \<and> item \<in> dirty (nw_queue (watched s)) \<or> (\<exists>msg. worker s = Crashed msg)"
  shows "worker s' = InWorker \<and> item \<in> dirty (nw_queue (watched s')) \<or> (\<exists>msg. worker s' = Crashed msg)"
proof -
  have ok: "nw_ok (watched s)" and closed: "stopper s \<noteq> NotStopped"
    using assms(2,3) by (auto simp: nr.watch_inv_def)
  show ?thesis
    using assms(1) [unfolded nw_step_def]
  proof cases
    case (item_done nw')
    then show ?thesis using nw_step_item_ret(2) [OF ok item_done(3)] assms(4,5) by auto
  next
    case (round_ends nw')
    then show ?thesis using nw_step_item_ret(3) [OF ok round_ends(3)] assms(5) by auto
  qed (use assms(3,5) closed in auto)
qed

lemma deletion_stays:
  assumes "nr.watch_inv s" "informer s = InfDone" "worker s = InWorker" "item \<in> dirty (nw_queue (watched s))"
    "deletion item" "(nw_step bucket T ^^ n) s s'"
  shows "worker s' = InWorker \<and> item \<in> dirty (nw_queue (watched s')) \<or> (\<exists>msg. worker s' = Crashed msg)"
  using assms(6)
proof (induction n arbitrary: s')
  case (Suc n)
  then obtain t where t: "(nw_step bucket T ^^ n) s t" "nw_step bucket T t s'" by auto
  have "nr.watch_inv t" "informer t = InfDone"
    using nr.ended_run [OF t(1) [unfolded nw_step_def] assms(1,2)] by auto
  then show ?case using deletion_stays_step [OF t(2) _ _ assms(5)] Suc.IH [OF t(1)] by blast
qed (use assms in simp)

section \<open>What holds while the watcher runs\<close>

text \<open>Whatever the informer reports and whenever the watcher is stopped, between two items nothing
  is being processed, the queue and the items that wait hold only operations that carry an object,
  and the queue is shut down exactly when \<open>Stop\<close> has been called. The worker takes no item before
  the informer's cache is filled.\<close>

lemma node_queue_is_typed:
  assumes "nw_reached bucket T (NewNodeWatcher nc (newQueue now)) s"
  shows "nw_ok (watched s) \<and> (shuttingDown (nw_queue (watched s)) \<longleftrightarrow> stopper s \<noteq> NotStopped) \<and>
    (0 < processed s \<longrightarrow> hasSynced s)"
proof -
  have "nw_ok (watched s)" "stopper s \<noteq> NotStopped \<longrightarrow> nw_stopC (watched s)" "0 < processed s \<longrightarrow> hasSynced s"
    using nw_reached_inv [OF assms] by (auto simp: nr.watch_inv_def)
  moreover have "nw_stopC (watched s) \<longrightarrow> stopper s \<noteq> NotStopped"
    using nw_not_stopped [OF assms] by blast
  ultimately show ?thesis by (auto simp: nw_ok_def)
qed

text \<open>Once \<open>Stop\<close> has been called nothing is added to the queue any more, whatever the informer
  still reports and whichever grace periods end.\<close>

lemma stopped_queue_only_shrinks:
  assumes "nw_reached bucket T (NewNodeWatcher nc (newQueue now)) s" "stopper s \<noteq> NotStopped" "nw_step bucket T s s'"
  shows "dirty (nw_queue (watched s')) \<subseteq> dirty (nw_queue (watched s))"
proof -
  have ok: "nw_ok (watched s)" and shut: "nw_stopC (watched s)"
    using nw_reached_inv [OF assms(1)] assms(2) by (auto simp: nr.watch_inv_def)
  show ?thesis
    using assms(3) [unfolded nw_step_def]
  proof cases
    case (handler nw')
    then show ?thesis using nw_event_shut [OF ok shut] by auto
  next
    case (item_done nw')
    then show ?thesis using nw_step_item_ret(2) [OF ok item_done(3)] by auto
  next
    case (round_ends nw')
    then show ?thesis using nw_step_item_ret(3) [OF ok round_ends(3)] by simp
  next
    case (stop nw')
    then show ?thesis using nw_close_ok(2) [OF ok] by auto
  qed simp_all
qed

text \<open>The watcher comes to an end. When it is stopped and the informer has ended, its goroutines
  take at most three steps more than there are queued items, and when they can take none, \<open>Run\<close> has
  returned or the worker has panicked.\<close>

lemma stopped_node_watcher_ends:
  assumes "nw_reached bucket T (NewNodeWatcher nc (newQueue now)) s" "informer s = InfDone"
    "(nw_step bucket T ^^ n) s s'"
  shows "n \<le> card (dirty (nw_queue (watched s))) + 3 \<and>
    ((\<exists>s''. nw_step bucket T s' s'') \<or> worker s' = RunReturned \<or> (\<exists>msg. worker s' = Crashed msg))"
proof -
  note run = nr.ended_run [OF assms(3) [unfolded nw_step_def] nw_reached_inv [OF assms(1)] assms(2)]
  have "nr.left_over s \<le> card (dirty (nw_queue (watched s))) + 3"
    by (cases "worker s") (simp_all add: nr.left_over_def)
  then have "n \<le> card (dirty (nw_queue (watched s))) + 3" using run by linarith
  moreover have "nr.watch_inv s'" "informer s' = InfDone" using run by auto
  note nr.ended_progress [OF this, of bucket T]
  ultimately show ?thesis unfolding nw_step_def by blast
qed

text \<open>C20: a deletion that is queued when the informer has ended is fatal: while the worker is on its
  round, every run that goes on until nothing can happen ends with the crash.\<close>

theorem queued_deletion_crashes:
  assumes "nw_reached bucket T (NewNodeWatcher nc (newQueue now)) s" "informer s = InfDone" "worker s = InWorker"
    "item \<in> dirty (nw_queue (watched s))" "deletion item"
    "(nw_step bucket T ^^ n) s s'" "\<nexists>s''. nw_step bucket T s' s''"
  shows "\<exists>msg. worker s' = Crashed msg"
proof -
  note inv = nw_reached_inv [OF assms(1)]
  have "worker s' = InWorker \<and> item \<in> dirty (nw_queue (watched s')) \<or> (\<exists>msg. worker s' = Crashed msg)"
    by (rule deletion_stays [OF inv assms(2-5) assms(6)])
  moreover have "nr.watch_inv s'" "informer s' = InfDone"
    using nr.ended_run [OF assms(6) [unfolded nw_step_def] inv assms(2)] by auto
  ultimately show ?thesis
    using nr.ended_progress [of s' bucket T] assms(7) unfolding nw_step_def by auto
qed

text \<open>A run to show it on: a node is removed, then the watcher is stopped while the worker is on its round.\<close>

definition gone_nw :: "queued workqueue NodeWatcher" where
  "gone_nw = fst (nw_DeleteFunc (handler_queue (\<lambda>_. 0)) (Ref 0 (KOther (Some ''n1''))) (demo_nw (newQueue 0)) plain_env)"

lemma demo_nw_new: "\<exists>nc. demo_nw (newQueue 0) = NewNodeWatcher nc (newQueue 0)"
  by (auto simp: demo_nw_def)

lemma gone_nw_facts: "nw_ok gone_nw" "dirty (nw_queue gone_nw) = {node_item DeleteOp}" "\<not> nw_stopC gone_nw"
proof -
  let ?ko = "NewKeyOp ''n1'' (Ref 0 (KOther (Some ''n1''))) DeleteOp"
  have ok: "nw_ok (demo_nw (newQueue 0))" using demo_nw_new NewNodeWatcher_ok by metis
  have g: "gone_nw = fst (nw_enqueue (handler_queue (\<lambda>_. 0)) ?ko (demo_nw (newQueue 0)) plain_env)"
    by (simp add: gone_nw_def nw_event_eqs)
  note v = nw_enqueue_view [OF ok, of ?ko "\<lambda>_. 0" plain_env, folded g]
  show "nw_ok gone_nw" by (rule v(1)) (simp_all add: NewKeyOp_def)
  have "wq_view (nw_queue gone_nw) = spec_add (Val ?ko) (wq_view (nw_queue (demo_nw (newQueue 0))))"
    by (rule v(2)) (simp_all add: NewKeyOp_def)
  then show "dirty (nw_queue gone_nw) = {node_item DeleteOp}" "\<not> nw_stopC gone_nw"
    using \<open>nw_ok gone_nw\<close> by (simp_all add: demo_facts wq_view_def spec_add_def node_item_def nw_ok_def newQueue_def)
qed

abbreviation demo_reached :: "queued workqueue NodeWatcher watch \<Rightarrow> bool" where
  "demo_reached \<equiv> nw_reached (\<lambda>_. 0) (recorder (\<lambda>_. None)) (demo_nw (newQueue 0))"

lemma gone_reached: "demo_reached (Working gone_nw)"
proof -
  have "nw_event (\<lambda>_. 0) plain_env (demo_nw (newQueue 0)) gone_nw" unfolding gone_nw_def by (rule nw_event.deleted)
  then have "(\<lambda>nw nw'. \<exists>e :: recorded. nw_event (\<lambda>_. 0) e nw nw')\<^sup>*\<^sup>* (demo_nw (newQueue 0)) gone_nw" by blast
  then show ?thesis unfolding nw_reached_def by (rule Working_reached)
qed

text \<open>\<open>Stop\<close> has been called, and it has returned.\<close>

lemma gone_stopped:
  "\<exists>s. demo_reached s \<and> informer s = InfRunning \<and> worker s = InWorker \<and> stopper s = AtWait \<and>
     dirty (nw_queue (watched s)) = {node_item DeleteOp}"
  "\<exists>s. demo_reached s \<and> informer s = InfDone \<and> worker s = InWorker \<and> stopper s = StopReturned \<and>
     dirty (nw_queue (watched s)) = {node_item DeleteOp}"
proof -
  obtain nw' e' where "nw_Stop (handler_queue (\<lambda>_. 0)) gone_nw plain_env = Ret (nw', e')"
    using gone_nw_facts(3) by (simp add: nw_Stop_def) (metis prod.collapse)
  then have close: "nw_close (\<lambda>_. 0) plain_env gone_nw nw'" by (auto simp: nw_close_def)
  have d: "dirty (nw_queue nw') = {node_item DeleteOp}" using nw_close_ok(2) [OF _ close] gone_nw_facts by simp
  let ?s = "(Working gone_nw)\<lparr>stopper := AtWait, stopC_closed := True, watched := nw'\<rparr>"
  have "nw_step (\<lambda>_. 0) (recorder (\<lambda>_. None)) (Working gone_nw) ?s"
    unfolding nw_step_def by (rule watch_step.stop) (use close in \<open>auto simp: Working_def\<close>)
  then have "demo_reached ?s"
    using gone_reached unfolding nw_reached_def nw_step_def by (rule watch_reached.step [rotated])
  then show "\<exists>s. demo_reached s \<and> informer s = InfRunning \<and> worker s = InWorker \<and> stopper s = AtWait \<and>
     dirty (nw_queue (watched s)) = {node_item DeleteOp}"
    using d by (intro exI [of _ ?s]) (simp add: Working_def)
  let ?t = "(Working gone_nw)\<lparr>stopper := StopReturned, stopC_closed := True, watched := nw', informer := InfDone\<rparr>"
  have "demo_reached ?t"
    unfolding nw_reached_def
    by (rule Stop_returns_early [OF gone_reached [unfolded nw_reached_def]]) (use close in \<open>auto simp: Working_def\<close>)
  then show "\<exists>s. demo_reached s \<and> informer s = InfDone \<and> worker s = InWorker \<and> stopper s = StopReturned \<and>
     dirty (nw_queue (watched s)) = {node_item DeleteOp}"
    using d by (intro exI [of _ ?t]) (simp add: Working_def)
qed

lemma node_queue_is_typed_witness:
  "\<exists>s. demo_reached s \<and> nw_ok (watched s) \<and> dirty (nw_queue (watched s)) = {node_item DeleteOp} \<and>
     shuttingDown (nw_queue (watched s))"
proof -
  obtain nc where nc: "demo_nw (newQueue 0) = NewNodeWatcher nc (newQueue 0)" using demo_nw_new by blast
  obtain s where "demo_reached s" "stopper s = AtWait" "dirty (nw_queue (watched s)) = {node_item DeleteOp}"
    using gone_stopped(1) by blast
  moreover from node_queue_is_typed [OF this(1) [unfolded nc]]
  have "nw_ok (watched s) \<and> shuttingDown (nw_queue (watched s))" using \<open>stopper s = AtWait\<close> by simp
  ultimately show ?thesis by blast
qed

lemma stopped_queue_only_shrinks_witness:
  "\<exists>s s'. demo_reached s \<and> nw_step (\<lambda>_. 0) (recorder (\<lambda>_. None)) s s' \<and>
     watched s' = fst (nw_AddFunc (handler_queue (\<lambda>_. 0)) (Ref 1 (KOther (Some ''n2''))) (watched s) plain_env) \<and>
     dirty (nw_queue (watched s')) \<subseteq> {node_item DeleteOp}"
proof -
  obtain nc where nc: "demo_nw (newQueue 0) = NewNodeWatcher nc (newQueue 0)" using demo_nw_new by blast
  obtain s where s: "demo_reached s" "informer s = InfRunning" "stopper s = AtWait"
    "dirty (nw_queue (watched s)) = {node_item DeleteOp}"
    using gone_stopped(1) by blast
  let ?s' = "s\<lparr>watched := fst (nw_AddFunc (handler_queue (\<lambda>_. 0)) (Ref 1 (KOther (Some ''n2''))) (watched s) plain_env)\<rparr>"
  have step: "nw_step (\<lambda>_. 0) (recorder (\<lambda>_. None)) s ?s'"
    unfolding nw_step_def
    by (rule watch_step.handler [OF s(2)]) (rule exI [of _ plain_env], rule nw_event.added)
  have "stopper s \<noteq> NotStopped" using s(3) by simp
  from stopped_queue_only_shrinks [OF s(1) [unfolded nc] this step, unfolded s(4)]
  show ?thesis using s(1) step by (intro exI [of _ s] exI [of _ ?s']) simp
qed

lemma stopped_node_watcher_ends_witness:
  "\<exists>s. demo_reached s \<and> worker s = InWorker \<and> stopper s = StopReturned \<and>
     (\<nexists>s'. (nw_step (\<lambda>_. 0) (recorder (\<lambda>_. None)) ^^ 5) s s')"
proof -
  obtain nc where nc: "demo_nw (newQueue 0) = NewNodeWatcher nc (newQueue 0)" using demo_nw_new by blast
  obtain s where s: "demo_reached s" "informer s = InfDone" "worker s = InWorker" "stopper s = StopReturned"
    "dirty (nw_queue (watched s)) = {node_item DeleteOp}"
    using gone_stopped(2) by blast
  from stopped_node_watcher_ends [OF s(1) [unfolded nc] s(2), of 5]
  have "\<nexists>s'. (nw_step (\<lambda>_. 0) (recorder (\<lambda>_. None)) ^^ 5) s s'" using s(5) by auto
  then show ?thesis using s by blast
qed

lemma gone_panics:
  assumes "nw_ok nw" "dirty (nw_queue nw) = {node_item DeleteOp}"
  shows "\<exists>msg. nw_step_item (\<lambda>_. 0) (recorder (\<lambda>_. None)) nw (Panic msg)"
proof -
  let ?st = "\<lparr>GetByKey = \<lambda>_. Inr None, labels_Parse = Inr, lister_List = \<lambda>_. ([], None)\<rparr>"
  have "set (wq_queue (nw_queue nw)) = {node_item DeleteOp}" "distinct (wq_queue (nw_queue nw))"
    using assms by (simp_all add: nw_ok_def wq_inv_def)
  then obtain rest where q: "wq_queue (nw_queue nw) = node_item DeleteOp # rest"
    by (cases "wq_queue (nw_queue nw)") auto
  have "steady ?st 0 (Selectors nw) (clock plain_env)" by (simp add: steady_def)
  from nw_processNextItem_panic [OF q this, of "\<lambda>_. 0" "recorder (\<lambda>_. None)"]
  obtain msg where "nw_processNextItem (handler_queue (\<lambda>_. 0)) ?st (recorder (\<lambda>_. None)) nw plain_env = Panic msg"
    by (auto simp: node_item_def NewKeyOp_def is_panic_def split: go.splits)
  then show ?thesis unfolding nw_step_item_def by (metis nw_result.simps(1))
qed

theorem queued_deletion_crashes_witness:
  "\<exists>s s' msg. demo_reached s \<and> stopper s = StopReturned \<and> nw_step (\<lambda>_. 0) (recorder (\<lambda>_. None)) s s' \<and>
     worker s' = Crashed msg"
proof -
  obtain nc where nc: "demo_nw (newQueue 0) = NewNodeWatcher nc (newQueue 0)" using demo_nw_new by blast
  obtain s where s: "demo_reached s" "informer s = InfDone" "worker s = InWorker" "stopper s = StopReturned"
    "dirty (nw_queue (watched s)) = {node_item DeleteOp}"
    using gone_stopped(2) by blast
  have "nw_ok (watched s)" using nw_reached_inv [OF s(1) [unfolded nc]] by (simp add: nr.watch_inv_def)
  then obtain msg where "nw_step_item (\<lambda>_. 0) (recorder (\<lambda>_. None)) (watched s) (Panic msg)"
    using gone_panics s(5) by blast
  then have step: "nw_step (\<lambda>_. 0) (recorder (\<lambda>_. None)) s (s\<lparr>worker := Crashed msg\<rparr>)"
    unfolding nw_step_def by (rule watch_step.crash [OF s(3)])
  have "\<nexists>t. nw_step (\<lambda>_. 0) (recorder (\<lambda>_. None)) (s\<lparr>worker := Crashed msg\<rparr>) t"
    unfolding nw_step_def by (auto elim!: watch_step.cases simp: s)
  moreover have "(nw_step (\<lambda>_. 0) (recorder (\<lambda>_. None)) ^^ 1) s (s\<lparr>worker := Crashed msg\<rparr>)" using step by (simp only: relpowp_1)
  moreover have "node_item DeleteOp \<in> dirty (nw_queue (watched s))" "deletion (node_item DeleteOp)"
    using s(5) by (simp_all add: node_item_def deletion_def NewKeyOp_def)
  ultimately have "\<exists>msg'. worker (s\<lparr>worker := Crashed msg\<rparr>) = Crashed msg'"
    using queued_deletion_crashes [OF s(1) [unfolded nc] s(2,3)] by blast
  then show ?thesis using s step by blast
qed

end
