(* ===== verification/ItemRace.thy ===== *)
theory ItemRace
  imports ServiceWatcher
begin

text \<open>
  An item of the service watcher in two halves, between which a handler may run: everything up to
  the return of the operation, and what is done after it. The lock on the remembered Services is
  held for the single accesses only, so that an update that the informer reports in between loses
  the old Service that it has just stored.
\<close>

section \<open>The halves of an item\<close>

datatype progress = NoItem | Handled | Finishing KeyOp bool \<comment> \<open>whether the operation was a success\<close>

definition handle ::
  "(string \<Rightarrow> string option) \<Rightarrow> indexer \<Rightarrow> 'x env_scheme ExportTarget \<Rightarrow> KeyOp \<Rightarrow> Service option \<Rightarrow> 'm ServiceWatcher \<Rightarrow>
   'x env_scheme \<Rightarrow> (bool \<times> 'x env_scheme) go" where
  "handle fl indexer T ko svc sw e =
     (case ko_Operation ko of
        AddOp \<Rightarrow>
          (case addService fl indexer (sw_clusterId sw) T svc e of
             Panic s \<Rightarrow> Panic s
           | Ret (err, e) \<Rightarrow> Ret (err = None, e))
      | UpdateOp \<Rightarrow>
          (case updateService fl indexer (sw_clusterId sw) T (cacheOlds sw (ko_Key ko)) svc e of
             Panic s \<Rightarrow> Panic s
           | Ret (err, e) \<Rightarrow> Ret (err = None, e))
      | DeleteOp \<Rightarrow>
          (case ko_Obj ko of
             Some (Ref _ (KService service)) \<Rightarrow>
               (case deleteService fl indexer (sw_clusterId sw) T (Some service) e of
                  Panic s \<Rightarrow> Panic s
                | Ret e \<Rightarrow> Ret (True, e))
           | _ \<Rightarrow> Panic ''interface conversion''))"

definition handled ::
  "(string \<Rightarrow> string option) \<Rightarrow> indexer \<Rightarrow> 'x env_scheme ExportTarget \<Rightarrow> KeyOp \<Rightarrow> Service option \<Rightarrow> 'm ServiceWatcher \<Rightarrow>
   'x env_scheme \<Rightarrow> (progress \<times> 'm ServiceWatcher \<times> 'x env_scheme) go" where
  "handled fl indexer T ko svc sw e =
     (case handle fl indexer T ko svc sw e of
        Panic s \<Rightarrow> Panic s
      | Ret (success, e) \<Rightarrow> Ret (Finishing ko success, sw, e))"

text \<open>What follows the call of \<open>Get\<close>, up to the return of the operation.\<close>

definition item_body ::
  "(string \<Rightarrow> string option) \<Rightarrow> (queued, 'm) Metrics \<Rightarrow> indexer \<Rightarrow> 'x env_scheme ExportTarget \<Rightarrow> queued result \<Rightarrow>
   'm ServiceWatcher \<Rightarrow> 'x env_scheme \<Rightarrow> (progress \<times> 'm ServiceWatcher \<times> 'x env_scheme) go" where
  "item_body fl M indexer T r sw e =
     (let forget = (\<lambda>v. Ret (Handled, sw\<lparr>sw_queue := Forget M v (sw_queue sw)\<rparr>, e)) in
      case r of
        Inl _ \<Rightarrow> Ret (NoItem, sw, e)
      | Inr (Ptr _) \<Rightarrow> forget (Val zeroKeyOp)
      | Inr (Val ko) \<Rightarrow>
          if ko_Operation ko \<noteq> DeleteOp then
            (case indexer (ko_Key ko) of
               Inl _ \<Rightarrow> forget (Val ko)
             | Inr None \<Rightarrow> forget (Val ko)
             | Inr (Some (KOther _)) \<Rightarrow> Ret (Handled, sw, e)
             | Inr (Some (KService svc)) \<Rightarrow> handled fl indexer T ko (Some svc) sw e)
          else handled fl indexer T ko None sw e)"

definition item_start ::
  "(string \<Rightarrow> string option) \<Rightarrow> (queued, 'm) Metrics \<Rightarrow> indexer \<Rightarrow> 'x env_scheme ExportTarget \<Rightarrow> 'm ServiceWatcher \<Rightarrow>
   'x env_scheme \<Rightarrow> (progress \<times> 'm ServiceWatcher \<times> 'x env_scheme) go" where
  "item_start fl M indexer T sw e =
     (let (r, q) = Get M (sw_queue sw) in item_body fl M indexer T r (sw\<lparr>sw_queue := q\<rparr>) e)"

definition item_finish :: "(queued, 'm) Metrics \<Rightarrow> addr \<Rightarrow> KeyOp \<Rightarrow> bool \<Rightarrow> 'm ServiceWatcher \<Rightarrow> 'm ServiceWatcher" where
  "item_finish M local ko success sw =
     (if \<not> success then sw
      else let sw = (if ko_Operation ko = UpdateOp then sw\<lparr>cacheOlds := (cacheOlds sw)(ko_Key ko := None)\<rparr> else sw)
           in sw\<lparr>sw_queue := Forget M (Ptr local) (sw_queue sw)\<rparr>)"

text \<open>With nothing in between the halves are the item.\<close>

definition item_run ::
  "(queued, 'm) Metrics \<Rightarrow> addr \<Rightarrow> (progress \<times> 'm ServiceWatcher \<times> 'x env_scheme) go \<Rightarrow>
   (bool \<times> 'm ServiceWatcher \<times> 'x env_scheme) go" where
  "item_run M local r =
     (case r of
        Panic s \<Rightarrow> Panic s
      | Ret (NoItem, sw, e) \<Rightarrow> Ret (False, sw, e)
      | Ret (Handled, sw, e) \<Rightarrow> Ret (True, sw, e)
      | Ret (Finishing ko success, sw, e) \<Rightarrow> Ret (True, item_finish M local ko success sw, e))"

lemma finish_item_split:
  "finish_item fl M local indexer T ko svc sw e = item_run M local (handled fl indexer T ko svc sw e)"
  by (cases "ko_Operation ko")
    (auto simp: finish_item_def dispatch_def handled_def handle_def item_run_def item_finish_def Let_def
      split: go.split option.split ref.split kobject.split)

lemma processNextItem_split:
  "processNextItem fl M local indexer T sw e = item_run M local (item_start fl M indexer T sw e)"
proof -
  obtain r q where g: "Get M (sw_queue sw) = (r, q)" by fastforce
  have [simp]: "item_run M local (Ret (NoItem, s, e')) = Ret (False, s, e')"
    "item_run M local (Ret (Handled, s, e')) = Ret (True, s, e')" for s e'
    by (simp_all add: item_run_def)
  show ?thesis
    by (auto simp: processNextItem_def item_start_def item_body_def g finish_item_split Let_def
        split: sum.split queued.split option.split kobject.split)
qed

lemma item_start_inv:
  assumes "sw_inv sw" "item_start fl M ix T sw e = Ret (Finishing ko b, sw1, e1)"
  shows "sw_inv sw1"
proof -
  obtain r q where g: "Get M (sw_queue sw) = (r, q)" by fastforce
  have "sw_queue sw1 = q"
    using assms(2)
    by (auto simp: item_start_def item_body_def g handled_def Let_def
        split: sum.splits queued.splits if_splits option.splits kobject.splits go.splits prod.splits)
  then show ?thesis using Get_inv [OF assms(1), of M] g by simp
qed

section \<open>Properties\<close>

text \<open>C37: one call of \<open>processNextItem\<close> is its two halves, one after the other. But when the informer
  reports another update of a Service while the worker is on an update of it, the second half
  forgets the old Service that the handler has just stored: the handler's operation stays queued,
  and with nothing else in the queue the next call panics, whatever the cache holds for the key by
  then, as long as it is a Service.\<close>

theorem update_during_update_panics:
  assumes "sw_inv sw" "item_start fl M ix T sw e = Ret (Finishing ko True, sw1, e1)" "ko_Operation ko = UpdateOp"
    "pending sw1 = {}" "deref oldObj = KService old" "deref obj = KService svc" "\<not> ignored sw1 old"
    "MetaNamespaceKeyFunc (KService svc) = Inr (ko_Key ko)" "ix2 (ko_Key ko) = Inr (Some (KService svc2))"
  shows "processNextItem fl M local ix T sw e = Ret (True, item_finish M local ko True sw1, e1) \<and>
    is_panic (processNextItem fl M local2 ix2 T (item_finish M local ko True (UpdateFunc M oldObj obj sw1)) e2)"
proof -
  let ?ko = "NewKeyOp (ko_Key ko) obj UpdateOp" and ?sw2 = "item_finish M local ko True (UpdateFunc M oldObj obj sw1)"
  have "processNextItem fl M local ix T sw e = Ret (True, item_finish M local ko True sw1, e1)"
    using processNextItem_split [of fl M local ix T sw e] assms(2) by (simp add: item_run_def)
  moreover have inv: "pq_inv (sw_queue sw1)" by (rule item_start_inv [OF assms(1,2)])
  have u: "UpdateFunc M oldObj obj sw1 = enqueue M ?ko (sw1\<lparr>cacheOlds := (cacheOlds sw1)(ko_Key ko \<mapsto> old)\<rparr>)"
    using assms(5-8) by (simp add: UpdateFunc_def)
  have q: "sw_queue ?sw2 = Forget M (Ptr local) (Add M (Val ?ko) (Fin 0) (sw_queue sw1))"
    using assms(3) by (simp add: u item_finish_def enqueue_def)
  have c: "cacheOlds ?sw2 (ko_Key ko) = None" using assms(3) by (simp add: u item_finish_def enqueue_def)
  have abs: "pq_abs (sw_queue sw1) = Map.empty" using assms(4) by simp
  have add: "pq_inv (Add M (Val ?ko) (Fin 0) (sw_queue sw1))" "pq_abs (Add M (Val ?ko) (Fin 0) (sw_queue sw1)) = [Val ?ko \<mapsto> Fin 0]"
    using pq.add_inv [OF inv] pq.add_abs [OF inv] abs by auto
  have q2: "pq_inv (sw_queue ?sw2)" "pq_abs (sw_queue ?sw2) = [Val ?ko \<mapsto> Fin 0]"
    unfolding q using pq.forget_inv [OF add(1)] pq.forget_abs [OF add(1)] add(2) by auto
  have "fst (Get M (sw_queue ?sw2)) = Inr (Val ?ko)"
  proof (cases "Get M (sw_queue ?sw2)")
    case (Pair r q')
    then show ?thesis
      using pq.get_ok [OF q2(1), of M _ q'] pq.get_err [OF q2(1), of M _ q'] q2(2) by (cases r) (auto split: if_splits)
  qed
  from processNextItem_panic [OF this, of fl local2 ix2 T e2]
  have "is_panic (processNextItem fl M local2 ix2 T ?sw2 e2)" using c assms(9) by (simp add: NewKeyOp_def)
  ultimately show ?thesis by blast
qed

lemma plain_export:
  "case NewExportedServicesFromKubeService Some plain_ix (Some (plain ''s'')) ''c1'' of Ret (Inr ess) \<Rightarrow> True | _ \<Rightarrow> False"
  by code_simp

lemma plain_update:
  "\<exists>e1. updateService Some plain_ix ''c1'' (recorder (\<lambda>_. None)) (Some (plain ''s'')) (Some (plain ''s'')) e = Ret (None, e1)"
proof -
  obtain ess where ess: "NewExportedServicesFromKubeService Some plain_ix (Some (plain ''s'')) ''c1'' = Ret (Inr ess)"
    using plain_export by (auto split: go.splits sum.splits)
  obtain timing e1 where st: "handler_start ''update'' e = (timing, e1)" by fastforce
  obtain b where b: "IsExportableService (Some (plain ''s'')) = Ret b" by (auto simp: IsExportableService_def)
  have del: "\<not> is_panic (deleteService Some plain_ix ''c1'' (recorder (\<lambda>_. None)) (Some (plain ''s'')) e1)"
    by (rule handlers_no_panic(2))
  have "\<exists>e2. (if b then Ret e1 else deleteService Some plain_ix ''c1'' (recorder (\<lambda>_. None)) (Some (plain ''s'')) e1) = Ret e2"
    using del by (cases b; cases "deleteService Some plain_ix ''c1'' (recorder (\<lambda>_. None)) (Some (plain ''s'')) e1") simp_all
  then obtain e2 where e2: "(if b then Ret e1 else deleteService Some plain_ix ''c1'' (recorder (\<lambda>_. None)) (Some (plain ''s'')) e1) = Ret e2"
    by blast
  have "fst (update_loop (recorder (\<lambda>_. None)) ess (length ess) ess {} e2) = (None, Id ` set ess)"
    using update_loop_calls [of ess "\<lambda>_. None"] by simp
  then obtain e3 where u: "update_loop (recorder (\<lambda>_. None)) ess (length ess) ess {} e2 = ((None, Id ` set ess), e3)"
    by (cases "update_loop (recorder (\<lambda>_. None)) ess (length ess) ess {} e2") simp
  show ?thesis
    using e2 by (cases b) (simp_all add: updateService_def st b ess list_of_def u)
qed

theorem update_during_update_panics_witness:
  "\<exists>sw1 e1. item_start Some no_metrics plain_ix (recorder (\<lambda>_. None))
       (UpdateFunc no_metrics (Ref 0 (KService (plain ''s''))) (Ref 1 (KService (plain ''s''))) (NewServiceWatcher [] ''c1'' ())) plain_env =
       Ret (Finishing (NewKeyOp ''n/s'' (Ref 1 (KService (plain ''s''))) UpdateOp) True, sw1, e1) \<and>
     is_panic (processNextItem Some no_metrics 0 plain_ix (recorder (\<lambda>_. None))
       (item_finish no_metrics 0 (NewKeyOp ''n/s'' (Ref 1 (KService (plain ''s''))) UpdateOp) True
         (UpdateFunc no_metrics (Ref 1 (KService (plain ''s''))) (Ref 2 (KService (plain ''s''))) sw1)) plain_env)"
proof -
  let ?ko = "NewKeyOp ''n/s'' (Ref 1 (KService (plain ''s''))) UpdateOp" and ?T = "recorder (\<lambda>_. None)"
  let ?new = "NewServiceWatcher [] ''c1'' () :: unit ServiceWatcher"
  let ?sw = "UpdateFunc no_metrics (Ref 0 (KService (plain ''s''))) (Ref 1 (KService (plain ''s''))) ?new"
  let ?q0 = "NewPriorityQueueWithMetrics ()"
  have sw: "?sw = enqueue no_metrics ?ko (?new\<lparr>cacheOlds := [''n/s'' \<mapsto> plain ''s'']\<rparr>)"
    by (simp add: UpdateFunc_def ignored_def NewServiceWatcher_def plain_def)
  then have sq: "sw_queue ?sw = Add no_metrics (Val ?ko) (Fin 0) ?q0" by (simp add: enqueue_def NewServiceWatcher_def)
  have inv: "sw_inv ?sw" unfolding sq by (rule pq.add_inv [OF New_inv]) simp
  obtain q where g: "Get no_metrics (sw_queue ?sw) = (Inr (Val ?ko), q)"
    using pq.add_get_same [OF New_inv New_abs, of "Fin 0" no_metrics "Val ?ko"] unfolding sq
    by (cases "Get no_metrics (Add no_metrics (Val ?ko) (Fin 0) ?q0)") simp
  have "pq_abs (sw_queue ?sw) = [Val ?ko \<mapsto> Fin 0]"
    unfolding sq using pq.add_abs [OF New_inv, of "Fin 0" no_metrics "Val ?ko"] by (auto simp: New_abs)
  then have none: "pq_abs q = Map.empty" using pq.get_ok [OF inv g] by simp
  obtain e1 where e1: "updateService Some plain_ix ''c1'' ?T (Some (plain ''s'')) (Some (plain ''s'')) plain_env = Ret (None, e1)"
    using plain_update by blast
  let ?sw1 = "?sw\<lparr>sw_queue := q\<rparr>"
  have olds: "cacheOlds ?sw = [''n/s'' \<mapsto> plain ''s'']" "sw_clusterId ?sw = ''c1''" "\<not> ignored ?sw1 (plain ''s'')"
    unfolding sw by (simp_all add: enqueue_def NewServiceWatcher_def ignored_def)
  have start: "item_start Some no_metrics plain_ix ?T ?sw plain_env = Ret (Finishing ?ko True, ?sw1, e1)"
    using g e1 olds by (simp add: item_start_def item_body_def handled_def handle_def NewKeyOp_def plain_ix_def)
  have key: "MetaNamespaceKeyFunc (KService (plain ''s'')) = Inr (ko_Key ?ko)"
    by (simp add: plain_def NewKeyOp_def)
  have "is_panic (processNextItem Some no_metrics 0 plain_ix ?T
      (item_finish no_metrics 0 ?ko True
        (UpdateFunc no_metrics (Ref 1 (KService (plain ''s''))) (Ref 2 (KService (plain ''s''))) ?sw1)) plain_env)"
    by (rule update_during_update_panics [OF inv start _ _ _ _ olds(3) key, THEN conjunct2])
      (use none in \<open>simp_all add: NewKeyOp_def plain_ix_def\<close>)
  with start show ?thesis by blast
qed

end
