(* ===== verification/ItemAtomic.thy ===== *)
theory ItemAtomic
  imports ItemRace ServiceRun
begin

text \<open>
  Why one item of the service watcher may be treated as one step. The worker and the handlers share
  the queue and the remembered Services, each access under a lock of its own. Here an item is split
  into taking it off the queue, working on it and finishing it, and handlers run at every gap; but
  for reports about the item's own Service, the result is one of atomic items.
\<close>

section \<open>Reports of the informer\<close>

datatype report = Added ref | Updated ref ref | Deleted ref

fun report_to :: "(queued, 'm) Metrics \<Rightarrow> report \<Rightarrow> 'm ServiceWatcher \<Rightarrow> 'm ServiceWatcher" where
  "report_to M (Added obj) = AddFunc M obj"
| "report_to M (Updated oldObj obj) = UpdateFunc M oldObj obj"
| "report_to M (Deleted obj) = DeleteFunc M obj"

abbreviation report_all :: "(queued, 'm) Metrics \<Rightarrow> report list \<Rightarrow> 'm ServiceWatcher \<Rightarrow> 'm ServiceWatcher" where
  "report_all M rps sw \<equiv> fold (report_to M) rps sw"

fun reported :: "report \<Rightarrow> kobject" where
  "reported (Added obj) = deref obj"
| "reported (Updated oldObj obj) = deref obj"
| "reported (Deleted obj) = deref obj"

definition about :: "report \<Rightarrow> string \<Rightarrow> bool" where
  "about rp key = (MetaNamespaceKeyFunc (reported rp) = Inr key)"

fun is_update :: "report \<Rightarrow> bool" where
  "is_update (Updated oldObj obj) = True"
| "is_update _ = False"

text \<open>What the informer passes, as in \<open>sw_event\<close>.\<close>

fun proper :: "report \<Rightarrow> bool" where
  "proper (Added (Ref a (KService svc))) = True"
| "proper (Updated (Ref a (KService old)) (Ref b (KService svc))) =
     (svc_namespace old = svc_namespace svc \<and> svc_name old = svc_name svc)"
| "proper (Deleted (Ref a obj)) = True"
| "proper rp = False"

lemma proper_event: "proper rp \<Longrightarrow> sw_event M sw (report_to M rp sw)"
proof (induction rp rule: proper.induct)
  case (3 a obj)
  then show ?case by (cases obj) (auto intro: sw_event.intros)
qed (auto intro: sw_event.intros)

lemma event_proper: "sw_event M sw sw' \<Longrightarrow> \<exists>rp. proper rp \<and> sw' = report_to M rp sw"
proof (induction rule: sw_event.induct)
  case (added sw a svc)
  show ?case by (rule exI [of _ "Added (Ref a (KService svc))"]) simp
next
  case (updated old svc sw a b)
  then show ?case by (intro exI [of _ "Updated (Ref a (KService old)) (Ref b (KService svc))"]) simp
next
  case (deleted sw a svc)
  show ?case by (rule exI [of _ "Deleted (Ref a (KService svc))"]) simp
next
  case (tombstone sw a key)
  show ?case by (rule exI [of _ "Deleted (Ref a (KOther key))"]) simp
qed

text \<open>
  A report does nothing, or it enqueues an operation with the key it is about; an update also
  remembers a Service under that key. Whether it does depends on the watched namespaces only.
\<close>

lemma report_form:
  obtains (ignores) "\<And>sw. namespaces sw = nss \<Longrightarrow> report_to M rp sw = sw"
  | (enqueues) ko olds where "about rp (ko_Key ko)" "olds = id \<or> is_update rp \<and> (\<exists>svc. olds = (\<lambda>m. m(ko_Key ko \<mapsto> svc)))"
      "\<And>sw. namespaces sw = nss \<Longrightarrow> report_to M rp sw = enqueue M ko (sw\<lparr>cacheOlds := olds (cacheOlds sw)\<rparr>)"
proof (cases "MetaNamespaceKeyFunc (reported rp)")
  case (Inl err)
  show ?thesis by (rule ignores, cases rp) (use Inl in \<open>simp_all add: AddFunc_def UpdateFunc_def DeleteFunc_def\<close>)
next
  case (Inr key)
  let ?ign = "\<lambda>svc. 0 < length nss \<and> \<not> StringInSlice (svc_namespace svc) nss"
  show ?thesis
  proof (cases rp)
    case (Added obj)
    show ?thesis
    proof (cases "\<exists>svc. deref obj = KService svc \<and> \<not> ?ign svc")
      case True
      then show ?thesis
        using Inr Added by (intro enqueues [of "NewKeyOp key obj AddOp" id]) (auto simp: AddFunc_def about_def NewKeyOp_def ignored_def)
    next
      case False
      then show ?thesis using Inr Added by (intro ignores) (auto simp: AddFunc_def ignored_def split: kobject.split)
    qed
  next
    case (Updated oldObj obj)
    show ?thesis
    proof (cases "\<exists>svc. deref oldObj = KService svc \<and> \<not> ?ign svc")
      case True
      then obtain svc where "deref oldObj = KService svc" "\<not> ?ign svc" by blast
      then show ?thesis
        using Inr Updated
        by (intro enqueues [of "NewKeyOp key obj UpdateOp" "\<lambda>m. m(key \<mapsto> svc)"])
          (auto simp: UpdateFunc_def about_def NewKeyOp_def ignored_def)
    next
      case False
      then show ?thesis using Inr Updated by (intro ignores) (auto simp: UpdateFunc_def ignored_def split: kobject.split)
    qed
  next
    case (Deleted obj)
    show ?thesis
    proof (cases "\<exists>svc. deref obj = KService svc \<and> \<not> ?ign svc")
      case True
      then show ?thesis
        using Inr Deleted by (intro enqueues [of "NewKeyOp key obj DeleteOp" id]) (auto simp: DeleteFunc_def about_def NewKeyOp_def ignored_def)
    next
      case False
      then show ?thesis using Inr Deleted by (intro ignores) (auto simp: DeleteFunc_def ignored_def split: kobject.split)
    qed
  qed
qed

section \<open>Reports commute with the parts of an item\<close>

abbreviation absent :: "'m ServiceWatcher \<Rightarrow> queued \<Rightarrow> bool" where
  "absent sw v \<equiv> lookup (sw_queue sw) v = None"

lemma Add_absent: "lookup (Add M v pri p) w = None \<longleftrightarrow> lookup p w = None \<and> w \<noteq> v"
  by (auto simp: Add_def Let_def split: option.split)

lemma absent_iff: "lookup p v = None \<longleftrightarrow> v \<notin> dom (pq_abs p)"
  by (auto simp: pq_abs_def)

lemma report_absent:
  assumes "absent sw v" "\<And>ko. v = Val ko \<Longrightarrow> \<not> about rp (ko_Key ko)"
  shows "absent (report_to M rp sw) v"
proof (cases rule: report_form [of "namespaces sw" M rp])
  case (enqueues ko olds)
  then show ?thesis using assms by (auto simp: enqueue_def Add_absent)
qed (use assms(1) in simp)

lemma report_fields [simp]:
  "namespaces (report_to M rp sw) = namespaces sw" "sw_clusterId (report_to M rp sw) = sw_clusterId sw"
  by (cases rule: report_form [of "namespaces sw" M rp]; simp add: enqueue_def)+

lemma report_olds: "\<not> (is_update rp \<and> about rp key) \<Longrightarrow> cacheOlds (report_to M rp sw) key = cacheOlds sw key"
  by (cases rule: report_form [of "namespaces sw" M rp]) (auto simp: enqueue_def)

text \<open>The second half of an item: the queue does not have the pointer that it forgets.\<close>

lemma item_finish_absent:
  "absent sw (Ptr local) \<Longrightarrow> item_finish M local ko b sw =
     (if b \<and> ko_Operation ko = UpdateOp then sw\<lparr>cacheOlds := (cacheOlds sw)(ko_Key ko := None)\<rparr> else sw)"
  by (simp add: item_finish_def Forget_def)

lemma report_forgets:
  assumes "\<not> (is_update rp \<and> about rp key)"
  shows "report_to M rp (sw\<lparr>cacheOlds := (cacheOlds sw)(key := None)\<rparr>) =
    (report_to M rp sw)\<lparr>cacheOlds := (cacheOlds (report_to M rp sw))(key := None)\<rparr>"
proof (cases rule: report_form [of "namespaces sw" M rp])
  case (enqueues ko olds)
  have "olds (m(key := None)) = (olds m)(key := None)" for m
    using enqueues(1,2) assms by (auto simp: fun_upd_twist)
  then show ?thesis using enqueues(3) by (simp add: enqueue_def)
qed simp

lemma item_finish_report:
  assumes "absent sw (Ptr local)" "b \<and> ko_Operation ko = UpdateOp \<longrightarrow> \<not> (is_update rp \<and> about rp (ko_Key ko))"
  shows "item_finish M local ko b (report_to M rp sw) = report_to M rp (item_finish M local ko b sw)"
  using assms report_absent [OF assms(1)] by (simp add: item_finish_absent report_forgets)

text \<open>The first half, after \<open>Get\<close>, reads the remembered Service of its own key and changes nothing.\<close>

lemma handle_cong:
  "\<lbrakk>sw_clusterId sw' = sw_clusterId sw; cacheOlds sw' (ko_Key ko) = cacheOlds sw (ko_Key ko)\<rbrakk> \<Longrightarrow>
    handle fl ix T ko svc sw' e = handle fl ix T ko svc sw e"
  by (simp add: handle_def split: operation.split option.split ref.split kobject.split)

fun taken :: "queued result \<Rightarrow> 'm ServiceWatcher \<Rightarrow> bool" where
  "taken (Inl er) sw = True"
| "taken (Inr (Ptr a)) sw = False"
| "taken (Inr (Val ko)) sw = absent sw (Val ko)"

fun progress_of :: "(progress \<times> 'm ServiceWatcher \<times> 'x env_scheme) go \<Rightarrow> (progress \<times> 'x env_scheme) go" where
  "progress_of (Panic s) = Panic s"
| "progress_of (Ret (p, sw, e)) = Ret (p, e)"

lemma item_body_keeps:
  assumes "taken r sw" "item_body fl M ix T r sw e = Ret (p, sw', e')"
  shows "sw' = sw"
  using assms
  by (cases r rule: sum.exhaust [case_product queued.exhaust])
    (auto simp: item_body_def handled_def Let_def Forget_def
      split: queued.splits sum.splits option.splits kobject.splits if_splits go.splits prod.splits)

lemma item_body_report:
  assumes "taken r sw" "\<And>ko. r = Inr (Val ko) \<Longrightarrow> \<not> about rp (ko_Key ko)"
  shows "progress_of (item_body fl M ix T r (report_to M rp sw) e) = progress_of (item_body fl M ix T r sw e)"
proof (cases r)
  case (Inr v)
  then obtain ko where v: "v = Val ko" "absent sw (Val ko)" using assms(1) by (cases v) auto
  then have a: "\<not> about rp (ko_Key ko)" using assms(2) Inr by simp
  have h: "handle fl ix T ko svc (report_to M rp sw) e = handle fl ix T ko svc sw e" for svc
    using a by (intro handle_cong) (simp_all add: report_olds)
  show ?thesis
    by (simp add: Inr v(1) item_body_def handled_def h
        split: sum.split option.split kobject.split go.split prod.split)
qed (simp add: item_body_def)

section \<open>The watcher with split items\<close>

datatype phase = Between | Taken "queued result" | Ran progress

text \<open>
  The reports that the split tolerates: none about the Service of the item that was just taken, and
  while a successful update is not finished yet, no other update of the same Service.
\<close>

fun quiet :: "phase \<Rightarrow> report \<Rightarrow> bool" where
  "quiet (Taken (Inr (Val ko))) rp = (\<not> about rp (ko_Key ko))"
| "quiet (Ran (Finishing ko True)) rp = (ko_Operation ko = UpdateOp \<longrightarrow> \<not> (is_update rp \<and> about rp (ko_Key ko)))"
| "quiet ph rp = True"

fun finish_of :: "(queued, 'm) Metrics \<Rightarrow> addr \<Rightarrow> progress \<Rightarrow> 'm ServiceWatcher \<Rightarrow> 'm ServiceWatcher" where
  "finish_of M local (Finishing ko b) sw = item_finish M local ko b sw"
| "finish_of M local p sw = sw"

inductive fine_step ::
  "(string \<Rightarrow> string option) \<Rightarrow> (queued, 'm) Metrics \<Rightarrow> 'x env_scheme ExportTarget \<Rightarrow> 'm ServiceWatcher watch \<times> phase \<Rightarrow>
   'm ServiceWatcher watch \<times> phase \<Rightarrow> bool"
  for fl :: "string \<Rightarrow> string option" and M :: "(queued, 'm) Metrics" and T :: "'x env_scheme ExportTarget" where
  around: "watch_step (\<lambda>sw sw'. \<exists>rp. proper rp \<and> quiet ph rp \<and> sw' = report_to M rp sw) (\<lambda>_ _. False) (=) s s' \<Longrightarrow>
    fine_step fl M T (s, ph) (s', ph)"
| take: "\<lbrakk>worker s = InWorker; Get M (sw_queue (watched s)) = (r, q)\<rbrakk> \<Longrightarrow>
    fine_step fl M T (s, Between) (s\<lparr>watched := (watched s)\<lparr>sw_queue := q\<rparr>\<rparr>, Taken r)"
| body: "\<lbrakk>worker s = InWorker; item_body fl M ix T r (watched s) e = Ret (p, sw, e')\<rbrakk> \<Longrightarrow>
    fine_step fl M T (s, Taken r) (s\<lparr>watched := sw\<rparr>, Ran p)"
| body_panics: "\<lbrakk>worker s = InWorker; item_body fl M ix T r (watched s) e = Panic msg\<rbrakk> \<Longrightarrow>
    fine_step fl M T (s, Taken r) (s\<lparr>worker := Crashed msg\<rparr>, Taken r)"
| item_ends: "\<lbrakk>worker s = InWorker; p \<noteq> NoItem\<rbrakk> \<Longrightarrow>
    fine_step fl M T (s, Ran p) (s\<lparr>watched := finish_of M local p (watched s), processed := Suc (processed s)\<rparr>, Between)"
| no_item: "worker s = InWorker \<Longrightarrow> fine_step fl M T (s, Ran NoItem) (s\<lparr>worker := AtUntil\<rparr>, Between)"

inductive fine_reached ::
  "(string \<Rightarrow> string option) \<Rightarrow> (queued, 'm) Metrics \<Rightarrow> 'x env_scheme ExportTarget \<Rightarrow> 'm ServiceWatcher \<Rightarrow>
   'm ServiceWatcher watch \<times> phase \<Rightarrow> bool"
  for fl :: "string \<Rightarrow> string option" and M :: "(queued, 'm) Metrics" and T :: "'x env_scheme ExportTarget"
    and sw0 :: "'m ServiceWatcher" where
  init: "fine_reached fl M T sw0 (NewWatch sw0, Between)"
| step: "\<lbrakk>fine_reached fl M T sw0 s; fine_step fl M T s s'\<rbrakk> \<Longrightarrow> fine_reached fl M T sw0 s'"


section \<open>The simulation\<close>

text \<open>The watcher as it would be if the item that is under way were done at once.\<close>

definition completed :: "(queued, 'm) Metrics \<Rightarrow> addr \<Rightarrow> progress \<Rightarrow> 'm ServiceWatcher watch \<Rightarrow> 'm ServiceWatcher watch" where
  "completed M local p s =
     (if p = NoItem then s\<lparr>worker := AtUntil\<rparr>
      else s\<lparr>watched := finish_of M local p (watched s), processed := Suc (processed s)\<rparr>)"

abbreviation no_pointers :: "'m ServiceWatcher \<Rightarrow> bool" where
  "no_pointers sw \<equiv> \<forall>a. absent sw (Ptr a)"

lemma finish_of_report:
  assumes "no_pointers sw" "quiet (Ran p) rp"
  shows "finish_of M local p (report_to M rp sw) = report_to M rp (finish_of M local p sw)"
proof (cases p)
  case (Finishing ko b)
  then show ?thesis
    using item_finish_report [of sw local b ko rp M] assms by (cases b) simp_all
qed simp_all

text \<open>A step of the surroundings during an item can be taken after the item as well.\<close>

lemma completed_around:
  assumes "watch_step (\<lambda>sw sw'. \<exists>rp. proper rp \<and> quiet ph rp \<and> sw' = report_to M rp sw) (\<lambda>_ _. False) (=) s s'"
    "worker s = InWorker" "no_pointers (watched s)" "\<And>rp. quiet ph rp \<Longrightarrow> quiet (Ran p) rp"
  shows "sw_step fl M T (completed M local p s) (completed M local p s')"
  using assms(1)
proof cases
  case (handler st)
  then obtain rp where rp: "proper rp" "quiet (Ran p) rp" "st = report_to M rp (watched s)" using assms(4) by blast
  let ?c = "completed M local p s"
  have "sw_event M (watched ?c) (report_to M rp (watched ?c))" by (rule proper_event [OF rp(1)])
  then have "sw_step fl M T ?c (?c\<lparr>watched := report_to M rp (watched ?c)\<rparr>)"
    unfolding sw_step_def by (rule watch_step.handler [rotated]) (use handler in \<open>simp add: completed_def\<close>)
  moreover have "?c\<lparr>watched := report_to M rp (watched ?c)\<rparr> = completed M local p s'"
    using handler(1) rp(3) finish_of_report [OF assms(3) rp(2)] by (cases s) (auto simp: completed_def)
  ultimately show ?thesis by simp
next
  case cache_full
  have "completed M local p s' = (completed M local p s)\<lparr>hasSynced := True\<rparr>"
    using cache_full(1) by (cases s) (simp add: completed_def)
  then show ?thesis
    using cache_full(2) unfolding sw_step_def by (simp only:) (rule watch_step.cache_full, simp add: completed_def)
next
  case (stop st)
  let ?c = "completed M local p s"
  have "completed M local p s' = ?c\<lparr>stopper := AtWait, stopC_closed := True, watched := watched ?c\<rparr>"
    using stop(1,3) by (cases s) (auto simp: completed_def)
  then show ?thesis
    using stop(2) unfolding sw_step_def by (simp only:) (rule watch_step.stop, simp_all add: completed_def)
next
  case informer_ends
  have "completed M local p s' = (completed M local p s)\<lparr>informer := InfDone\<rparr>"
    using informer_ends(1) by (cases s) (simp add: completed_def)
  then show ?thesis
    using informer_ends(2,3) unfolding sw_step_def by (simp only:) (rule watch_step.informer_ends, simp_all add: completed_def)
next
  case stop_returns
  have "completed M local p s' = (completed M local p s)\<lparr>stopper := StopReturned\<rparr>"
    using stop_returns(1) by (cases s) (simp add: completed_def)
  then show ?thesis
    using stop_returns(2,3) unfolding sw_step_def by (simp only:) (rule watch_step.stop_returns, simp_all add: completed_def)
qed (use assms(2) in simp_all)

lemma item_body_progress:
  "progress_of (item_body fl M ix T r sw e) = Ret (Finishing ko b, e') \<Longrightarrow> r = Inr (Val ko)"
  by (cases r rule: sum.exhaust [case_product queued.exhaust])
    (auto simp: item_body_def handled_def Let_def
      split: queued.splits sum.splits option.splits kobject.splits if_splits go.splits prod.splits)

lemma quiet_later:
  assumes "quiet (Taken r) rp" "progress_of (item_body fl M ix T r sw e) = Ret (p, e')"
  shows "quiet (Ran p) rp"
proof (cases p)
  case (Finishing ko b)
  then have "r = Inr (Val ko)" using item_body_progress assms(2) by blast
  then show ?thesis using assms(1) Finishing by (cases b) simp_all
qed simp_all

definition crash_reached ::
  "(string \<Rightarrow> string option) \<Rightarrow> (queued, 'm) Metrics \<Rightarrow> 'x env_scheme ExportTarget \<Rightarrow> 'm ServiceWatcher \<Rightarrow> string \<Rightarrow> bool" where
  "crash_reached fl M T sw0 msg = (\<exists>s. sw_reached fl M T sw0 s \<and> worker s = Crashed msg)"

fun fine_inv ::
  "(string \<Rightarrow> string option) \<Rightarrow> (queued, 'm) Metrics \<Rightarrow> 'x env_scheme ExportTarget \<Rightarrow> 'm ServiceWatcher \<Rightarrow>
   'm ServiceWatcher watch \<Rightarrow> phase \<Rightarrow> bool" where
  "fine_inv fl M T sw0 s Between = sw_reached fl M T sw0 s"
| "fine_inv fl M T sw0 s (Taken r) =
     (worker s = InWorker \<and> taken r (watched s) \<and> no_pointers (watched s) \<and>
      (\<forall>ix e. case progress_of (item_body fl M ix T r (watched s) e) of
         Panic msg \<Rightarrow> crash_reached fl M T sw0 msg
       | Ret (p, e') \<Rightarrow> \<forall>local. sw_reached fl M T sw0 (completed M local p s)))"
| "fine_inv fl M T sw0 s (Ran p) =
     (worker s = InWorker \<and> no_pointers (watched s) \<and> (\<forall>local. sw_reached fl M T sw0 (completed M local p s)))"

definition fine_ok ::
  "(string \<Rightarrow> string option) \<Rightarrow> (queued, 'm) Metrics \<Rightarrow> 'x env_scheme ExportTarget \<Rightarrow> 'm ServiceWatcher \<Rightarrow>
   'm ServiceWatcher watch \<Rightarrow> phase \<Rightarrow> bool" where
  "fine_ok fl M T sw0 s ph =
     (case worker s of Crashed msg \<Rightarrow> crash_reached fl M T sw0 msg | _ \<Rightarrow> fine_inv fl M T sw0 s ph)"

lemma fine_ok_working: "worker s = InWorker \<Longrightarrow> fine_ok fl M T sw0 s ph = fine_inv fl M T sw0 s ph"
  by (simp add: fine_ok_def)

lemma fine_ok_crashed: "worker s = Crashed msg \<Longrightarrow> fine_ok fl M T sw0 s ph = crash_reached fl M T sw0 msg"
  by (simp add: fine_ok_def)

lemma reached_ok: "sw_reached fl M T sw0 s \<Longrightarrow> fine_ok fl M T sw0 s Between"
  by (auto simp: fine_ok_def crash_reached_def split: worker_pos.split)

lemma sw_reached_step: "\<lbrakk>sw_reached fl M T sw0 s; sw_step fl M T s s'\<rbrakk> \<Longrightarrow> sw_reached fl M T sw0 s'"
  unfolding sw_reached_def sw_step_def by (rule watch_reached.step)

lemma around_fields:
  assumes "watch_step (\<lambda>sw sw'. \<exists>rp. proper rp \<and> quiet ph rp \<and> sw' = report_to M rp sw) (\<lambda>_ _. False) (=) s s'"
    "worker s = InWorker"
  shows "worker s' = InWorker \<and>
    (watched s' = watched s \<or> (\<exists>rp. quiet ph rp \<and> watched s' = report_to M rp (watched s)))"
  using assms(1) by cases (use assms(2) in auto)

lemma around_crashed:
  "\<lbrakk>watch_step ev (\<lambda>_ _. False) cl s s'; worker s = Crashed msg\<rbrakk> \<Longrightarrow> worker s' = Crashed msg"
  by (erule watch_step.cases) auto

lemma around_between:
  assumes "watch_step (\<lambda>sw sw'. \<exists>rp. proper rp \<and> quiet ph rp \<and> sw' = report_to M rp sw) (\<lambda>_ _. False) (=) s s'"
  shows "sw_step fl M T s s'"
  using assms unfolding sw_step_def
  by cases (auto intro: watch_step.intros proper_event)

lemma report_taken:
  assumes "taken r sw" "quiet (Taken r) rp"
  shows "taken r (report_to M rp sw)"
proof (cases r)
  case (Inr v)
  then show ?thesis using assms report_absent [of sw v rp M] by (cases v) auto
qed simp

lemma report_no_pointers: "no_pointers sw \<Longrightarrow> no_pointers (report_to M rp sw)"
  using report_absent by blast

lemma fine_around:
  assumes ok: "fine_ok fl M T sw0 s ph"
    and st: "watch_step (\<lambda>sw sw'. \<exists>rp. proper rp \<and> quiet ph rp \<and> sw' = report_to M rp sw) (\<lambda>_ _. False) (=) s s'"
  shows "fine_ok fl M T sw0 s' ph"
proof (cases "\<exists>msg. worker s = Crashed msg")
  case True
  then show ?thesis using ok around_crashed [OF st] by (auto simp: fine_ok_crashed)
next
  case nc: False
  then have inv: "fine_inv fl M T sw0 s ph" using ok by (auto simp: fine_ok_def split: worker_pos.splits)
  show ?thesis
  proof (cases ph)
    case Between
    then show ?thesis using inv around_between [OF st] reached_ok sw_reached_step by fastforce
  next
    case (Ran p)
    then have w: "worker s = InWorker" "no_pointers (watched s)" using inv by simp_all
    have "sw_reached fl M T sw0 (completed M local p s')" for local
      by (rule sw_reached_step [OF _ completed_around [OF st w]]) (use inv Ran in auto)
    moreover have "worker s' = InWorker" "no_pointers (watched s')"
      using around_fields [OF st w(1)] w(2) report_no_pointers by force+
    ultimately show ?thesis unfolding Ran by (simp add: fine_ok_working)
  next
    case (Taken r)
    then have w: "worker s = InWorker" "no_pointers (watched s)" and t: "taken r (watched s)" using inv by simp_all
    have f: "worker s' = InWorker" "no_pointers (watched s')" "taken r (watched s')"
      using around_fields [OF st w(1)] w(2) t report_no_pointers report_taken unfolding Taken by force+
    have same: "progress_of (item_body fl M ix T r (watched s') e) = progress_of (item_body fl M ix T r (watched s) e)" for ix e
      using around_fields [OF st w(1)] item_body_report [OF t] unfolding Taken by fastforce
    have i: "case progress_of (item_body fl M ix T r (watched s) e) of
         Panic msg \<Rightarrow> crash_reached fl M T sw0 msg
       | Ret (p, e') \<Rightarrow> \<forall>local. sw_reached fl M T sw0 (completed M local p s)" for ix e
      using inv unfolding Taken by simp
    have "sw_reached fl M T sw0 (completed M local p s')"
      if b: "progress_of (item_body fl M ix T r (watched s) e) = Ret (p, e')" for local p ix e e'
    proof (rule sw_reached_step [OF _ completed_around [OF st w]])
      show "quiet (Ran p) rp" if "quiet ph rp" for rp
        using quiet_later [OF _ b] that Taken by blast
      show "sw_reached fl M T sw0 (completed M local p s)" using i [of ix e] b by simp
    qed
    then have "case progress_of (item_body fl M ix T r (watched s) e) of
         Panic msg \<Rightarrow> crash_reached fl M T sw0 msg
       | Ret (p, e') \<Rightarrow> \<forall>local. sw_reached fl M T sw0 (completed M local p s')" for ix e
      using i [of ix e] by (auto split: go.split prod.split)
    then show ?thesis using f same unfolding Taken by (simp add: fine_ok_working)
  qed
qed

lemma fine_take:
  assumes reached: "sw_reached fl M T (NewServiceWatcher nss c m) s" and w: "worker s = InWorker"
    and g: "Get M (sw_queue (watched s)) = (r, q)"
  shows "fine_inv fl M T (NewServiceWatcher nss c m) (s\<lparr>watched := (watched s)\<lparr>sw_queue := q\<rparr>\<rparr>) (Taken r)"
proof -
  let ?sw = "watched s" and ?sw1 = "(watched s)\<lparr>sw_queue := q\<rparr>" and ?s0 = "NewServiceWatcher nss c m"
  have typed: "sw_typed ?sw" using sw_reached_inv [OF reached] by (simp add: sr.watch_inv_def)
  then have inv: "sw_inv ?sw" by (simp add: sw_typed_def)
  have "typed_item ?sw v" if "v \<in> pending ?sw" for v using typed that by (simp add: sw_typed_def)
  then have ptr: "Ptr a \<notin> pending ?sw" for a by fastforce
  have "taken r ?sw1 \<and> no_pointers ?sw1"
  proof (cases r)
    case (Inl er)
    then have "q = sw_queue ?sw" using pq.get_err [OF inv, of M er q] g by simp
    then show ?thesis using ptr Inl by (simp add: absent_iff)
  next
    case (Inr v)
    then have v: "v \<in> pending ?sw" "pq_abs q = (pq_abs (sw_queue ?sw))(v := None)"
      using pq.get_ok [OF inv, of M v q] g by auto
    then obtain ko where "v = Val ko" using ptr by (cases v) auto
    then show ?thesis using ptr v(2) Inr by (simp add: absent_iff domIff)
  qed
  moreover have "case progress_of (item_body fl M ix T r ?sw1 e) of
       Panic msg \<Rightarrow> crash_reached fl M T ?s0 msg
     | Ret (p, e') \<Rightarrow> \<forall>local. sw_reached fl M T ?s0 (completed M local p (s\<lparr>watched := ?sw1\<rparr>))" for ix e
  proof (cases "item_body fl M ix T r ?sw1 e")
    case (Panic msg)
    then have "processNextItem fl M 0 ix T ?sw e = Panic msg"
      by (simp add: processNextItem_split item_start_def g item_run_def)
    then have "sw_item fl M T ?sw (Panic msg)" unfolding sw_item_def by (metis sw_result.simps(1))
    then have "sw_reached fl M T ?s0 (s\<lparr>worker := Crashed msg\<rparr>)"
      by (intro sw_reached_step [OF reached]) (simp add: sw_step_def watch_step.crash [OF w])
    moreover have "worker (s\<lparr>worker := Crashed msg\<rparr>) = Crashed msg" by (cases s) simp
    ultimately have "crash_reached fl M T ?s0 msg" unfolding crash_reached_def by blast
    then show ?thesis using Panic by simp
  next
    case (Ret x)
    then obtain p e' where b: "item_body fl M ix T r ?sw1 e = Ret (p, ?sw1, e')"
      using item_body_keeps calculation by (cases x) blast
    have "sw_reached fl M T ?s0 (completed M local p (s\<lparr>watched := ?sw1\<rparr>))" for local
    proof -
      have "processNextItem fl M local ix T ?sw e = Ret (p \<noteq> NoItem, finish_of M local p ?sw1, e')"
        by (cases p) (simp_all add: processNextItem_split item_start_def g b item_run_def)
      then have i: "sw_item fl M T ?sw (Ret (Some (p \<noteq> NoItem), finish_of M local p ?sw1))"
        unfolding sw_item_def by (metis sw_result.simps(2))
      have "sw_step fl M T s (completed M local p (s\<lparr>watched := ?sw1\<rparr>))"
        using i watch_step.item_done [OF w, of "sw_item fl M T"] watch_step.round_ends [OF w, of "sw_item fl M T"]
        by (cases "p = NoItem") (simp_all add: completed_def sw_step_def)
      then show ?thesis by (rule sw_reached_step [OF reached])
    qed
    then show ?thesis using b by simp
  qed
  ultimately show ?thesis using w by simp
qed

lemma fine_step_ok:
  assumes "fine_step fl M T (s, ph) (s', ph')" "fine_ok fl M T (NewServiceWatcher nss c m) s ph"
  shows "fine_ok fl M T (NewServiceWatcher nss c m) s' ph'"
  using assms(1)
proof cases
  case around
  then show ?thesis using fine_around [OF assms(2)] by simp
next
  case (take r q)
  then show ?thesis using fine_take [of fl M T nss c m s r q] assms(2) by (simp add: fine_ok_working)
next
  case (body ix r e p sw e')
  then have "fine_inv fl M T (NewServiceWatcher nss c m) s (Taken r)" using assms(2) by (simp add: fine_ok_working)
  moreover from this have "sw = watched s" using item_body_keeps body by fastforce
  ultimately show ?thesis
    using body by (auto simp: fine_ok_working split: go.splits dest!: spec [of _ ix] spec [of _ e])
next
  case (body_panics ix r e msg)
  then have "fine_inv fl M T (NewServiceWatcher nss c m) s (Taken r)" using assms(2) by (simp add: fine_ok_working)
  then show ?thesis
    using body_panics by (auto simp: fine_ok_crashed dest!: spec [of _ ix] spec [of _ e])
next
  case (item_ends p local)
  then show ?thesis using assms(2) reached_ok by (simp add: fine_ok_working completed_def)
next
  case no_item
  then show ?thesis using assms(2) by (auto simp: fine_ok_working completed_def intro: reached_ok)
qed

lemma fine_reached_ok:
  "fine_reached fl M T (NewServiceWatcher nss c m) x \<Longrightarrow> fine_ok fl M T (NewServiceWatcher nss c m) (fst x) (snd x)"
proof (induction rule: fine_reached.induct)
  case init
  show ?case by (simp add: reached_ok sw_reached_def watch_reached.init)
next
  case (step x y)
  then show ?case using fine_step_ok by (cases x; cases y) auto
qed

text \<open>And an item that is done at once is a split item with nothing in its gaps.\<close>

lemma sw_item_parts:
  assumes "sw_item fl M T sw r"
  obtains local ix e g q where "Get M (sw_queue sw) = (g, q)"
    "r = sw_result (item_run M local (item_body fl M ix T g (sw\<lparr>sw_queue := q\<rparr>) e))"
proof -
  obtain local ix e where r: "r = sw_result (processNextItem fl M local ix T sw e)" using assms by (auto simp: sw_item_def)
  obtain g q where g: "Get M (sw_queue sw) = (g, q)" by fastforce
  show ?thesis by (rule that [OF g]) (simp add: r processNextItem_split item_start_def g)
qed

lemma item_run_parts:
  assumes "sw_result (item_run M local x) = Ret (b, sw')"
  obtains p sw1 e where "x = Ret (p, sw1, e)" "b = Some (p \<noteq> NoItem)" "sw' = finish_of M local p sw1"
proof (cases x)
  case (Ret y)
  obtain p sw1 e where y: "y = (p, sw1, e)" by (cases y) auto
  show ?thesis by (rule that [of p sw1 e]) (use assms Ret y in \<open>cases p; simp add: item_run_def\<close>)+
qed (use assms in \<open>simp add: item_run_def\<close>)

lemma item_run_panics: "sw_result (item_run M local x) = Panic msg \<Longrightarrow> x = Panic msg"
  by (auto simp: item_run_def sw_result_panic split: go.splits prod.splits progress.splits)

lemma fine_item:
  assumes f: "fine_reached fl M T sw0 (s, Between)" and w: "worker s = InWorker" and i: "sw_item fl M T (watched s) r"
  shows "case r of Panic msg \<Rightarrow> (\<exists>s' ph. fine_reached fl M T sw0 (s', ph) \<and> worker s' = Crashed msg)
    | Ret (b, sw') \<Rightarrow> fine_reached fl M T sw0
        ((if b = Some True then s\<lparr>watched := sw', processed := Suc (processed s)\<rparr> else s\<lparr>watched := sw', worker := AtUntil\<rparr>), Between)"
proof -
  obtain local ix e g q where g: "Get M (sw_queue (watched s)) = (g, q)"
    and r: "r = sw_result (item_run M local (item_body fl M ix T g ((watched s)\<lparr>sw_queue := q\<rparr>) e))"
    by (rule sw_item_parts [OF i])
  let ?s1 = "s\<lparr>watched := (watched s)\<lparr>sw_queue := q\<rparr>\<rparr>"
  have s1: "fine_reached fl M T sw0 (?s1, Taken g)" by (rule fine_reached.step [OF f take [OF w g]])
  have w1: "worker ?s1 = InWorker" using w by simp
  show ?thesis
  proof (cases r)
    case (Panic msg)
    then have "sw_result (item_run M local (item_body fl M ix T g (watched ?s1) e)) = Panic msg" using r by simp
    then have "item_body fl M ix T g (watched ?s1) e = Panic msg" by (rule item_run_panics)
    from fine_reached.step [OF s1 body_panics [OF w1 this]]
    have "fine_reached fl M T sw0 (?s1\<lparr>worker := Crashed msg\<rparr>, Taken g)" .
    moreover have "worker (?s1\<lparr>worker := Crashed msg\<rparr>) = Crashed msg" by (cases s) simp
    ultimately have "\<exists>s' ph. fine_reached fl M T sw0 (s', ph) \<and> worker s' = Crashed msg" by blast
    then show ?thesis using Panic by simp
  next
    case (Ret x)
    obtain b sw' where x: "x = (b, sw')" by (cases x)
    have "sw_result (item_run M local (item_body fl M ix T g (watched ?s1) e)) = Ret (b, sw')" using r Ret x by simp
    then obtain p sw1 e1 where p: "item_body fl M ix T g (watched ?s1) e = Ret (p, sw1, e1)"
      "b = Some (p \<noteq> NoItem)" "sw' = finish_of M local p sw1"
      by (rule item_run_parts)
    let ?s2 = "?s1\<lparr>watched := sw1\<rparr>"
    have s2: "fine_reached fl M T sw0 (?s2, Ran p)" by (rule fine_reached.step [OF s1 body [OF w1 p(1)]])
    have w2: "worker ?s2 = InWorker" using w by simp
    show ?thesis
    proof (cases "p = NoItem")
      case True
      have "fine_reached fl M T sw0 (?s2\<lparr>worker := AtUntil\<rparr>, Between)"
        using fine_reached.step [OF s2 [unfolded True] no_item [OF w2]] .
      then show ?thesis using Ret x p True by simp
    next
      case False
      note fine_reached.step [OF s2 item_ends [OF w2 False, of fl M T local]]
      then show ?thesis using Ret x p False by simp
    qed
  qed
qed

text \<open>Every other step of the running watcher is one of the surroundings.\<close>

lemma sw_step_cases:
  assumes "sw_step fl M T s s'"
  obtains (outside) "fine_step fl M T (s, Between) (s', Between)"
  | (item) r where "worker s = InWorker" "sw_item fl M T (watched s) r"
      "case r of Panic msg \<Rightarrow> s' = s\<lparr>worker := Crashed msg\<rparr>
       | Ret (b, sw') \<Rightarrow> s' = (if b = Some True then s\<lparr>watched := sw', processed := Suc (processed s)\<rparr>
           else s\<lparr>watched := sw', worker := AtUntil\<rparr>)"
proof -
  let ?ev = "\<lambda>sw sw'. \<exists>rp. proper rp \<and> quiet Between rp \<and> sw' = report_to M rp sw"
  have out: "watch_step ?ev (\<lambda>_ _. False) (=) s s' \<Longrightarrow> thesis" by (rule outside) (rule fine_step.around)
  show thesis
    using assms unfolding sw_step_def
  proof cases
    case (handler st)
    then have "?ev (watched s) st" using event_proper by fastforce
    then show thesis using handler by (intro out) (simp add: watch_step.handler)
  next
    case (item_done st)
    show thesis by (rule item [OF item_done(2,3)]) (simp add: item_done(1))
  next
    case (round_ends st)
    show thesis by (rule item [OF round_ends(2,3)]) (simp add: round_ends(1))
  next
    case (crash msg)
    show thesis by (rule item [OF crash(2,3)]) (simp add: crash(1))
  qed (rule out, simp add: watch_step.intros)+
qed

lemma reached_fine:
  assumes "sw_reached fl M T sw0 s"
  shows "case worker s of Crashed msg \<Rightarrow> (\<exists>s' ph. fine_reached fl M T sw0 (s', ph) \<and> worker s' = Crashed msg)
    | _ \<Rightarrow> fine_reached fl M T sw0 (s, Between)"
  using assms unfolding sw_reached_def
proof (induction rule: watch_reached.induct)
  case init
  show ?case by (simp add: NewWatch_def) (rule fine_reached.init [unfolded NewWatch_def])
next
  case (step s s')
  have st: "sw_step fl M T s s'" using step.hyps(2) by (simp add: sw_step_def)
  show ?case
  proof (cases "\<exists>msg. worker s = Crashed msg")
    case True
    then have "worker s' = worker s" using step.hyps(2) by (auto elim: watch_step.cases)
    then show ?thesis using step.IH True by auto
  next
    case False
    then have f: "fine_reached fl M T sw0 (s, Between)" using step.IH by (auto split: worker_pos.splits)
    from st show ?thesis
    proof (cases rule: sw_step_cases)
      case outside
      have "fine_reached fl M T sw0 (s', Between)" by (rule fine_reached.step [OF f outside])
      then show ?thesis by (auto split: worker_pos.split)
    next
      case (item r)
      note i = fine_item [OF f item(1,2)]
      show ?thesis
      proof (cases r)
        case (Panic msg)
        then have "worker s' = Crashed msg" using item(3) by (cases s) simp
        then show ?thesis using i Panic by simp
      next
        case (Ret x)
        obtain b sw' where "x = (b, sw')" by (cases x)
        then have "fine_reached fl M T sw0 (s', Between)" using i item(3) Ret by simp
        then show ?thesis by (auto split: worker_pos.split)
      qed
    qed
  qed
qed

section \<open>Items are atomic\<close>

text \<open>C16: as long as no report is about the Service of an item that was just taken, and no update of a
  Service arrives while a successful update of it is being finished, it does not matter when the
  handlers run: the watcher reaches between two items exactly the states it reaches when every item
  is a single step, and it crashes with the same panics.\<close>

theorem items_are_atomic:
  "(fine_reached fl M T (NewServiceWatcher nss c m) (s, Between) \<and> (\<nexists>msg. worker s = Crashed msg) \<longleftrightarrow>
      sw_reached fl M T (NewServiceWatcher nss c m) s \<and> (\<nexists>msg. worker s = Crashed msg)) \<and>
   ((\<exists>s' ph. fine_reached fl M T (NewServiceWatcher nss c m) (s', ph) \<and> worker s' = Crashed msg) \<longleftrightarrow>
      (\<exists>s'. sw_reached fl M T (NewServiceWatcher nss c m) s' \<and> worker s' = Crashed msg))"
  (is "(?f s Between \<and> ?ok s \<longleftrightarrow> ?a s \<and> ?ok s) \<and> (?cf \<longleftrightarrow> ?ca)")
proof (intro conjI iffI)
  assume s: "?f s Between \<and> ?ok s"
  then show "?a s" using fine_reached_ok [of fl M T nss c m "(s, Between)"]
    by (auto simp: fine_ok_def split: worker_pos.splits)
  show "?ok s" using s ..
next
  assume s: "?a s \<and> ?ok s"
  then show "?f s Between" using reached_fine [of fl M T "NewServiceWatcher nss c m" s] by (cases "worker s") auto
  show "?ok s" using s ..
next
  assume ?cf
  then show ?ca using fine_reached_ok [of fl M T nss c m] by (fastforce simp: fine_ok_crashed crash_reached_def)
next
  assume ?ca
  then show ?cf using reached_fine by fastforce
qed

end
