(* ===== verification/ItemWrites.thy ===== *)
theory ItemWrites
  imports Lifecycle ServiceRun NodeRun
begin

text \<open>
  What processing one item writes, for both watchers and for any log of the export target: nothing
  that its operations do not write. It is used at two logs, the writes to Consul, all of which are for
  keys of the own cluster, and the writes of a process that does not lead, of which there are none.
\<close>

section \<open>One item of the service watcher\<close>

text \<open>It adds to the log what the target adds for services that some Service exports.\<close>

context export_target
begin

lemma dispatch_grows:
  assumes "dispatch fl ix T ko svc sw e = Ret (b, sw', e')"
  shows "grows lg (\<lambda>r. \<exists>service es. exports fl ix (sw_clusterId sw) service es \<and> own es r) e e'"
proof (cases "ko_Operation ko")
  case AddOp
  then obtain err where "addService fl ix (sw_clusterId sw) T svc e = Ret (err, e')"
    using assms by (auto simp: dispatch_def split: go.splits)
  from addService_grows [OF this] show ?thesis by (rule grows_mono) blast
next
  case UpdateOp
  then obtain err where "updateService fl ix (sw_clusterId sw) T (cacheOlds sw (ko_Key ko)) svc e = Ret (err, e')"
    using assms by (auto simp: dispatch_def split: go.splits if_splits)
  from updateService_grows [OF this] show ?thesis by (rule grows_mono) blast
next
  case DeleteOp
  then obtain s where "deleteService fl ix (sw_clusterId sw) T (Some s) e = Ret e'"
    using assms by (auto simp: dispatch_def split: go.splits option.splits ref.splits kobject.splits)
  from deleteService_grows [OF this] show ?thesis by (rule grows_mono) blast
qed

lemma processNextItem_grows:
  assumes "processNextItem fl M local ix T sw e = Ret (b, sw', e')"
  shows "grows lg (\<lambda>r. \<exists>service es. exports fl ix (sw_clusterId sw) service es \<and> own es r) e e'"
proof -
  let ?P = "\<lambda>r. \<exists>service es. exports fl ix (sw_clusterId sw) service es \<and> own es r"
  obtain g q where g: "Get M (sw_queue sw) = (g, q)" by fastforce
  have "grows lg ?P e e''" if "dispatch fl ix T ko svc (sw\<lparr>sw_queue := q\<rparr>) e = Ret (c, sw'', e'')" for ko svc c sw'' e''
    using dispatch_grows [OF that] by simp
  then show ?thesis
    using assms g
    by (auto simp: processNextItem_def finish_item_def Let_def intro: grows_none
        split: if_splits sum.splits queued.splits option.splits kobject.splits go.splits prod.splits)
qed

end

section \<open>One item of the node watcher\<close>

text \<open>
  One item of the node watcher: everything but \<open>WriteNodes\<close> only sends metrics and reads the clock,
  which leaves the rest of the world as it is.
\<close>

lemma queue_more:
  "env.more (snd (snd (q_Get (handler_queue bucket) (q, e)))) = env.more e"
  "env.more (snd (q_AddAfter (handler_queue bucket) item d (q, e))) = env.more e"
  "env.more (snd (q_Forget (handler_queue bucket) item (q, e))) = env.more e"
  "env.more (snd (q_AddRateLimited (handler_queue bucket) item (q, e))) = env.more e"
  "env.more (snd (q_Done (handler_queue bucket) item (q, e))) = env.more e"
  by (simp_all add: handler_queue_def as_queue_def dqs_Get_def dqs_AddAfter_def dqs_Forget_def dqs_AddRateLimited_def
      dqs_Done_def dqs_incr_def dqs_length_def Let_def case_prod_beta emit_def)

lemma on_queue_more:
  "(\<And>q e. env.more (snd (f (q, e))) = env.more e) \<Longrightarrow> env.more (snd (on_queue f nw e)) = env.more e"
  by (simp add: on_queue_def Let_def case_prod_beta)

lemmas on_queue_mores = queue_more(2-5) [THEN on_queue_more]

lemma candidate_loop_more: "candidate_loop nodes cs e = Ret (r, e') \<Longrightarrow> env.more e' = env.more e"
  by (induction nodes arbitrary: cs e) (auto simp: time_Now_def Let_def split: go.splits prod.splits if_splits)

lemma selector_loop_more: "selector_loop st c sels picked sel e = Ret (r, e') \<Longrightarrow> env.more e' = env.more e"
proof (induction sels arbitrary: picked sel e)
  case (Cons s sels)
  then obtain ls cs e1 where l: "labels_Parse st s = Inr ls" "candidate_loop (fst (lister_List st ls)) [] e = Ret (cs, e1)"
    by (auto simp: Let_def case_prod_beta split: sum.splits go.splits)
  then show ?case
    using Cons.prems Cons.IH [of _ _ e1] candidate_loop_more [OF l(2)]
    by (auto simp: Let_def case_prod_beta split: if_splits)
qed simp

lemma gauge_loop_more: "env.more (gauge_loop sel nodes e) = env.more e"
  by (induction nodes arbitrary: e) (simp_all add: emit_def)

text \<open>
  So whatever can be read off the world behind the environment changes with the target alone: one
  item writes the nodes at most once.
\<close>

locale node_target =
  fixes T :: "'x env_scheme ExportTarget"
    and lg :: "'x env_scheme \<Rightarrow> 'r list"
    and own :: "'r \<Rightarrow> bool"
  assumes nodes_own: "grows lg own e (snd (tgt_WriteNodes T nodes e))"
    and lg_more: "env.more e = env.more e' \<Longrightarrow> lg e = lg e'"
begin

lemma exportNodes_grows:
  assumes "exportNodes st T nw e = Ret (nw', e')"
  shows "grows lg own e e'"
proof -
  obtain nodes sel e1 where l: "selector_loop st (MinCount nw) (Selectors nw) [] [] e = Ret ((nodes, sel), e1)"
    and e': "e' = snd (tgt_WriteNodes T nodes (gauge_loop sel nodes e1))"
    using assms by (auto simp: exportNodes_def Let_def case_prod_beta split: go.splits)
  have "lg (gauge_loop sel nodes e1) = lg e"
    using selector_loop_more [OF l] by (intro lg_more) (simp add: gauge_loop_more)
  then show ?thesis unfolding e' by (rule grows_trans [OF grows_none nodes_own])
qed

lemma nw_finish_grows:
  assumes f: "nw_finish (handler_queue bucket) st T ko node nw e = Ret (nw', e')"
  shows "grows lg own e e'"
proof -
  let ?e = "emit (Incr ''kubernetes.node_handler'' [handler_tag (ko_Operation ko)]) e"
  obtain nw1 e1 where x: "exportNodes st T nw ?e = Ret (nw1, e1)"
    using f by (auto simp: nw_finish_def nw_dispatch_def Let_def split: go.splits)
  have "env.more e' = env.more e1"
    using f x
    by (auto simp: nw_finish_def nw_dispatch_def Let_def time_Now_def on_queue_mores
        dest!: sym [of _ "(nw', e')"] arg_cong [of _ _ snd] split: go.splits if_splits prod.splits)
  then have "lg e' = lg e1" by (rule lg_more)
  moreover have "lg ?e = lg e" by (rule lg_more) (simp add: emit_def)
  ultimately show ?thesis using exportNodes_grows [OF x] by (simp add: grows_def)
qed

lemma nw_item_grows:
  assumes "nw_item (handler_queue bucket) st T i nw e = Ret (nw', e')"
  shows "grows lg own e e'"
proof -
  have "grows lg own e (snd (on_queue (q_Forget (handler_queue bucket) i) nw e))"
    by (intro grows_none lg_more on_queue_mores)
  then show ?thesis
    using assms nw_finish_grows
    by (auto simp: nw_item_def Let_def intro: grows_none
        dest!: sym [of _ "(nw', e')"] arg_cong [of _ _ snd]
        split: queued.splits if_splits sum.splits option.splits stored.splits)
qed

lemma nw_processNextItem_grows:
  assumes r: "nw_processNextItem (handler_queue bucket) st T nw e = Ret (b, nw', e')"
  shows "grows lg own e e'"
proof -
  let ?Q = "handler_queue bucket"
  obtain g q e1 where g: "q_Get ?Q (nw_queue nw, e) = (g, q, e1)" by (metis prod.exhaust)
  have e1: "grows lg own e e1" using queue_more(1) [of bucket "nw_queue nw" e] g by (intro grows_none lg_more) simp
  show ?thesis
  proof (cases g)
    case (Got i)
    then obtain nw2 e2 where i: "nw_item ?Q st T i (nw\<lparr>nw_queue := q\<rparr>) e1 = Ret (nw2, e2)"
      and e': "e' = snd (on_queue (q_Done ?Q i) nw2 e2)"
      using r g by (auto simp: nw_processNextItem_def split: go.splits)
    have "grows lg own e2 e'" unfolding e' by (intro grows_none lg_more on_queue_mores)
    then show ?thesis by (rule grows_trans [OF grows_trans [OF e1 nw_item_grows [OF i]]])
  qed (use r g e1 in \<open>simp_all add: nw_processNextItem_def\<close>)
qed

end

section \<open>A process that does not lead\<close>

text \<open>
  The writes to the key/value store, seen only while no answer of the elector is yes; together with
  the answers themselves, this is a log that no operation of the target adds anything to.
\<close>

definition follower_log :: "'w world \<Rightarrow> ((nat \<Rightarrow> bool) + request) list" where
  "follower_log w = Inl (leads w) # (if \<exists>n. leads w n then [] else map Inr (kv_writes w))"

lemma follower_logI:
  "\<lbrakk>leads w' = leads w; \<forall>n. \<not> leads w n \<Longrightarrow> kv_writes w' = kv_writes w\<rbrakk> \<Longrightarrow>
    grows follower_log (\<lambda>_. False) w w'"
  by (auto simp: follower_log_def grows_def)

lemma follower_logD:
  assumes "grows follower_log (\<lambda>_. False) w w'" "\<forall>n. \<not> leads w n"
  shows "kv_writes w' = kv_writes w"
proof -
  obtain rs where rs: "follower_log w' = follower_log w @ rs" "list_all (\<lambda>_. False) rs"
    using assms(1) by (auto simp: grows_def)
  then have "follower_log w' = follower_log w" by (cases rs) simp_all
  then have "leads w' = leads w" "map Inr (kv_writes w') = (map Inr (kv_writes w) :: ((nat \<Rightarrow> bool) + request) list)"
    using assms(2) by (simp_all add: follower_log_def split: if_splits)
  then show ?thesis by (simp add: inj_map_eq_map [OF inj_Inr])
qed

interpretation follower: export_target "target_of D (consul_target t le)" follower_log "\<lambda>_ _. False"
  for D :: deps and t :: "'w ConsulTarget" and le :: "'w ConsulLeaderElector"
proof
  have el: "t_elector (consul_target t le) = elector_of le" by simp
  fix es :: ExportedService and old_ptr and e :: "'w world" and m n
  note defs = target_of_def ExportTarget.select_convs
  show "grows follower_log (\<lambda>_. False) e (snd (tgt_Create (target_of D (consul_target t le)) es e))"
    unfolding defs by (rule follower_logI [OF Create_leads [OF el]]) (simp add: Create_follower(1) [OF el])
  show "grows follower_log (\<lambda>r. False \<or> (\<exists>old. old_ptr = Some old \<and> False)) e
      (snd (tgt_Update (target_of D (consul_target t le)) old_ptr es e))"
    unfolding defs simp_thms ex_simps by (rule follower_logI [OF Update_world(2) [OF el]]) (simp add: Update_follower [OF el])
  show "grows follower_log (\<lambda>_. False) e (snd (tgt_Delete (target_of D (consul_target t le)) es e))"
    unfolding defs by (rule follower_logI [OF Delete_world(2) [OF el]]) (simp add: Delete_follower [OF el])
  show "follower_log (emit m e) = follower_log e" "follower_log (e\<lparr>reads := n\<rparr>) = follower_log e"
    by (auto simp: follower_log_def writes_def emit_def)
qed

interpretation follower_nodes: node_target "target_of D (consul_target t le)" follower_log "\<lambda>_. False"
  for D :: deps and t :: "'w ConsulTarget" and le :: "'w ConsulLeaderElector"
proof
  have el: "t_elector (consul_target t le) = elector_of le" by simp
  fix nodes and e e' :: "'w world"
  have "leads (snd (WriteNodes D (consul_target t le) nodes e)) = leads e"
    by (auto simp: WriteNodes_def Let_def case_prod_beta IsLeader_def consul_simps split: sum.split option.split)
  then show "grows follower_log (\<lambda>_. False) e (snd (tgt_WriteNodes (target_of D (consul_target t le)) nodes e))"
    unfolding target_of_def ExportTarget.select_convs
    by (rule follower_logI) (simp add: WriteNodes_follower [OF el])
  show "env.more e = env.more e' \<Longrightarrow> follower_log e = follower_log e'"
    by (cases e; cases e') (auto simp: follower_log_def writes_def)
qed

lemma sw_item_follower:
  assumes "processNextItem fl M local ix (target_of D (consul_target t le)) sw w = Ret (b, sw', w')"
    "\<forall>n. \<not> leads w n"
  shows "kv_writes w' = kv_writes w"
  by (rule follower_logD [OF _ assms(2)]) (use follower.processNextItem_grows [OF assms(1)] in simp)

lemma nw_item_follower:
  assumes "nw_processNextItem (handler_queue bucket) st (target_of D (consul_target t le)) nw w = Ret (b, nw', w')"
    "\<forall>n. \<not> leads w n"
  shows "kv_writes w' = kv_writes w"
  by (rule follower_logD [OF follower_nodes.nw_processNextItem_grows [OF assms(1)] assms(2)])

section \<open>The keys of a cluster\<close>

text \<open>
  A process writes the metadata of its own cluster: the key of the nodes, and for some service the key
  of its metadata, or everything under that key.
\<close>

definition clusterKey :: "'w ConsulTarget \<Rightarrow> string \<Rightarrow> string" where
  "clusterKey t x = kvPrefix t @ ''/services/'' @ x @ ''/clusters/'' @ t_clusterId t"

fun own_cluster :: "'w ConsulTarget \<Rightarrow> request \<Rightarrow> bool" where
  "own_cluster t (ReqPut p) = (kv_Key p = nodesKey t \<or> (\<exists>x. kv_Key p = clusterKey t x))"
| "own_cluster t (ReqDeleteTree pre) = (\<exists>x. pre = clusterKey t x)"
| "own_cluster t _ = False"

lemma own_cluster_consul_target [simp]: "own_cluster (consul_target t le) r = own_cluster t r"
  by (cases r) (simp_all add: nodesKey_def clusterKey_def)

lemma metadataPrefix_of_cluster:
  "metadataPrefix D t es = Inr k \<Longrightarrow> \<exists>x. k = kvPrefix t @ ''/services/'' @ x @ ''/clusters/'' @ ClusterId es"
  by (auto simp: metadataPrefix_def split: if_splits sum.splits)

lemma owns_own_cluster: "\<lbrakk>owns D t es r; is_kv_write r; ClusterId es = t_clusterId t\<rbrakk> \<Longrightarrow> own_cluster t r"
  using metadataPrefix_of_cluster [of D t es] by (cases r) (simp_all add: clusterKey_def)

lemma exported_ClusterId:
  assumes "NewExportedServicesFromKubeService fl ix service c = Ret (Inr ess)" "es \<in> set ess"
  shows "ClusterId es = c"
proof -
  obtain svc where svc: "service = Some svc" using assms(1) by (cases service) auto
  show ?thesis
  proof (cases "IsExportableService service = Ret True")
    case True
    have "list_all2 (\<lambda>p es. ClusterId es = c) (svc_ports svc) ess"
      using export_ok [OF assms(1) [unfolded svc] True [unfolded svc]]
      by (rule list_all2_mono) (use merge_ingress_keeps(1) in fastforce)
    then show ?thesis using assms(2) by (auto simp: list_all2_conv_all_nth in_set_conv_nth)
  next
    case False
    then show ?thesis
      using assms svc by (auto simp: NewExportedServicesFromKubeService_def split: go.splits bool.splits)
  qed
qed

interpretation ct_nodes: node_target "target_of D (consul_target t le)" writes
    "\<lambda>r. \<exists>p. r = ReqPut p \<and> kv_Key p = nodesKey (consul_target t le)"
  for D :: deps and t :: "'w ConsulTarget" and le :: "'w ConsulLeaderElector"
proof
  have h: "t_elector (consul_target t le) =
      \<lparr>el_IsLeader = IsLeader le, el_HasLeader = HasLeader le, el_WaitForLeader = WaitForLeader le\<rparr>"
    by (simp add: elector_of_def)
  fix nodes and e e' :: "'w world"
  show "adds (\<lambda>r. \<exists>p. r = ReqPut p \<and> kv_Key p = nodesKey (consul_target t le)) e
      (snd (tgt_WriteNodes (target_of D (consul_target t le)) nodes e))"
    using cle.WriteNodes_adds [OF h] by (simp add: target_of_def)
  show "env.more e = env.more e' \<Longrightarrow> writes e = writes e'"
    by (cases e; cases e') (simp add: writes_def)
qed

lemma grows_kv: "adds P w w' \<Longrightarrow> grows kv_writes (\<lambda>r. P r \<and> is_kv_write r) w w'"
  by (auto simp: grows_def list_all_iff)

lemma sw_item_own_cluster:
  assumes "processNextItem fl M local ix (target_of D (consul_target t le)) sw w = Ret (b, sw', w')"
    "sw_clusterId sw = t_clusterId t"
  shows "grows kv_writes (own_cluster t) w w'"
  using grows_kv [OF ct.processNextItem_grows [OF assms(1)]]
proof (rule grows_mono, elim conjE exE)
  fix r service es ess
  assume "NewExportedServicesFromKubeService fl ix service (sw_clusterId sw) = Ret (Inr ess)" "es \<in> set ess"
  then have "ClusterId es = t_clusterId (consul_target t le)" using exported_ClusterId assms(2) by fastforce
  moreover assume "owns D (consul_target t le) es r" "is_kv_write r"
  ultimately have "own_cluster (consul_target t le) r" by (intro owns_own_cluster)
  then show "own_cluster t r" by simp
qed

lemma nw_item_own_cluster:
  assumes "nw_processNextItem (handler_queue bucket) st (target_of D (consul_target t le)) nw w = Ret (b, nw', w')"
  shows "grows kv_writes (own_cluster t) w w'"
  using grows_kv [OF ct_nodes.nw_processNextItem_grows [OF assms]] by (rule grows_mono) (auto simp: nodesKey_def)

end
