(* ===== verification/WholeProcess.thy ===== *)
theory WholeProcess
  imports ItemWrites
begin

text \<open>
  The process as a whole: \<open>main\<close>, the leader elector and the two watchers, each with the steps of its
  own theory, tied together where the program ties them: \<open>main\<close> starts and stops the parts, and the
  export target that the workers call reads the elector's flag. What was shown of each part holds of
  it inside the process, and the order in which \<open>main\<close> stops the parts keeps a process that has
  given up the lock from writing shared metadata.
\<close>

section \<open>The state of the process\<close>

text \<open>
  \<open>wh_svc\<close> and \<open>wh_node\<close> say whether the worker of the services, of the nodes, is on an item, and if so
  whether the elector's flag has been up at some time since it got it: the operations of the target
  ask the elector in between. \<open>wh_kv\<close> are the writes to the key/value store that were sent so far.
\<close>

record 'm whole =
  wh_main :: process
  wh_elector :: elector
  wh_sw :: "'m ServiceWatcher watch"
  wh_nw :: "queued workqueue NodeWatcher watch"
  wh_svc :: "bool option"
  wh_node :: "bool option"
  wh_kv :: "request list"

definition crashed :: "'st watch \<Rightarrow> bool" where
  "crashed w = (case worker w of Crashed msg \<Rightarrow> True | _ \<Rightarrow> False)"

definition alive :: "'m whole \<Rightarrow> bool" where
  "alive s = ((case pr_phase (wh_main s) of Exited oc \<Rightarrow> False | _ \<Rightarrow> True) \<and> \<not> crashed (wh_sw s) \<and> \<not> crashed (wh_nw s))"

text \<open>
  \<open>main\<close> sees that a \<open>Run\<close> or a \<open>Stop\<close> has come back only when it has; a \<open>Run\<close> is called only by the
  goroutine that \<open>main\<close> starts for it, a channel closed only by a \<open>Stop\<close> that \<open>main\<close> calls.
\<close>

definition main_agrees :: "process \<Rightarrow> 'm whole \<Rightarrow> bool" where
  "main_agrees m s =
     ((pr_runs m RElector = run_state.Returned \<longrightarrow> pos (wh_elector s) = pc.Returned None) \<and>
      (\<forall>err. pr_phase m = Exited (Fatal (Wrap err (''Error starting '' @ runner_String RElector))) \<longrightarrow>
         pos (wh_elector s) = pc.Returned (Some err)) \<and>
      (pr_runs m RServiceWatcher = run_state.Returned \<longrightarrow> worker (wh_sw s) = RunReturned) \<and>
      (RServiceWatcher \<in> set (pr_ended m) \<longrightarrow> stopper (wh_sw s) = StopReturned) \<and>
      (pr_runs m RNodeWatcher = run_state.Returned \<longrightarrow> worker (wh_nw s) = RunReturned) \<and>
      (RNodeWatcher \<in> set (pr_ended m) \<longrightarrow> stopper (wh_nw s) = StopReturned))"

definition told :: "process \<Rightarrow> runner \<Rightarrow> 'st watch \<Rightarrow> 'st watch \<Rightarrow> bool" where
  "told m r w w' =
     ((worker w = NotCalled \<longrightarrow> worker w' \<noteq> NotCalled \<longrightarrow> pr_runs m r = Running) \<and>
      (stopC_closed w' \<longrightarrow> stopC_closed w \<or> r \<in> set (pr_begun m)))"

definition sees :: "bool \<Rightarrow> bool option \<Rightarrow> bool option" where
  "sees flag = map_option (\<lambda>up. up \<or> flag)"

definition after_item :: "bool \<Rightarrow> 'st \<Rightarrow> 'st watch \<Rightarrow> 'st watch" where
  "after_item b st w = (if b then w\<lparr>watched := st, processed := Suc (processed w)\<rparr> else w\<lparr>watched := st, worker := AtUntil\<rparr>)"

definition sent_kv :: "'w world \<Rightarrow> 'w world \<Rightarrow> request list" where
  "sent_kv w w' = drop (length (kv_writes w)) (kv_writes w')"

section \<open>Its steps\<close>

text \<open>
  The world that an item starts in is what other goroutines and other processes have made of it; the
  answers that it gets from the elector can be yes only if the flag was up in the meantime.
\<close>

inductive whole_step ::
  "string \<Rightarrow> (string \<Rightarrow> string option) \<Rightarrow> (queued, 'm) Metrics \<Rightarrow> (queued workqueue \<Rightarrow> int) \<Rightarrow> 'w world ExportTarget \<Rightarrow>
   'm whole \<Rightarrow> 'm whole \<Rightarrow> bool"
  for c :: string and fl :: "string \<Rightarrow> string option" and M :: "(queued, 'm) Metrics"
    and bucket :: "queued workqueue \<Rightarrow> int" and T :: "'w world ExportTarget" where
  main_moves: "\<lbrakk>alive s; main_step (wh_main s) m; main_agrees m s\<rbrakk> \<Longrightarrow>
    whole_step c fl M bucket T s (s\<lparr>wh_main := m,
      wh_elector := (if RElector \<in> set (pr_begun m) then (wh_elector s)\<lparr>stopClosed := True\<rparr> else wh_elector s)\<rparr>)"
| elector_runs: "\<lbrakk>alive s; pr_runs (wh_main s) RElector = Running; run_step c (wh_elector s) e\<rbrakk> \<Longrightarrow>
    whole_step c fl M bucket T s (s\<lparr>wh_elector := e, wh_svc := sees (isLeader e) (wh_svc s),
      wh_node := sees (isLeader e) (wh_node s)\<rparr>)"
| lock_lost: "\<lbrakk>alive s; held (wh_elector s)\<rbrakk> \<Longrightarrow>
    whole_step c fl M bucket T s (s\<lparr>wh_elector := (wh_elector s)\<lparr>lost := True\<rparr>\<rparr>)"
| sw_moves: "\<lbrakk>alive s; watch_step (sw_event M) (\<lambda>_ _. False) (=) (wh_sw s) w; told (wh_main s) RServiceWatcher (wh_sw s) w\<rbrakk> \<Longrightarrow>
    whole_step c fl M bucket T s (s\<lparr>wh_sw := w\<rparr>)"
| sw_takes: "\<lbrakk>alive s; worker (wh_sw s) = InWorker; wh_svc s = None\<rbrakk> \<Longrightarrow>
    whole_step c fl M bucket T s (s\<lparr>wh_svc := Some (isLeader (wh_elector s))\<rparr>)"
| sw_ends: "\<lbrakk>alive s; worker (wh_sw s) = InWorker; wh_svc s = Some up; \<forall>n. leads w n \<longrightarrow> up;
    processNextItem fl M local ix T (watched (wh_sw s)) w = Ret (b, sw, w')\<rbrakk> \<Longrightarrow>
    whole_step c fl M bucket T s (s\<lparr>wh_sw := after_item b sw (wh_sw s), wh_svc := None, wh_kv := wh_kv s @ sent_kv w w'\<rparr>)"
| sw_panics: "\<lbrakk>alive s; worker (wh_sw s) = InWorker; wh_svc s = Some up; \<forall>n. leads w n \<longrightarrow> up;
    processNextItem fl M local ix T (watched (wh_sw s)) w = Panic msg\<rbrakk> \<Longrightarrow>
    whole_step c fl M bucket T s (s\<lparr>wh_sw := (wh_sw s)\<lparr>worker := Crashed msg\<rparr>\<rparr>)"
| nw_moves: "\<lbrakk>alive s; watch_step (\<lambda>nw nw'. \<exists>e :: 'w world. nw_event bucket e nw nw') (\<lambda>_ _. False)
      (\<lambda>nw nw'. \<exists>e :: 'w world. nw_close bucket e nw nw') (wh_nw s) w; told (wh_main s) RNodeWatcher (wh_nw s) w\<rbrakk> \<Longrightarrow>
    whole_step c fl M bucket T s (s\<lparr>wh_nw := w\<rparr>)"
| nw_takes: "\<lbrakk>alive s; worker (wh_nw s) = InWorker; wh_node s = None;
    wq_queue (nw_queue (watched (wh_nw s))) \<noteq> [] \<or> shuttingDown (nw_queue (watched (wh_nw s)))\<rbrakk> \<Longrightarrow>
    whole_step c fl M bucket T s (s\<lparr>wh_node := Some (isLeader (wh_elector s))\<rparr>)"
| nw_ends: "\<lbrakk>alive s; worker (wh_nw s) = InWorker; wh_node s = Some up; \<forall>n. leads w n \<longrightarrow> up;
    nw_processNextItem (handler_queue bucket) (st :: string node_store) T (watched (wh_nw s)) w = Ret (Some b, nw, w')\<rbrakk> \<Longrightarrow>
    whole_step c fl M bucket T s (s\<lparr>wh_nw := after_item b nw (wh_nw s), wh_node := None, wh_kv := wh_kv s @ sent_kv w w'\<rparr>)"
| nw_panics: "\<lbrakk>alive s; worker (wh_nw s) = InWorker; wh_node s = Some up; \<forall>n. leads w n \<longrightarrow> up;
    nw_processNextItem (handler_queue bucket) (st :: string node_store) T (watched (wh_nw s)) w = Panic msg\<rbrakk> \<Longrightarrow>
    whole_step c fl M bucket T s (s\<lparr>wh_nw := (wh_nw s)\<lparr>worker := Crashed msg\<rparr>\<rparr>)"

definition NewWhole :: "'m ServiceWatcher \<Rightarrow> queued workqueue NodeWatcher \<Rightarrow> 'm whole" where
  "NewWhole sw nw = \<lparr>wh_main = main_init, wh_elector = NewElector, wh_sw = NewWatch sw, wh_nw = NewWatch nw,
     wh_svc = None, wh_node = None, wh_kv = []\<rparr>"

inductive whole_reached ::
  "string \<Rightarrow> (string \<Rightarrow> string option) \<Rightarrow> (queued, 'm) Metrics \<Rightarrow> (queued workqueue \<Rightarrow> int) \<Rightarrow> 'w world ExportTarget \<Rightarrow>
   'm ServiceWatcher \<Rightarrow> queued workqueue NodeWatcher \<Rightarrow> 'm whole \<Rightarrow> bool"
  for c :: string and fl :: "string \<Rightarrow> string option" and M :: "(queued, 'm) Metrics"
    and bucket :: "queued workqueue \<Rightarrow> int" and T :: "'w world ExportTarget"
    and sw :: "'m ServiceWatcher" and nw :: "queued workqueue NodeWatcher" where
  init: "whole_reached c fl M bucket T sw nw (NewWhole sw nw)"
| step: "\<lbrakk>whole_reached c fl M bucket T sw nw s; whole_step c fl M bucket T s s'\<rbrakk> \<Longrightarrow>
    whole_reached c fl M bucket T sw nw s'"

section \<open>Every part runs as in its own theory\<close>

lemma around_any_item: "watch_step ev (\<lambda>_ _. False) cl s s' \<Longrightarrow> watch_step ev it cl s s'"
  by (erule watch_step.cases) (auto intro: watch_step.intros)

lemma after_item_step:
  assumes "worker w = InWorker" "it (watched w) (Ret (Some b, st))"
  shows "watch_step ev it cl w (after_item b st w)"
  using assms watch_step.item_done [of w it] watch_step.round_ends [of w it] by (cases b) (simp_all add: after_item_def)

lemma sw_item_of: "processNextItem fl M local ix T sw w = Ret (b, sw', w') \<Longrightarrow> sw_item fl M T sw (Ret (Some b, sw'))"
  and sw_item_of_panic: "processNextItem fl M local ix T sw w = Panic msg \<Longrightarrow> sw_item fl M T sw (Panic msg)"
  unfolding sw_item_def by (metis sw_result.simps)+

lemma nw_item_of:
  "nw_processNextItem (handler_queue bucket) (st :: string node_store) T nw w = Ret (b, nw', w') \<Longrightarrow>
    nw_step_item bucket T nw (Ret (b, nw'))"
  and nw_item_of_panic:
  "nw_processNextItem (handler_queue bucket) (st :: string node_store) T nw w = Panic msg \<Longrightarrow>
    nw_step_item bucket T nw (Panic msg)"
  unfolding nw_step_item_def by (metis nw_result.simps)+

lemma whole_parts:
  assumes "whole_step c fl M bucket T s s'"
  shows "wh_main s' = wh_main s \<or> main_step (wh_main s) (wh_main s')"
    and "wh_elector s' = wh_elector s \<or> run_step c (wh_elector s) (wh_elector s') \<or> env_step (wh_elector s) (wh_elector s')"
    and "wh_sw s' = wh_sw s \<or> sw_step fl M T (wh_sw s) (wh_sw s')"
    and "wh_nw s' = wh_nw s \<or> nw_step bucket T (wh_nw s) (wh_nw s')"
proof -
  show "wh_main s' = wh_main s \<or> main_step (wh_main s) (wh_main s')" using assms by cases simp_all
  show "wh_elector s' = wh_elector s \<or> run_step c (wh_elector s) (wh_elector s') \<or> env_step (wh_elector s) (wh_elector s')"
    using assms by cases (auto intro: env_step.intros)
  show "wh_sw s' = wh_sw s \<or> sw_step fl M T (wh_sw s) (wh_sw s')"
    unfolding sw_step_def using assms
    by cases (auto intro: around_any_item after_item_step watch_step.crash dest: sw_item_of sw_item_of_panic)
  show "wh_nw s' = wh_nw s \<or> nw_step bucket T (wh_nw s) (wh_nw s')"
    unfolding nw_step_def using assms
    by cases (auto intro: around_any_item after_item_step watch_step.crash dest: nw_item_of nw_item_of_panic)
qed

lemma whole_projection:
  assumes "whole_reached c fl M bucket T sw nw s"
  shows "main_reached (wh_main s) \<and> reached c (wh_elector s) \<and> sw_reached fl M T sw (wh_sw s) \<and>
    nw_reached bucket T nw (wh_nw s)"
  using assms
proof (induction rule: whole_reached.induct)
  case init
  show ?case
    by (simp add: NewWhole_def sw_reached_def nw_reached_def main_reached.init reached.init watch_reached.init)
next
  case (step s s')
  note parts = whole_parts [OF step.hyps(2)]
  have "main_reached (wh_main s')" using parts(1) step.IH main_reached.step by metis
  moreover have "reached c (wh_elector s')" using parts(2) step.IH reached.run reached.env by metis
  moreover have "sw_reached fl M T sw (wh_sw s')"
    using parts(3) step.IH unfolding sw_reached_def sw_step_def by (auto intro: watch_reached.step)
  moreover have "nw_reached bucket T nw (wh_nw s')"
    using parts(4) step.IH unfolding nw_reached_def nw_step_def by (auto intro: watch_reached.step)
  ultimately show ?case by blast
qed


section \<open>Who may write\<close>

lemma sees_simps [simp]: "sees b None = None" "sees b (Some up) = Some (up \<or> b)"
  by (simp_all add: sees_def)

lemma sees_down: "sees b u = Some True \<longleftrightarrow> u = Some True \<or> (u \<noteq> None \<and> b)"
  by (cases u) auto

lemma sent_kv_none: "kv_writes w' = kv_writes w \<Longrightarrow> sent_kv w w' = []"
  by (simp add: sent_kv_def)

text \<open>A step in which the flag is down and no worker has seen it up sends no write.\<close>

lemma quiet_step:
  assumes "whole_step c fl M bucket (target_of D (consul_target t le)) s s'"
    "\<not> isLeader (wh_elector s')" "wh_svc s \<noteq> Some True" "wh_node s \<noteq> Some True" "\<not> isLeader (wh_elector s)"
  shows "wh_kv s' = wh_kv s \<and> wh_svc s' \<noteq> Some True \<and> wh_node s' \<noteq> Some True"
  using assms(1)
proof cases
  case (sw_ends up w local ix b sw w')
  then have "\<forall>n. \<not> leads w n" using assms(3) by auto
  then have "sent_kv w w' = []" by (rule sent_kv_none [OF sw_item_follower [OF sw_ends(6)]])
  then show ?thesis using sw_ends assms(4) by simp
next
  case (nw_ends up w st b nw w')
  then have "\<forall>n. \<not> leads w n" using assms(4) by auto
  then have "sent_kv w w' = []" by (rule sent_kv_none [OF nw_item_follower [OF nw_ends(6)]])
  then show ?thesis using nw_ends assms(3) by simp
qed (use assms(2-5) in \<open>auto simp: sees_down\<close>)

lemma elected_grows:
  assumes "run_step c s s' \<or> env_step s s'"
  shows "count_of ''consul.leadership.elected'' s \<le> count_of ''consul.leadership.elected'' s'"
  using assms
proof
  assume "run_step c s s'" then show ?thesis by cases simp_all
next
  assume "env_step s s'" then show ?thesis by cases simp_all
qed

lemma never_elected: "\<lbrakk>reached c s; count_of ''consul.leadership.elected'' s = 0\<rbrakk> \<Longrightarrow> \<not> isLeader s"
  using elector_inv_def reached_inv by fastforce

text \<open>C9: until the elector has reported an election the process sends no write to the key/value
  store, whatever its two workers do in the meantime and whatever they get from the informers.\<close>

theorem no_writes_before_election:
  assumes "whole_reached c fl M bucket (target_of D (consul_target t le)) sw nw s"
    "count_of ''consul.leadership.elected'' (wh_elector s) = 0"
  shows "wh_kv s = []"
proof -
  have "wh_kv s = [] \<and> wh_svc s \<noteq> Some True \<and> wh_node s \<noteq> Some True"
    using assms
  proof (induction rule: whole_reached.induct)
    case init
    show ?case by (simp add: NewWhole_def)
  next
    case (step s s')
    have r: "reached c (wh_elector s)" "reached c (wh_elector s')"
      using whole_projection step.hyps whole_reached.step by metis+
    have "count_of ''consul.leadership.elected'' (wh_elector s) \<le> count_of ''consul.leadership.elected'' (wh_elector s')"
      using whole_parts(2) [OF step.hyps(2)] elected_grows by auto
    then have none: "count_of ''consul.leadership.elected'' (wh_elector s) = 0" using step.prems by simp
    then have down: "\<not> isLeader (wh_elector s)" "\<not> isLeader (wh_elector s')"
      using never_elected r step.prems by blast+
    show ?case using quiet_step [OF step.hyps(2) down(2) _ _ down(1)] step.IH [OF none] by simp
  qed
  then show ?thesis ..
qed

text \<open>Once \<open>main\<close> has seen the elector's \<open>Run\<close> come back, the elector does not move any more.\<close>

definition resigned :: "'m whole \<Rightarrow> bool" where
  "resigned s = (pr_runs (wh_main s) RElector = run_state.Returned \<and> pos (wh_elector s) = pc.Returned None)"

lemma resigned_reached:
  assumes "whole_reached c fl M bucket T sw nw s" "pr_runs (wh_main s) RElector = run_state.Returned"
  shows "resigned s"
  using assms
proof (induction rule: whole_reached.induct)
  case init
  then show ?case by (simp add: NewWhole_def main_init_def)
next
  case (step s s')
  from step.hyps(2) show ?case
    by cases (use step.IH step.prems in \<open>auto simp: resigned_def main_agrees_def\<close>)
qed

lemma main_returned: "\<lbrakk>main_step m m'; pr_runs m r = run_state.Returned\<rbrakk> \<Longrightarrow> pr_runs m' r = run_state.Returned"
  by (erule main_stepE) auto

lemma resigned_step:
  assumes "whole_step c fl M bucket T s s'" "resigned s"
  shows "resigned s'"
  using assms(1) by cases (use assms(2) main_returned in \<open>auto simp: resigned_def\<close>)

lemma resigned_down: "\<lbrakk>resigned s; reached c (wh_elector s)\<rbrakk> \<Longrightarrow> \<not> isLeader (wh_elector s)"
  using reached_inv by (fastforce simp: resigned_def elector_inv_def)

text \<open>C10: \<open>main\<close> stops the elector first, and once its \<open>Stop\<close> has come back no item that a worker
  takes from then on writes to the key/value store, though both watchers still run: only items that
  were taken while the flag was up can.\<close>

theorem no_writes_after_stop:
  assumes "whole_reached c fl M bucket (target_of D (consul_target t le)) sw nw s"
    "RElector \<in> set (pr_ended (wh_main s))" "wh_svc s \<noteq> Some True" "wh_node s \<noteq> Some True"
    "(whole_step c fl M bucket (target_of D (consul_target t le)))\<^sup>*\<^sup>* s s'"
  shows "wh_kv s' = wh_kv s"
proof -
  have "main_inv (wh_main s)" by (rule main_inv_reached) (use whole_projection [OF assms(1)] in blast)
  then have "pr_runs (wh_main s) RElector = run_state.Returned" using assms(2) by (simp add: main_inv_def)
  then have r: "resigned s" by (rule resigned_reached [OF assms(1)])
  from assms(5) have "wh_kv s' = wh_kv s \<and> wh_svc s' \<noteq> Some True \<and> wh_node s' \<noteq> Some True \<and> resigned s' \<and>
    whole_reached c fl M bucket (target_of D (consul_target t le)) sw nw s'"
  proof (induction rule: rtranclp_induct)
    case base
    show ?case using assms r by blast
  next
    case (step x y)
    then have y: "resigned y" "whole_reached c fl M bucket (target_of D (consul_target t le)) sw nw y"
      using resigned_step whole_reached.step by blast+
    have "\<not> isLeader (wh_elector x)" "\<not> isLeader (wh_elector y)"
      using step.IH y whole_projection resigned_down by blast+
    then show ?case using quiet_step [OF step.hyps(2)] step.IH y by auto
  qed
  then show ?thesis by blast
qed

section \<open>What may be written\<close>

lemma sw_event_clusterId: "sw_event M sw sw' \<Longrightarrow> sw_clusterId sw' = sw_clusterId sw"
  by (erule sw_event.cases)
    (auto simp: AddFunc_def UpdateFunc_def DeleteFunc_def enqueue_def Let_def split: sum.splits kobject.splits)

lemma dispatch_clusterId: "dispatch fl ix T ko svc sw e = Ret (b, sw', e') \<Longrightarrow> sw_clusterId sw' = sw_clusterId sw"
  by (auto simp: dispatch_def split: operation.splits go.splits option.splits ref.splits kobject.splits if_splits prod.splits)

lemma sw_item_clusterId:
  assumes "processNextItem fl M local ix T sw e = Ret (b, sw', e')"
  shows "sw_clusterId sw' = sw_clusterId sw"
proof -
  obtain g q where g: "Get M (sw_queue sw) = (g, q)" by fastforce
  have "sw_clusterId sw2 = sw_clusterId sw"
    if "dispatch fl ix T ko svc (sw\<lparr>sw_queue := q\<rparr>) e = Ret (c, sw2, e2)" for ko svc c sw2 e2
    using dispatch_clusterId [OF that] by simp
  then show ?thesis
    using assms g
    by (auto simp: processNextItem_def finish_item_def Let_def
        split: if_splits sum.splits queued.splits option.splits kobject.splits go.splits prod.splits)
qed

lemma whole_clusterId:
  assumes "whole_step c fl M bucket T s s'"
  shows "sw_clusterId (watched (wh_sw s')) = sw_clusterId (watched (wh_sw s))"
  using assms
proof cases
  case (sw_moves w)
  from sw_moves(3) show ?thesis by cases (use sw_moves(1) in \<open>auto dest: sw_event_clusterId\<close>)
next
  case (sw_ends up w local ix b sw w')
  then show ?thesis using sw_item_clusterId by (simp add: after_item_def)
qed simp_all

lemma sent_kv_grows: "grows kv_writes P w w' \<Longrightarrow> list_all P (sent_kv w w')"
  by (auto simp: grows_def sent_kv_def)


section \<open>One run of the process\<close>

text \<open>
  A process that is elected, whose service watcher takes an added Service off its queue, and that is
  stopped then: the elector has come to an end and has given up the lock when the item is finished.
\<close>

definition whole_at :: "queued workqueue NodeWatcher \<Rightarrow> process \<Rightarrow> elector \<Rightarrow> unit ServiceWatcher watch \<Rightarrow> bool option \<Rightarrow> unit whole" where
  "whole_at nw m e w up = \<lparr>wh_main = m, wh_elector = e, wh_sw = w, wh_nw = NewWatch nw, wh_svc = up, wh_node = None, wh_kv = []\<rparr>"

abbreviation demo_T :: "memory world ExportTarget" where
  "demo_T \<equiv> target_of demo_deps (consul_target demo_target demo_elector)"

abbreviation blank_sw :: "unit ServiceWatcher" where
  "blank_sw \<equiv> NewServiceWatcher [] ''c1'' ()"

abbreviation demo_whole :: "queued workqueue NodeWatcher \<Rightarrow> process \<Rightarrow> elector \<Rightarrow> unit ServiceWatcher watch \<Rightarrow> bool option \<Rightarrow> bool" where
  "demo_whole nw m e w up \<equiv> whole_reached ''me'' Some no_metrics (\<lambda>_. 0) demo_T blank_sw nw (whole_at nw m e w up)"

lemma whole_at_simps:
  "wh_main (whole_at nw m e w up) = m" "wh_elector (whole_at nw m e w up) = e" "wh_sw (whole_at nw m e w up) = w"
  "wh_svc (whole_at nw m e w up) = up" "wh_node (whole_at nw m e w up) = None" "wh_kv (whole_at nw m e w up) = []"
  by (simp_all add: whole_at_def)

lemma alive_at: "alive (whole_at nw m e w up) \<longleftrightarrow> (case pr_phase m of Exited oc \<Rightarrow> False | _ \<Rightarrow> True) \<and> \<not> crashed w"
  by (simp add: alive_def whole_at_def crashed_def NewWatch_def)

lemma demo_main:
  assumes "demo_whole nw m e w up" "main_step m m'" "main_agrees m' (whole_at nw m e w up)"
    "case pr_phase m of Exited oc \<Rightarrow> False | _ \<Rightarrow> True" "\<not> crashed w"
  shows "demo_whole nw m' (if RElector \<in> set (pr_begun m') then e\<lparr>stopClosed := True\<rparr> else e) w up"
proof -
  have "alive (whole_at nw m e w up)" using assms(4,5) by (simp add: alive_at)
  from whole_reached.step [OF assms(1) main_moves [OF this _ assms(3)]] assms(2) show ?thesis
    by (cases "RElector \<in> set (pr_begun m')") (simp_all add: whole_at_def)
qed

lemma demo_elects:
  assumes "demo_whole nw m e w up" "run_step ''me'' e e'" "pr_runs m RElector = Running"
    "case pr_phase m of Exited oc \<Rightarrow> False | _ \<Rightarrow> True" "\<not> crashed w"
  shows "demo_whole nw m e' w (sees (isLeader e') up)"
proof -
  have "alive (whole_at nw m e w up)" using assms(4,5) by (simp add: alive_at)
  from whole_reached.step [OF assms(1) elector_runs [OF this]] assms(2,3) show ?thesis
    by (simp add: whole_at_def)
qed

lemma demo_watch:
  assumes "demo_whole nw m e w up" "watch_step (sw_event no_metrics) (\<lambda>_ _. False) (=) w w'" "told m RServiceWatcher w w'"
    "case pr_phase m of Exited oc \<Rightarrow> False | _ \<Rightarrow> True" "\<not> crashed w"
  shows "demo_whole nw m e w' up"
proof -
  have "alive (whole_at nw m e w up)" using assms(4,5) by (simp add: alive_at)
  from whole_reached.step [OF assms(1) sw_moves [OF this]] assms(2,3) show ?thesis
    by (simp add: whole_at_def)
qed

definition both_run :: "phase \<Rightarrow> runner list \<Rightarrow> runner list \<Rightarrow> process" where
  "both_run ph bs es = \<lparr>pr_phase = ph, pr_runs = (\<lambda>_. run_state.NotStarted)(RElector := Running, RServiceWatcher := Running),
     pr_begun = bs, pr_ended = es\<rparr>"

lemma demo_started: "demo_whole nw (both_run Serving [] []) NewElector (NewWatch blank_sw) None"
proof -
  let ?m = "\<lambda>f. \<lparr>pr_phase = Serving, pr_runs = f, pr_begun = [], pr_ended = []\<rparr>"
  have start: "demo_whole nw (?m (f(r := Running))) NewElector (NewWatch blank_sw) None"
    if "demo_whole nw (?m f) NewElector (NewWatch blank_sw) None" "f r = run_state.NotStarted"
      "\<forall>r. f r \<noteq> run_state.Returned" for f r
    using demo_main [OF that(1) main_step.start [of "?m f" r]] that(2,3)
    by (simp add: main_agrees_def crashed_def NewWatch_def)
  have "demo_whole nw (?m (\<lambda>_. run_state.NotStarted)) NewElector (NewWatch blank_sw) None"
    using whole_reached.init [of "''me''" Some no_metrics "\<lambda>_. 0" demo_T blank_sw nw]
    by (simp add: whole_at_def NewWhole_def main_init_def)
  from start [OF this, of RElector] have "demo_whole nw (?m ((\<lambda>_. run_state.NotStarted)(RElector := Running))) NewElector (NewWatch blank_sw) None"
    by simp
  from start [OF this, of RServiceWatcher] show ?thesis by (simp add: both_run_def)
qed

lemma demo_working: "demo_whole nw (both_run Serving [] []) NewElector (Working plain_sw) None"
proof -
  let ?m = "both_run Serving [] []"
  let ?w = "\<lambda>sw h p. \<lparr>watched = sw, informer = InfRunning, hasSynced = h, worker = p, stopper = NotStopped,
     stopC_closed = False, processed = 0\<rparr>"
  have ok: "case pr_phase ?m of Exited oc \<Rightarrow> False | _ \<Rightarrow> True" by (simp add: both_run_def)
  have go: "demo_whole nw ?m NewElector w' None"
    if "demo_whole nw ?m NewElector w None" "watch_step (sw_event no_metrics) (\<lambda>_ _. False) (=) w w'"
      "\<not> stopC_closed w'" "\<not> crashed w" for w w'
    by (rule demo_watch [OF that(1,2) _ ok that(4)]) (use that(3) in \<open>simp add: told_def both_run_def\<close>)
  have a: "demo_whole nw ?m NewElector (?w blank_sw False AtSync) None"
    by (rule go [OF demo_started]) (use watch_step.run [of "NewWatch blank_sw"] in \<open>simp_all add: NewWatch_def crashed_def\<close>)
  have "sw_event no_metrics blank_sw plain_sw" unfolding plain_sw_def by (rule sw_event.added)
  then have "demo_whole nw ?m NewElector (?w plain_sw False AtSync) None"
    by (intro go [OF a]) (use watch_step.handler [of "?w blank_sw False AtSync" "sw_event no_metrics" plain_sw]
      in \<open>simp_all add: crashed_def\<close>)
  then have "demo_whole nw ?m NewElector (?w plain_sw True AtSync) None"
    by (rule go) (use watch_step.cache_full [of "?w plain_sw False AtSync"] in \<open>simp_all add: crashed_def\<close>)
  then have "demo_whole nw ?m NewElector (?w plain_sw True AtUntil) None"
    by (rule go) (use watch_step.synced [of "?w plain_sw True AtSync"] in \<open>simp_all add: crashed_def\<close>)
  then have "demo_whole nw ?m NewElector (?w plain_sw True InWorker) None"
    by (rule go) (use watch_step.round [of "?w plain_sw True AtUntil"] in \<open>simp_all add: crashed_def\<close>)
  then show ?thesis by (simp add: Working_def)
qed

text \<open>The elector on its way up and down again.\<close>

abbreviation elector_at :: "pc \<Rightarrow> bool \<Rightarrow> bool \<Rightarrow> bool \<Rightarrow> metric list \<Rightarrow> elector" where
  "elector_at p up l stopd ms \<equiv> \<lparr>pos = p, isLeader = up, held = l, lost = False, stopClosed = stopd, sent = ms\<rparr>"

abbreviation elected_metric :: metric where
  "elected_metric \<equiv> Incr ''consul.leadership.elected'' [''client_id:me'']"

abbreviation relinquished_metric :: metric where
  "relinquished_metric \<equiv> Incr ''consul.leadership.relinquished'' [''client_id:me'']"

lemma Working_at: "worker (Working sw) = InWorker" "watched (Working sw) = sw" "\<not> crashed (Working sw)"
  by (simp_all add: Working_def crashed_def)

lemma demo_taken:
  "demo_whole nw (both_run Serving [] []) (elector_at (AtSelect LockChan) True True False [elected_metric])
     (Working plain_sw) (Some True)"
proof -
  let ?m = "both_run Serving [] []" and ?w = "Working plain_sw"
  have go: "demo_whole nw ?m e' ?w None" if "demo_whole nw ?m e ?w None" "run_step ''me'' e e'" for e e'
    using demo_elects [OF that] by (simp add: both_run_def Working_at)
  have "demo_whole nw ?m (elector_at AtLockOpts False False False []) ?w None"
    using demo_working by (simp add: NewElector_def)
  then have "demo_whole nw ?m (elector_at AtLock False False False []) ?w None"
    by (rule go) (use run_step.opts_ok [of "elector_at AtLockOpts False False False []"] in simp)
  then have "demo_whole nw ?m (elector_at (AtSet LockChan) False True False []) ?w None"
    by (rule go) (use run_step.lock_won [of "elector_at AtLock False False False []"] in simp)
  then have e: "demo_whole nw ?m (elector_at (AtSelect LockChan) True True False [elected_metric]) ?w None"
    by (rule go) (use run_step.elected [of "elector_at (AtSet LockChan) False True False []"] in \<open>simp add: setIsLeader_def\<close>)
  have "alive (whole_at nw ?m (elector_at (AtSelect LockChan) True True False [elected_metric]) ?w None)"
    by (simp add: alive_at both_run_def Working_at)
  from whole_reached.step [OF e sw_takes [OF this]] show ?thesis by (simp add: whole_at_def Working_at)
qed

definition resigned_main :: process where
  "resigned_main = \<lparr>pr_phase = Stopping,
     pr_runs = (\<lambda>_. run_state.NotStarted)(RServiceWatcher := Running, RElector := run_state.Returned),
     pr_begun = [RElector], pr_ended = [RElector]\<rparr>"

abbreviation resigned_elector :: elector where
  "resigned_elector \<equiv> elector_at (pc.Returned None) False False True [elected_metric, relinquished_metric]"

lemma demo_resigned: "demo_whole nw resigned_main resigned_elector (Working plain_sw) (Some True)"
proof -
  let ?w = "Working plain_sw" and ?e = "\<lambda>p up l. elector_at p up l True (if up then [elected_metric] else [elected_metric, relinquished_metric])"
  let ?s = "elector_at (AtSelect LockChan) True True False [elected_metric]"
  have "demo_whole nw (both_run Stopping [] []) ?s ?w (Some True)"
    using demo_main [OF demo_taken main_step.signal] by (simp add: both_run_def main_agrees_def Working_at)
  from demo_main [OF this main_step.stop, of RElector "[RServiceWatcher, RNodeWatcher, RServer]"]
  have stopped: "demo_whole nw (both_run Stopping [RElector] []) (?e (AtSelect LockChan) True True) ?w (Some True)"
    by (simp add: both_run_def main_agrees_def Working_at runStoppers_def)
  have go: "demo_whole nw (both_run Stopping [RElector] []) e' ?w (Some True)"
    if "demo_whole nw (both_run Stopping [RElector] []) e ?w (Some True)" "run_step ''me'' e e'" for e e'
    using demo_elects [OF that] by (simp add: both_run_def Working_at)
  have "demo_whole nw (both_run Stopping [RElector] []) (?e (AtUnset True) True True) ?w (Some True)"
    by (rule go [OF stopped]) (use run_step.select_stop [of "?e (AtSelect LockChan) True True"] in simp)
  then have "demo_whole nw (both_run Stopping [RElector] []) (?e (AtUnlock True) False True) ?w (Some True)"
    by (rule go) (use run_step.relinquished [of "?e (AtUnset True) True True"] in \<open>simp add: setIsLeader_def\<close>)
  then have "demo_whole nw (both_run Stopping [RElector] []) resigned_elector ?w (Some True)"
    by (rule go) (use run_step.unlock [of "?e (AtUnlock True) False True"] in simp)
  from demo_main [OF this main_step.returns [of _ RElector]]
  have "demo_whole nw (resigned_main\<lparr>pr_ended := []\<rparr>) resigned_elector ?w (Some True)"
    by (simp add: both_run_def resigned_main_def main_agrees_def Working_at whole_at_simps fun_upd_twist)
  from demo_main [OF this main_step.stop_ends [of _ RElector]] show ?thesis
    by (simp add: resigned_main_def main_agrees_def Working_at whole_at_simps)
qed

lemma plain_item_writes:
  "\<exists>sw' w'. processNextItem Some no_metrics 0 plain_ix demo_T plain_sw (memory_world demo_kv True) = Ret (True, sw', w') \<and>
     kv_writes w' \<noteq> []"
proof -
  have "case processNextItem Some no_metrics 0 plain_ix demo_T plain_sw (memory_world demo_kv True) of
      Ret (b, sw', w') \<Rightarrow> b \<and> kv_writes w' \<noteq> [] | _ \<Rightarrow> False"
    by code_simp
  then show ?thesis by (auto split: go.splits prod.splits)
qed

lemma demo_late_write:
  "\<exists>s s'. whole_reached ''me'' Some no_metrics (\<lambda>_. 0) demo_T (NewServiceWatcher [] ''c1'' ()) nw s \<and>
     RElector \<in> set (pr_ended (wh_main s)) \<and> \<not> isLeader (wh_elector s) \<and> \<not> held (wh_elector s) \<and>
     whole_step ''me'' Some no_metrics (\<lambda>_. 0) demo_T s s' \<and> wh_kv s = [] \<and> wh_kv s' \<noteq> []"
proof -
  let ?s = "whole_at nw resigned_main resigned_elector (Working plain_sw) (Some True)"
  obtain sw' w' where p: "processNextItem Some no_metrics 0 plain_ix demo_T plain_sw (memory_world demo_kv True) = Ret (True, sw', w')"
    and k: "kv_writes w' \<noteq> []"
    using plain_item_writes by blast
  let ?s' = "?s\<lparr>wh_sw := after_item True sw' (wh_sw ?s), wh_svc := None, wh_kv := wh_kv ?s @ sent_kv (memory_world demo_kv True) w'\<rparr>"
  have "alive ?s" by (simp add: alive_at resigned_main_def Working_at)
  then have "whole_step ''me'' Some no_metrics (\<lambda>_. 0) demo_T ?s ?s'"
    by (rule sw_ends [where up = True]) (use p in \<open>simp_all add: whole_at_simps Working_at\<close>)
  moreover have "sent_kv (memory_world demo_kv True) w' = kv_writes w'"
    by (simp add: sent_kv_def) (simp add: writes_def memory_world_def)
  then have "wh_kv ?s' \<noteq> []" using k by simp
  moreover have "RElector \<in> set (pr_ended (wh_main ?s))" "\<not> isLeader (wh_elector ?s)" "\<not> held (wh_elector ?s)" "wh_kv ?s = []"
    by (simp_all add: whole_at_simps resigned_main_def)
  ultimately show ?thesis using demo_resigned by blast
qed


text \<open>Runs for the properties above: the item is done by a process that is not elected, or one that asks
  too late.\<close>

lemma plain_item_silent:
  "\<exists>sw' w'. processNextItem Some no_metrics 0 plain_ix demo_T plain_sw (memory_world demo_kv False) = Ret (True, sw', w')"
proof -
  have "case processNextItem Some no_metrics 0 plain_ix demo_T plain_sw (memory_world demo_kv False) of
      Ret (b, sw', w') \<Rightarrow> b | _ \<Rightarrow> False"
    by code_simp
  then show ?thesis by (auto split: go.splits prod.splits)
qed

lemma demo_item_done:
  assumes "demo_whole nw m e (Working plain_sw) (Some up)" "case pr_phase m of Exited oc \<Rightarrow> False | _ \<Rightarrow> True"
  shows "\<exists>s. whole_reached ''me'' Some no_metrics (\<lambda>_. 0) demo_T blank_sw nw s \<and> wh_main s = m \<and> wh_elector s = e \<and>
    processed (wh_sw s) = 1 \<and> worker (wh_sw s) = InWorker \<and> wh_svc s = None \<and> wh_node s = None"
proof -
  let ?s = "whole_at nw m e (Working plain_sw) (Some up)"
  obtain sw' w' where p: "processNextItem Some no_metrics 0 plain_ix demo_T plain_sw (memory_world demo_kv False) = Ret (True, sw', w')"
    using plain_item_silent by blast
  let ?s' = "?s\<lparr>wh_sw := after_item True sw' (wh_sw ?s), wh_svc := None, wh_kv := wh_kv ?s @ sent_kv (memory_world demo_kv False) w'\<rparr>"
  have "alive ?s" using assms(2) by (simp add: alive_at Working_at)
  then have "whole_step ''me'' Some no_metrics (\<lambda>_. 0) demo_T ?s ?s'"
    by (rule sw_ends [where up = up]) (use p in \<open>simp_all add: whole_at_simps Working_at memory_world_def\<close>)
  from whole_reached.step [OF assms(1) this] have "whole_reached ''me'' Some no_metrics (\<lambda>_. 0) demo_T blank_sw nw ?s'" .
  moreover have "wh_main ?s' = m" "wh_elector ?s' = e" "wh_svc ?s' = None" "wh_node ?s' = None"
    by (simp_all add: whole_at_simps)
  moreover have "processed (wh_sw ?s') = 1" "worker (wh_sw ?s') = InWorker"
    by (simp_all add: whole_at_simps after_item_def) (simp_all add: Working_def)
  ultimately show ?thesis by blast
qed

abbreviation demo_node_watcher :: "queued workqueue NodeWatcher" where
  "demo_node_watcher \<equiv> demo_nw (demo_queue AddOp)"


theorem no_writes_before_election_witness:
  "\<exists>s. whole_reached ''me'' Some no_metrics (\<lambda>_. 0) demo_T blank_sw demo_node_watcher s \<and> processed (wh_sw s) = 1 \<and> wh_kv s = []"
proof -
  let ?m = "both_run Serving [] []"
  have ok: "case pr_phase ?m of Exited oc \<Rightarrow> False | _ \<Rightarrow> True" by (simp add: both_run_def)
  then have "alive (whole_at demo_node_watcher ?m NewElector (Working plain_sw) None)" by (simp add: alive_at Working_at)
  from whole_reached.step [OF demo_working sw_takes [OF this]]
  have "demo_whole demo_node_watcher ?m NewElector (Working plain_sw) (Some False)"
    by (simp add: whole_at_def Working_at NewElector_def)
  from demo_item_done [OF this ok] obtain s
    where s: "whole_reached ''me'' Some no_metrics (\<lambda>_. 0) demo_T blank_sw demo_node_watcher s" "wh_elector s = NewElector"
      "processed (wh_sw s) = 1"
    by blast
  have "wh_kv s = []"
    by (rule no_writes_before_election [OF s(1)]) (simp add: s(2) NewElector_def count_of_def)
  then show ?thesis using s by blast
qed


theorem no_writes_after_stop_witness:
  "\<exists>s. whole_reached ''me'' Some no_metrics (\<lambda>_. 0) demo_T blank_sw demo_node_watcher s \<and> worker (wh_sw s) = InWorker \<and>
     {wh_kv s' | s'. (whole_step ''me'' Some no_metrics (\<lambda>_. 0) demo_T)\<^sup>*\<^sup>* s s'} = {wh_kv s}"
proof -
  have "case pr_phase resigned_main of Exited oc \<Rightarrow> False | _ \<Rightarrow> True" by (simp add: resigned_main_def)
  from demo_item_done [OF demo_resigned this] obtain s
    where s: "whole_reached ''me'' Some no_metrics (\<lambda>_. 0) demo_T blank_sw demo_node_watcher s" "wh_main s = resigned_main"
      "worker (wh_sw s) = InWorker" "wh_svc s = None" "wh_node s = None"
    by blast
  have "wh_kv s' = wh_kv s" if "(whole_step ''me'' Some no_metrics (\<lambda>_. 0) demo_T)\<^sup>*\<^sup>* s s'" for s'
    by (rule no_writes_after_stop [OF s(1) _ _ _ that]) (simp_all add: s resigned_main_def)
  then have "{wh_kv s' | s'. (whole_step ''me'' Some no_metrics (\<lambda>_. 0) demo_T)\<^sup>*\<^sup>* s s'} = {wh_kv s}" by blast
  then show ?thesis using s by blast
qed

end
