(* ===== verification/Spec2Isabelle.thy ===== *)
theory Spec2Isabelle
  imports Lifecycle Resync Replicas ServiceRun NodeRun ItemRace ItemAtomic WholeProcess
begin

text \<open>
  A verification development of kube-service-exporter: a process that watches the Services and
  Nodes of a Kubernetes cluster and keeps a description of the exported ones in Consul.

  \<^bold>\<open>The program.\<close> Two informers call handlers that put operations on queues; one worker per
  queue takes them off and calls an export target. Every replica of the process registers
  services with its Consul agent, but only the one that holds the leader lock writes the shared
  metadata. \<open>main\<close> reads settings, builds the parts, runs them and stops them on a signal.

  \<^bold>\<open>Theories, in the order of their dependencies.\<close>

  \<^item> \<open>Prelude\<close>: errors as values (\<open>result\<close>), panics as outcomes (\<open>go\<close>), logs that grow, list swaps.
  \<^item> \<open>GoHeap\<close>: Go's \<open>container/heap\<close> over an interface stated as a locale, with heap order and
    content laws for Push, Pop and Remove. \<open>ItemHeap\<close>: \<open>pkg/queue/queue.go\<close>, items reached
    through pointers and their back indices, which interprets that locale.
  \<^item> \<open>PriorityQueue\<close>: \<open>pkg/queue/priority\_queue.go\<close>. Invariant, abstraction to a map from values to
    priorities, the locale \<open>work_queue\<close> and its interpretation, refinement of whole call histories.
  \<^item> \<open>GoStd\<close>, \<open>GoJson\<close>, \<open>GoTime\<close>: what the code uses of \<open>strconv\<close>, \<open>strings\<close>, \<open>encoding/json\<close>
    (printer, parser and their round trip) and \<open>time\<close>. Strings are byte strings.
  \<^item> \<open>Util\<close>: \<open>pkg/util\<close>. \<open>ExportedService\<close>: \<open>pkg/controller/exportable\_service.go\<close>.
  \<^item> \<open>Stats\<close>: \<open>pkg/stats\<close>; the metrics sent so far and the clock are the record \<open>env\<close>, which every
    stateful part extends. \<open>QueueMetrics\<close>: \<open>pkg/queue/metrics.go\<close>.
  \<^item> \<open>Consul\<close>: \<open>pkg/consul\<close>, on an arbitrary Consul client; \<open>consul_ok\<close> names what Consul promises.
    \<open>Leader\<close>: \<open>pkg/leader\<close>, functions for the readers and a step relation for \<open>Run\<close>, whose steps
    are the accesses to shared state; locale \<open>leader_elector\<close>.
  \<^item> \<open>ConsulTarget\<close>: \<open>pkg/controller/consul\_target.go\<close>, all operations, which writes they send and
    what they leave in Consul.
  \<^item> \<open>ServiceWatcher\<close>: \<open>service\_watcher.go\<close>, \<open>keyop.go\<close> and \<open>export\_target.go\<close>; locale \<open>export_target\<close>,
    interpreted on the Consul target.
  \<^item> \<open>DelayingQueue\<close>: \<open>pkg/queue/delaying\_queue\_statsd.go\<close> over the interface of client-go's
    queue, the contract of that interface as locale \<open>delaying_queue\<close>, and the vendored queue, which
    is shown to keep it, with and without the wrapper.
  \<^item> \<open>NodeWatcher\<close>: \<open>pkg/controller/node\_watcher.go\<close>; locale \<open>watcher_queue\<close>, an extension of
    \<open>delaying_queue\<close>, interpreted on the queue the watcher is built with.
  \<^item> \<open>MainProg\<close>: \<open>main.go\<close>, \<open>pkg/server\<close> and the constructors; setup as a function, running and
    stopping as a step relation.
  \<^item> \<open>EndToEnd\<close>: an added Service from the informer's event to the key in Consul; locale
    \<open>reporting\<close> for what target operations report. \<open>Lifecycle\<close>: updated and deleted Services and
    node events, likewise. \<open>Resync\<close>: updates that change nothing.
  \<^item> \<open>Replicas\<close>: several processes that compete for the leader lock, each with its elector.
  \<^item> \<open>WatcherRun\<close>: \<open>Run\<close> and \<open>Stop\<close> of the watchers as a step relation over informer, handlers,
    worker and \<open>Stop\<close>; locale \<open>watcher\<close> for what a watcher provides. \<open>ServiceRun\<close> and \<open>NodeRun\<close>
    interpret it on the two watchers (\<open>service\_watcher.go\<close>, \<open>node\_watcher.go\<close>).
  \<^item> \<open>ItemRace\<close>: one item of the service watcher in two halves, between which a handler runs.
    \<open>ItemAtomic\<close>: the watcher with items split into taking, working and finishing, simulated by the
    watcher of \<open>ServiceRun\<close>, and the other way round.
  \<^item> \<open>ItemWrites\<close>: what one item of either watcher writes, for any log of the target; locale
    \<open>node_target\<close>, interpreted on the Consul target for its own keys and for a process that does not lead.
  \<^item> \<open>WholeProcess\<close>: \<open>main\<close>, the elector and both watchers as one step relation, tied together
    where the program ties them; its projections onto the parts, who may write when, and which keys.

  \<^bold>\<open>What is shown.\<close> The queue returns what its specification allows, for every history of calls,
  and drains in priority order. Exporting a Service yields one description per port or an error,
  never a panic; its JSON text reads back. A process that does not lead writes no metadata; one that
  leads leaves, after every operation that reports success, the store as described, touches no key
  of another service, and writes nothing twice. Updates call the target exactly for the new
  services, in order, and then for the orphans. An added, updated or deleted Service, and a node
  event, leave in Consul what they should unless a failure was counted; a report that changes
  nothing writes no metadata. In the process as a whole each part runs as it does on its own; no
  metadata is written before an election is reported, nor by an item that is taken after the elector
  was stopped, and never outside the keys of the own cluster. Items may be treated as single steps but for reports about their own Service. Both
  workers end when nothing is queued. While a watcher runs its queue stays typed, the worker takes nothing before the
  cache is filled, and once it is stopped and its informer has ended every run is short and ends.
  The elector's flag is up only while the lock is held or while the elector is being stopped; of two replicas with the
  flag up one has lost its session or is being stopped. The node watcher writes the nodes of the
  first selector with enough of them. The process starts exactly when its settings and clients are
  usable, and stops its parts in a fixed order. The theorems that describe behaviour the code hardly
  intends (panics on node deletions and on a second update, a recreated Service that is
  deleted, a leader without a lock, the removal of another cluster's metadata, a \<open>Stop\<close>
  that returns before the worker, a write after the lock was released, a shutdown that ends as a
  failure) are stated as what the code does.

  \<^bold>\<open>Parameters.\<close> Code outside the repository is an argument: the Consul client and server, the
  statsd client, viper, name resolution, clientcmd and the Kubernetes client, label selectors, listers
  and caches, \<open>text/template\<close>, \<open>hashstructure\<close>, \<open>sort\<close>, and the float syntax of JSON. The answers a
  goroutine gets from another (the leader flag, which ready channel \<open>select\<close> takes, instants of the
  clock) are arbitrary series; in \<open>WholeProcess\<close> the elector can say yes during an item only if
  its flag was up at some time since the item was taken. A theorem that needs to know more says so in a named hypothesis (\<open>consul_ok\<close>,
  \<open>reads_only\<close>, \<open>sort_ok\<close>, \<open>ip_texts\<close>, \<open>steady\<close>), and its witness instantiates the parameter.

  \<^bold>\<open>Bounds.\<close> The workers' loops have fuel that counts items; the termination theorems show that one
  more than the number of queued items is enough; a stopped watcher takes at most three steps more
  than there are queued items. All other loops are total functions with a measure;
  JSON nests at most 10000 deep, as in the library.
  Ports are integers with their 32-bit bounds stated as a theorem, hashes are 64-bit words,
  durations of subtraction saturate and those of multiplication wrap around.

  \<^bold>\<open>Not modelled.\<close> Log lines; how the informers fill their caches (only when
  they call the handlers, and with what); reports about the Service of an item that was just taken
  (one call of \<open>processNextItem\<close> is one step of a running watcher, which \<open>ItemAtomic\<close> justifies for all
  other reports; \<open>ItemRace\<close> shows a case that it does not cover); a second call of a \<open>Stop\<close>; serving
  HTTP and the deadline of \<open>Shutdown\<close>, which are \<open>net/http\<close>; mutexes, since each queue operation holds
  its lock from beginning to end; the test helper \<open>pkg/tests\<close>, which starts a Consul process; of the
  vendored code everything but the work queue.
\<close>

end
